theory Spec2Isabelle
  imports Main
begin

section \<open>Constants and helper macros\<close>

text \<open>
  \<^verbatim>\<open>common/constants.h\<close> and \<^verbatim>\<open>common/macros.h\<close>.  Sizes, capacities and array
  indices are natural numbers here; the source keeps them in \<^verbatim>\<open>int\<close> and never
  lets them go negative on the paths that are modelled.
\<close>

definition OVERFLOW_SIZE :: nat where
  "OVERFLOW_SIZE = 1"

datatype SharedLockType = NONE | SHARE | EXCLUSIVE

definition UNDERFLOW_BOUND :: "nat \<Rightarrow> nat" where
  "UNDERFLOW_BOUND N = (N + 1) div 2"

text \<open>
  \<^verbatim>\<open>std::lower_bound(first, first + len, val)\<close> over the array \<open>xs\<close>: the halving
  loop of the standard library, comparing with \<^verbatim>\<open>operator<\<close> of the key type.
  The result is an index into \<open>xs\<close>.
\<close>

function lower_bound :: "'k::linorder list \<Rightarrow> nat \<Rightarrow> nat \<Rightarrow> 'k \<Rightarrow> nat" where
  "lower_bound xs first len val =
     (if 0 < len then
        (if xs ! (first + len div 2) < val
         then lower_bound xs (first + len div 2 + 1) (len - len div 2 - 1) val
         else lower_bound xs first (len div 2) val)
      else first)"
  by pat_completeness auto
termination
  by (relation "measure (\<lambda>(xs, first, len, val). len)") auto

declare lower_bound.simps [simp del]

section \<open>Nodes\<close>

text \<open>
  A leaf object is its heap address, the first \<^verbatim>\<open>Size()\<close> slots of the parallel
  arrays \<^verbatim>\<open>keys_\<close> and \<^verbatim>\<open>values_\<close> (slot \<open>i\<close> is the pair
  \<^verbatim>\<open>(keys_[i], values_[i])\<close>), and the pointer \<^verbatim>\<open>right_sibl_\<close> (an address, or
  \<open>None\<close> for \<^verbatim>\<open>nullptr\<close>).  An internal node is the first \<^verbatim>\<open>Size()\<close> slots of
  \<^verbatim>\<open>keys_\<close> and \<^verbatim>\<open>child_\<close>; the child pointer is owning, so the slot holds the
  child itself.  Array slots at or beyond \<^verbatim>\<open>Size()\<close> are never read before they are
  rewritten and are not represented.  The \<^verbatim>\<open>right_sibl_\<close> field of an internal node is
  written but never followed by any operation and is left out, and with it the store
  of \<^verbatim>\<open>InternalNode::ShiftAndInsert\<close> that moves the unused slot
  \<^verbatim>\<open>child_[Size()]\<close> one place to the right.

  Every operation returns an \<open>option\<close>: \<open>None\<close> stands for a failed \<^verbatim>\<open>assert\<close>
  or an access outside an array.  The latch calls of the operations act on the
  \<^verbatim>\<open>QueryContext\<close> and on the mutexes only, never on a node field; they are
  embedded separately, in the sections on the traversal context and on the latch calls
  of the node operations, and the node operations below are what each operation reads
  and writes in the nodes.  The operations of the tree run both.
\<close>

datatype ('k, 'v) node =
    LeafNode (addr: nat) (entries: "('k \<times> 'v) list") (right_sibl: "nat option")
  | InternalNode (slots: "('k \<times> ('k, 'v) node) list")

datatype NodeType = LEAF | INTERNAL

fun Type :: "('k, 'v) node \<Rightarrow> NodeType" where
  "Type (LeafNode a es rs) = LEAF"
| "Type (InternalNode sl) = INTERNAL"

fun Size :: "('k, 'v) node \<Rightarrow> nat" where
  "Size (LeafNode a es rs) = length es"
| "Size (InternalNode sl) = length sl"

text \<open>
  \<^verbatim>\<open>GetKey(offset)\<close> asserts \<^verbatim>\<open>offset < Capacity\<close>; \<^verbatim>\<open>LEFTMOST_KEY\<close> and
  \<^verbatim>\<open>RIGHTMOST_KEY\<close> assert \<^verbatim>\<open>Size() > 0\<close> first.  \<open>L\<close> and \<open>I\<close> are the leaf and
  the internal capacity of the tree the node belongs to.
\<close>

fun node_keys :: "('k, 'v) node \<Rightarrow> 'k list" where
  "node_keys (LeafNode a es rs) = map fst es"
| "node_keys (InternalNode sl) = map fst sl"

fun Capacity :: "nat \<Rightarrow> nat \<Rightarrow> ('k, 'v) node \<Rightarrow> nat" where
  "Capacity L I (LeafNode a es rs) = L"
| "Capacity L I (InternalNode sl) = I"

definition GetKey :: "nat \<Rightarrow> nat \<Rightarrow> ('k, 'v) node \<Rightarrow> nat \<Rightarrow> 'k option" where
  "GetKey L I n offset =
     (if offset < Capacity L I n \<and> offset < Size n then Some (node_keys n ! offset) else None)"

definition LEFTMOST_KEY :: "nat \<Rightarrow> nat \<Rightarrow> ('k, 'v) node \<Rightarrow> 'k option" where
  "LEFTMOST_KEY L I n = (if 0 < Size n then GetKey L I n 0 else None)"

definition RIGHTMOST_KEY :: "nat \<Rightarrow> nat \<Rightarrow> ('k, 'v) node \<Rightarrow> 'k option" where
  "RIGHTMOST_KEY L I n = (if 0 < Size n then GetKey L I n (Size n - 1) else None)"

subsection \<open>Leaf helpers\<close>

definition SearchKeyIndex :: "('k::linorder \<times> 'v) list \<Rightarrow> 'k \<Rightarrow> bool \<times> nat" where
  "SearchKeyIndex es key =
     (let index = lower_bound (map fst es) 0 (length es) key
      in (index < length es \<and> fst (es ! index) = key, index))"

text \<open>
  \<^verbatim>\<open>LeafNode::ShiftAndInsert\<close> writes slot \<^verbatim>\<open>Size()\<close>, which exists only while
  \<^verbatim>\<open>Size() < Capacity\<close>.  \<^verbatim>\<open>LeafNode::DeleteIndex\<close> also reports the underflow.
\<close>

definition Leaf_ShiftAndInsert ::
  "nat \<Rightarrow> 'k \<Rightarrow> 'v \<Rightarrow> nat \<Rightarrow> ('k \<times> 'v) list \<Rightarrow> ('k \<times> 'v) list option" where
  "Leaf_ShiftAndInsert L key val insert_pos es =
     (if insert_pos \<le> length es \<and> length es < L
      then Some (take insert_pos es @ (key, val) # drop insert_pos es)
      else None)"

definition Leaf_DeleteIndex ::
  "nat \<Rightarrow> nat \<Rightarrow> ('k \<times> 'v) list \<Rightarrow> (('k \<times> 'v) list \<times> bool) option" where
  "Leaf_DeleteIndex L index es =
     (if index < length es
      then Some (take index es @ drop (index + 1) es, length es - 1 < UNDERFLOW_BOUND L)
      else None)"

text \<open>
  \<^verbatim>\<open>LeafNode::GetEntry\<close>: \<open>None\<close> is the \<^verbatim>\<open>false\<close> return, which leaves the
  out-parameters alone.
\<close>

definition GetEntry :: "nat \<Rightarrow> ('k \<times> 'v) list \<Rightarrow> ('k \<times> 'v) option" where
  "GetEntry offset es = (if offset \<ge> length es then None else Some (es ! offset))"

subsection \<open>Stringification\<close>

text \<open>
  \<^verbatim>\<open>LeafNode::String\<close>.  The stream output of a key and of a value belongs to their
  types and is a parameter; \<open>show_int\<close> is the decimal output of \<^verbatim>\<open>int\<close>.
\<close>

fun Leaf_String_from ::
  "('k \<Rightarrow> string) \<Rightarrow> ('v \<Rightarrow> string) \<Rightarrow> ('k \<times> 'v) list \<Rightarrow> string" where
  "Leaf_String_from sk sv [] = []"
| "Leaf_String_from sk sv ((k, v) # es) =
     ''('' @ sk k @ '','' @ sv v @ '')'' @ (if es \<noteq> [] then '' '' else []) @
     Leaf_String_from sk sv es"

definition Leaf_String ::
  "('k \<Rightarrow> string) \<Rightarrow> ('v \<Rightarrow> string) \<Rightarrow> ('k \<times> 'v) list \<Rightarrow> string" where
  "Leaf_String sk sv es = ''[LEAF: '' @ Leaf_String_from sk sv es @ '']''"

lemma size_slot_child [termination_simp]:
  "(k, c) \<in> set sl \<Longrightarrow> size c < Suc (size_list (\<lambda>x. Suc (size (snd x))) sl)"
  by (induction sl) auto

lemma size_slot_nth [termination_simp]:
  "i < length sl \<Longrightarrow> size (snd (sl ! i)) < Suc (size_list (\<lambda>x. Suc (size (snd x))) sl)"
  using size_slot_child [of "fst (sl ! i)" "snd (sl ! i)" sl] by simp

fun String :: "('k \<Rightarrow> string) \<Rightarrow> ('v \<Rightarrow> string) \<Rightarrow> ('k, 'v) node \<Rightarrow> string" where
  "String sk sv (LeafNode a es rs) = Leaf_String sk sv es"
| "String sk sv (InternalNode sl) =
     ''[INTERNAL: '' @
     concat (map (\<lambda>idx. String sk sv (snd (sl ! idx)) @
                   (if idx + 1 < length sl then '' | '' @ sk (fst (sl ! idx)) @ '' | '' else []))
               [0..<length sl]) @
     '']''"

definition digit_char :: "nat \<Rightarrow> char" where
  "digit_char d = char_of (48 + d)"

function show_nat :: "nat \<Rightarrow> string" where
  "show_nat n = (if n < 10 then [digit_char n] else show_nat (n div 10) @ [digit_char (n mod 10)])"
  by pat_completeness auto
termination
  by (relation "measure id") auto

declare show_nat.simps [simp del]

definition show_int :: "int \<Rightarrow> string" where
  "show_int i = (if i < 0 then CHR ''-'' # show_nat (nat (- i)) else show_nat (nat i))"

subsection \<open>Insert\<close>

text \<open>
  \<^verbatim>\<open>struct Split\<close>, and what \<^verbatim>\<open>Insert\<close> hands back: \<open>NoSplit n\<close> is the
  \<^verbatim>\<open>false\<close> return with \<open>n\<close> the node after the call, \<open>DidSplit s\<close> the
  \<^verbatim>\<open>true\<close> return with the out-parameter \<open>s\<close>, whose \<open>left\<close> is the node itself
  after the call.  \<^verbatim>\<open>new\<close> takes the next unused leaf address \<open>fresh\<close>.
\<close>

datatype ('k, 'v) Split =
  Split (left: "('k, 'v) node") (right: "('k, 'v) node") (boundary_key: 'k)

datatype ('k, 'v) insert_result = NoSplit "('k, 'v) node" | DidSplit "('k, 'v) Split"

definition Leaf_Insert ::
  "nat \<Rightarrow> nat \<Rightarrow> 'k::linorder \<Rightarrow> 'v \<Rightarrow> nat \<Rightarrow> ('k \<times> 'v) list \<Rightarrow> nat option \<Rightarrow> nat
     \<Rightarrow> (('k, 'v) insert_result \<times> nat) option" where
  "Leaf_Insert L I key val a es rs fresh =
     (let (found, insert_pos) = SearchKeyIndex es key in
      if found then Some (NoSplit (LeafNode a (es[insert_pos := (fst (es ! insert_pos), val)]) rs), fresh)
      else if length es < L then
        (case Leaf_ShiftAndInsert L key val insert_pos es of
           None \<Rightarrow> None
         | Some es' \<Rightarrow> Some (NoSplit (LeafNode a es' rs), fresh))
      else
        (let boundary_idx = UNDERFLOW_BOUND (length es);
             sibling_es = take (L - boundary_idx) (drop boundary_idx es);
             this_es = take boundary_idx es
         in case (if insert_pos < boundary_idx
                  then map_option (\<lambda>e. (e, sibling_es))
                         (Leaf_ShiftAndInsert L key val insert_pos this_es)
                  else map_option (\<lambda>e. (this_es, e))
                         (Leaf_ShiftAndInsert L key val (insert_pos - boundary_idx) sibling_es)) of
              None \<Rightarrow> None
            | Some (les, res) \<Rightarrow>
               (case RIGHTMOST_KEY L I (LeafNode a les (Some fresh)) of
                  None \<Rightarrow> None
                | Some b \<Rightarrow>
                    Some (DidSplit (Split (LeafNode a les (Some fresh)) (LeafNode fresh res rs) b),
                          fresh + 1))))"


subsection \<open>Internal-node helpers\<close>

definition SearchChildIndex :: "('k::linorder \<times> ('k, 'v) node) list \<Rightarrow> 'k \<Rightarrow> nat" where
  "SearchChildIndex sl key = lower_bound (map fst sl) 0 (length sl - 1) key"

text \<open>
  \<^verbatim>\<open>InternalNode::ShiftAndInsert\<close> shifts keys only when
  \<^verbatim>\<open>insert_pos <= Size()\<close>, which every call site satisfies; the arrays have
  \<^verbatim>\<open>Capacity + OVERFLOW_SIZE\<close> slots.  \<^verbatim>\<open>InternalNode::DeleteIndex\<close> only
  decrements the size when \<^verbatim>\<open>index >= Size()\<close>.
\<close>

definition Internal_ShiftAndInsert ::
  "nat \<Rightarrow> 'k \<Rightarrow> ('k, 'v) node \<Rightarrow> nat \<Rightarrow> ('k \<times> ('k, 'v) node) list
     \<Rightarrow> ('k \<times> ('k, 'v) node) list option" where
  "Internal_ShiftAndInsert I key child insert_pos sl =
     (if insert_pos \<le> length sl \<and> length sl < I + OVERFLOW_SIZE
      then Some (take insert_pos sl @ (key, child) # drop insert_pos sl)
      else None)"

definition Internal_DeleteIndex ::
  "nat \<Rightarrow> nat \<Rightarrow> ('k \<times> ('k, 'v) node) list \<Rightarrow> ('k \<times> ('k, 'v) node) list \<times> bool" where
  "Internal_DeleteIndex I index sl =
     ((if index < length sl then take index sl @ drop (index + 1) sl else butlast sl),
      length sl - 1 < UNDERFLOW_BOUND I)"

text \<open>
  The part of \<^verbatim>\<open>InternalNode::Insert\<close> after the recursive call on the target child:
  \<open>res\<close> is what the child returned.
\<close>

definition Internal_Insert_absorb ::
  "nat \<Rightarrow> ('k \<times> ('k, 'v) node) list \<Rightarrow> nat \<Rightarrow> ('k, 'v) insert_result
     \<Rightarrow> ('k, 'v) insert_result option" where
  "Internal_Insert_absorb I sl target_idx res =
     (case res of
        NoSplit c \<Rightarrow> Some (NoSplit (InternalNode (sl[target_idx := (fst (sl ! target_idx), c)])))
      | DidSplit sp \<Rightarrow>
          (case Internal_ShiftAndInsert I (fst (sl ! target_idx)) (right sp) (target_idx + 1)
                  (sl[target_idx := (boundary_key sp, left sp)]) of
             None \<Rightarrow> None
           | Some sl' \<Rightarrow>
               if length sl' \<le> I then Some (NoSplit (InternalNode sl'))
               else
                 (let boundary_idx = UNDERFLOW_BOUND (length sl');
                      sibling_sl = take (I + 1 - boundary_idx) (drop boundary_idx sl');
                      this_sl = take boundary_idx sl'
                  in Some (DidSplit (Split (InternalNode this_sl) (InternalNode sibling_sl)
                                       (fst (sl' ! (boundary_idx - 1))))))))"

fun Insert ::
  "nat \<Rightarrow> nat \<Rightarrow> 'k::linorder \<Rightarrow> 'v \<Rightarrow> ('k, 'v) node \<Rightarrow> nat
     \<Rightarrow> (('k, 'v) insert_result \<times> nat) option" where
  "Insert L I key val (LeafNode a es rs) fresh = Leaf_Insert L I key val a es rs fresh"
| "Insert L I key val (InternalNode sl) fresh =
     (if SearchChildIndex sl key < length sl then
        (case Insert L I key val (snd (sl ! SearchChildIndex sl key)) fresh of
           None \<Rightarrow> None
         | Some (res, fresh') \<Rightarrow>
             map_option (\<lambda>r. (r, fresh'))
               (Internal_Insert_absorb I sl (SearchChildIndex sl key) res))
      else None)"

subsection \<open>Search and LocateKey\<close>

text \<open>
  The second argument of \<open>Search\<close> is the caller's \<^verbatim>\<open>value\<close> before the call; the
  result carries it after the call.  \<open>LocateKey\<close> returns the leaf by its address.
\<close>

fun Search :: "'k::linorder \<Rightarrow> 'v \<Rightarrow> ('k, 'v) node \<Rightarrow> (bool \<times> 'v) option" where
  "Search key val0 (LeafNode a es rs) =
     (let (found, index) = SearchKeyIndex es key
      in Some (found, if found then snd (es ! index) else val0))"
| "Search key val0 (InternalNode sl) =
     (if SearchChildIndex sl key < length sl
      then Search key val0 (snd (sl ! SearchChildIndex sl key))
      else None)"

fun LocateKey :: "'k::linorder \<Rightarrow> ('k, 'v) node \<Rightarrow> (bool \<times> nat \<times> nat) option" where
  "LocateKey key (LeafNode a es rs) =
     (let (found, position) = SearchKeyIndex es key in Some (found, a, position))"
| "LocateKey key (InternalNode sl) =
     (if SearchChildIndex sl key < length sl
      then LocateKey key (snd (sl ! SearchChildIndex sl key))
      else None)"

text \<open>
  \<open>Update\<close> returns the \<^verbatim>\<open>bool\<close> result and the node after the call.
\<close>

fun Update :: "'k::linorder \<Rightarrow> 'v \<Rightarrow> ('k, 'v) node \<Rightarrow> (bool \<times> ('k, 'v) node) option" where
  "Update key val (LeafNode a es rs) =
     (let (found, index) = SearchKeyIndex es key
      in Some (found, if found then LeafNode a (es[index := (fst (es ! index), val)]) rs
                      else LeafNode a es rs))"
| "Update key val (InternalNode sl) =
     (if SearchChildIndex sl key < length sl then
        (case Update key val (snd (sl ! SearchChildIndex sl key)) of
           None \<Rightarrow> None
         | Some (found, c) \<Rightarrow>
             Some (found, InternalNode (sl[SearchChildIndex sl key :=
                                            (fst (sl ! SearchChildIndex sl key), c)])))
      else None)"

subsection \<open>Balance\<close>

text \<open>
  \<open>Balance\<close> returns \<^verbatim>\<open>merged\<close>, the left node, the right node and the
  \<^verbatim>\<open>boundary\<close> after the call.  After a merge the right node is the object the
  caller frees.
\<close>

definition Leaf_Balance ::
  "nat \<Rightarrow> nat \<Rightarrow> nat \<Rightarrow> ('k \<times> 'v) list \<Rightarrow> nat option \<Rightarrow> nat \<Rightarrow> ('k \<times> 'v) list \<Rightarrow> nat option \<Rightarrow> 'k
     \<Rightarrow> (bool \<times> ('k, 'v) node \<times> ('k, 'v) node \<times> 'k) option" where
  "Leaf_Balance L I a es rs a2 es2 rs2 boundary =
     (if length es < UNDERFLOW_BOUND L \<and> length es2 > UNDERFLOW_BOUND L then
        (if length es \<noteq> UNDERFLOW_BOUND L - 1 then None
         else
           (case LEFTMOST_KEY L I (LeafNode a2 es2 rs2) of
              None \<Rightarrow> None
            | Some b \<Rightarrow>
               (case Leaf_ShiftAndInsert L (fst (es2 ! 0)) (snd (es2 ! 0)) (length es) es of
                  None \<Rightarrow> None
                | Some es' \<Rightarrow>
                   (case Leaf_DeleteIndex L 0 es2 of
                      None \<Rightarrow> None
                    | Some (es2', unused_underflow) \<Rightarrow>
                        if unused_underflow then None
                        else Some (False, LeafNode a es' rs, LeafNode a2 es2' rs2, b)))))
      else if length es > UNDERFLOW_BOUND L \<and> length es2 < UNDERFLOW_BOUND L then
        (if length es2 \<noteq> UNDERFLOW_BOUND L - 1 then None
         else
           (case Leaf_ShiftAndInsert L (fst (es ! (length es - 1))) (snd (es ! (length es - 1))) 0 es2 of
              None \<Rightarrow> None
            | Some es2' \<Rightarrow>
               (case Leaf_DeleteIndex L (length es - 1) es of
                  None \<Rightarrow> None
                | Some (es', unused_underflow) \<Rightarrow>
                    if unused_underflow then None
                    else
                      (case RIGHTMOST_KEY L I (LeafNode a es' rs) of
                         None \<Rightarrow> None
                       | Some b \<Rightarrow> Some (False, LeafNode a es' rs, LeafNode a2 es2' rs2, b)))))
      else
        (if length es + length es2 > L then None
         else
           (case RIGHTMOST_KEY L I (LeafNode a (es @ es2) rs2) of
              None \<Rightarrow> None
            | Some b \<Rightarrow> Some (True, LeafNode a (es @ es2) rs2, LeafNode a2 es2 rs2, b))))"

definition Internal_Balance ::
  "nat \<Rightarrow> nat \<Rightarrow> ('k \<times> ('k, 'v) node) list \<Rightarrow> ('k \<times> ('k, 'v) node) list \<Rightarrow> 'k
     \<Rightarrow> (bool \<times> ('k, 'v) node \<times> ('k, 'v) node \<times> 'k) option" where
  "Internal_Balance L I sl sl2 boundary =
     (if length sl < UNDERFLOW_BOUND I \<and> length sl2 > UNDERFLOW_BOUND I then
        (if length sl \<noteq> UNDERFLOW_BOUND I - 1 then None
         else
           (case RIGHTMOST_KEY L I (snd (sl2 ! 0)) of
              None \<Rightarrow> None
            | Some k \<Rightarrow>
               (case Internal_DeleteIndex I 0 sl2 of
                  (sl2', unused_underflow) \<Rightarrow>
                    if unused_underflow then None
                    else Some (False, InternalNode (sl @ [(k, snd (sl2 ! 0))]), InternalNode sl2', k))))
      else if length sl > UNDERFLOW_BOUND I \<and> length sl2 < UNDERFLOW_BOUND I then
        (if length sl2 \<noteq> UNDERFLOW_BOUND I - 1 then None
         else
           (case Internal_ShiftAndInsert I boundary (snd (sl ! (length sl - 1))) 0 sl2 of
              None \<Rightarrow> None
            | Some sl2' \<Rightarrow>
               (case RIGHTMOST_KEY L I (InternalNode (butlast sl)) of
                  None \<Rightarrow> None
                | Some b \<Rightarrow> Some (False, InternalNode (butlast sl), InternalNode sl2', b))))
      else
        (if length sl + length sl2 > I + OVERFLOW_SIZE then None
         else Some (True, InternalNode (sl @ sl2), InternalNode sl2, boundary)))"

text \<open>
  The virtual call \<^verbatim>\<open>left_child->Balance(right_child, boundary)\<close>; the
  \<^verbatim>\<open>static_cast\<close> of the right node to the class of the left one is defined only
  when both are of the same class.
\<close>

fun Balance ::
  "nat \<Rightarrow> nat \<Rightarrow> ('k, 'v) node \<Rightarrow> ('k, 'v) node \<Rightarrow> 'k
     \<Rightarrow> (bool \<times> ('k, 'v) node \<times> ('k, 'v) node \<times> 'k) option" where
  "Balance L I (LeafNode a es rs) (LeafNode a2 es2 rs2) boundary =
     Leaf_Balance L I a es rs a2 es2 rs2 boundary"
| "Balance L I (InternalNode sl) (InternalNode sl2) boundary =
     Internal_Balance L I sl sl2 boundary"
| "Balance L I (LeafNode a es rs) (InternalNode sl2) boundary = None"
| "Balance L I (InternalNode sl) (LeafNode a2 es2 rs2) boundary = None"

subsection \<open>Delete\<close>

text \<open>
  \<open>Delete\<close> returns the \<^verbatim>\<open>bool\<close> result, the out-parameter \<^verbatim>\<open>underflow\<close> and
  the node after the call.
\<close>

definition Leaf_Delete ::
  "nat \<Rightarrow> 'k::linorder \<Rightarrow> nat \<Rightarrow> ('k \<times> 'v) list \<Rightarrow> nat option
     \<Rightarrow> (bool \<times> bool \<times> ('k, 'v) node) option" where
  "Leaf_Delete L key a es rs =
     (let (found, index) = SearchKeyIndex es key in
      if found then
        (case Leaf_DeleteIndex L index es of
           None \<Rightarrow> None
         | Some (es', underflow) \<Rightarrow> Some (True, underflow, LeafNode a es' rs))
      else Some (False, False, LeafNode a es rs))"

text \<open>
  The part of \<^verbatim>\<open>InternalNode::Delete\<close> after the recursive call on the target child,
  which returned \<open>(deleted, underflow, target)\<close>.
\<close>

definition Internal_Delete_rebalance ::
  "nat \<Rightarrow> nat \<Rightarrow> ('k \<times> ('k, 'v) node) list \<Rightarrow> nat \<Rightarrow> bool \<Rightarrow> bool \<Rightarrow> ('k, 'v) node
     \<Rightarrow> (bool \<times> bool \<times> ('k, 'v) node) option" where
  "Internal_Delete_rebalance L I sl0 target_idx deleted underflow target =
     (let sl = sl0[target_idx := (fst (sl0 ! target_idx), target)] in
      if \<not> deleted \<or> \<not> underflow then Some (deleted, underflow, InternalNode sl)
      else if length sl \<le> 1 then Some (True, underflow, InternalNode sl)
      else
        (let boundary_idx = (if target_idx \<ge> 1 then target_idx - 1 else target_idx);
             left_child = (if target_idx \<ge> 1 then snd (sl ! (target_idx - 1)) else target);
             right_child = (if target_idx \<ge> 1 then target else snd (sl ! (target_idx + 1)));
             boundary = fst (sl ! boundary_idx)
         in case Balance L I left_child right_child boundary of
              None \<Rightarrow> None
            | Some (merged, left', right', boundary') \<Rightarrow>
                if \<not> merged then
                  Some (True, False,
                        InternalNode (sl[boundary_idx := (boundary', left'),
                                         boundary_idx + 1 := (fst (sl ! (boundary_idx + 1)), right')]))
                else
                  (case Internal_DeleteIndex I (boundary_idx + 1)
                          (sl[boundary_idx := (fst (sl ! (boundary_idx + 1)), left'),
                              boundary_idx + 1 := (fst (sl ! boundary_idx), right')]) of
                     (sl', underflow') \<Rightarrow> Some (True, underflow', InternalNode sl'))))"

fun Delete ::
  "nat \<Rightarrow> nat \<Rightarrow> 'k::linorder \<Rightarrow> ('k, 'v) node \<Rightarrow> (bool \<times> bool \<times> ('k, 'v) node) option" where
  "Delete L I key (LeafNode a es rs) = Leaf_Delete L key a es rs"
| "Delete L I key (InternalNode sl) =
     (if SearchChildIndex sl key < length sl then
        (case Delete L I key (snd (sl ! SearchChildIndex sl key)) of
           None \<Rightarrow> None
         | Some (deleted, underflow, target) \<Rightarrow>
             Internal_Delete_rebalance L I sl (SearchChildIndex sl key) deleted underflow target)
      else None)"


section \<open>The traversal context\<close>

text \<open>
  A \<^verbatim>\<open>std::shared_mutex\<close> is known by its address; the latch of a leaf has the
  address of the leaf.  The state is the \<^verbatim>\<open>QueryContext\<close> together with the list of
  the calls made on the mutexes so far, oldest first.  The fields under
  \<^verbatim>\<open>#ifdef NDEBUG\<close> hold assertions only and are left out.
\<close>

datatype mutex_call = lock nat | lock_shared nat | unlock nat | unlock_shared nat

record QueryContext =
  smallest_unlk_idx :: nat
  latches :: "nat list"

definition QueryContext_new :: QueryContext where
  "QueryContext_new = \<lparr>smallest_unlk_idx = 0, latches = []\<rparr>"

definition Clear :: "QueryContext \<Rightarrow> QueryContext" where
  "Clear ctx = \<lparr>smallest_unlk_idx = 0, latches = []\<rparr>"

definition lock_as :: "SharedLockType \<Rightarrow> nat \<Rightarrow> mutex_call list" where
  "lock_as latch_type latch =
     (case latch_type of SHARE \<Rightarrow> [lock_shared latch] | EXCLUSIVE \<Rightarrow> [lock latch] | NONE \<Rightarrow> [])"

text \<open>The \<^verbatim>\<open>switch\<close> of the release functions throws on \<^verbatim>\<open>NONE\<close>.\<close>

definition unlock_as :: "SharedLockType \<Rightarrow> nat \<Rightarrow> mutex_call option" where
  "unlock_as latch_type latch =
     (case latch_type of
        SHARE \<Rightarrow> Some (unlock_shared latch)
      | EXCLUSIVE \<Rightarrow> Some (unlock latch)
      | NONE \<Rightarrow> None)"

fun unlock_all :: "SharedLockType \<Rightarrow> nat list \<Rightarrow> mutex_call list option" where
  "unlock_all latch_type [] = Some []"
| "unlock_all latch_type (l # ls) =
     (case unlock_as latch_type l of
        None \<Rightarrow> None
      | Some c \<Rightarrow> map_option (\<lambda>cs. c # cs) (unlock_all latch_type ls))"

definition AcquireLatch ::
  "nat \<Rightarrow> SharedLockType \<Rightarrow> QueryContext \<times> mutex_call list
     \<Rightarrow> nat \<times> QueryContext \<times> mutex_call list" where
  "AcquireLatch latch latch_type s =
     (case s of (ctx, calls) \<Rightarrow>
        (length (latches ctx), ctx\<lparr>latches := latches ctx @ [latch]\<rparr>,
         calls @ lock_as latch_type latch))"

definition ReplaceLatch ::
  "nat \<Rightarrow> nat \<Rightarrow> SharedLockType \<Rightarrow> QueryContext \<times> mutex_call list
     \<Rightarrow> (QueryContext \<times> mutex_call list) option" where
  "ReplaceLatch idx latch latch_type s =
     (case s of (ctx, calls) \<Rightarrow>
        if idx < length (latches ctx) then
          map_option (\<lambda>c. (ctx\<lparr>latches := (latches ctx)[idx := latch]\<rparr>, calls @ [c]))
            (unlock_as latch_type (latches ctx ! idx))
        else None)"

definition ReleaseLatch ::
  "nat \<Rightarrow> SharedLockType \<Rightarrow> QueryContext \<times> mutex_call list
     \<Rightarrow> (QueryContext \<times> mutex_call list) option" where
  "ReleaseLatch upto_idx latch_type s =
     (case s of (ctx, calls) \<Rightarrow>
        if smallest_unlk_idx ctx \<ge> upto_idx then Some s
        else if \<not> upto_idx \<le> length (latches ctx) then None
        else
          map_option (\<lambda>cs. (ctx\<lparr>smallest_unlk_idx := upto_idx\<rparr>, calls @ cs))
            (unlock_all latch_type
               (take (upto_idx - smallest_unlk_idx ctx) (drop (smallest_unlk_idx ctx) (latches ctx)))))"

definition ReleaseLatchFromParent ::
  "nat \<Rightarrow> SharedLockType \<Rightarrow> QueryContext \<times> mutex_call list
     \<Rightarrow> (QueryContext \<times> mutex_call list) option" where
  "ReleaseLatchFromParent parent_depth latch_type s =
     (case s of (ctx, calls) \<Rightarrow>
        if smallest_unlk_idx ctx \<noteq> parent_depth then None
        else
          map_option (\<lambda>cs. (ctx\<lparr>smallest_unlk_idx := length (latches ctx)\<rparr>, calls @ cs))
            (unlock_all latch_type (drop parent_depth (latches ctx))))"

text \<open>
  The latch calls of \<^verbatim>\<open>LeafNode::Search\<close> and of \<^verbatim>\<open>LeafNode::Update\<close>, in the
  order in which the two functions make them; they do not depend on whether the key
  is found.
\<close>

definition Leaf_Search_latches ::
  "nat \<Rightarrow> QueryContext \<times> mutex_call list \<Rightarrow> (QueryContext \<times> mutex_call list) option" where
  "Leaf_Search_latches latch s =
     (case AcquireLatch latch SHARE s of
        (depth, s1) \<Rightarrow>
          (case ReleaseLatch depth SHARE s1 of
             None \<Rightarrow> None
           | Some s2 \<Rightarrow> ReleaseLatch (depth + 1) SHARE s2))"

definition Leaf_Update_latches ::
  "nat \<Rightarrow> QueryContext \<times> mutex_call list \<Rightarrow> (QueryContext \<times> mutex_call list) option" where
  "Leaf_Update_latches latch s =
     (case AcquireLatch latch EXCLUSIVE s of
        (depth, s1) \<Rightarrow>
          (case ReleaseLatch depth EXCLUSIVE s1 of
             None \<Rightarrow> None
           | Some s2 \<Rightarrow> ReleaseLatch (depth + 1) SHARE s2))"

text \<open>
  A list of mutex calls releases every latch in the mode in which it was taken when
  each \<^verbatim>\<open>unlock\<close> meets a latch held exclusively and each \<^verbatim>\<open>unlock_shared\<close> a
  latch held shared; \<open>held\<close> maps the latches held so far to their mode.
\<close>

fun modes_match :: "(nat \<Rightarrow> SharedLockType option) \<Rightarrow> mutex_call list \<Rightarrow> bool" where
  "modes_match held [] = True"
| "modes_match held (lock l # cs) = modes_match (held(l \<mapsto> EXCLUSIVE)) cs"
| "modes_match held (lock_shared l # cs) = modes_match (held(l \<mapsto> SHARE)) cs"
| "modes_match held (unlock l # cs) = (held l = Some EXCLUSIVE \<and> modes_match (held(l := None)) cs)"
| "modes_match held (unlock_shared l # cs) = (held l = Some SHARE \<and> modes_match (held(l := None)) cs)"


section \<open>The latch calls of the node operations\<close>

text \<open>
  A node operation makes its latch calls on the context it is handed.  Which calls it
  makes depends on the node and on what the operation does to it; what the operation
  does to the node never depends on the context.  \<open>X_latches\<close> is the sequence of the
  calls of \<^verbatim>\<open>X\<close> on the context and on the mutexes, in the order of the source, with
  the answers of the data part (\<^verbatim>\<open>found\<close>, \<^verbatim>\<open>is_split\<close>, \<^verbatim>\<open>deleted\<close>,
  \<^verbatim>\<open>underflow\<close>, \<^verbatim>\<open>merged\<close>) taken from the node operations above; \<open>None\<close>
  is a failed \<^verbatim>\<open>assert\<close> of the context.

  \<open>SharedLatchPtr n\<close> is the address of the latch of \<open>n\<close>.  A leaf is the one kind of
  object that has an address in the embedding; the mutexes of the internal nodes, and
  the mutex of the tree, go into the context and into the call list under the one name
  \<open>unnamed\<close>.  The assertions of the context read \<^verbatim>\<open>smallest_unlk_idx_\<close> and
  \<^verbatim>\<open>latches_.size()\<close> only, with one exception,
  \<^verbatim>\<open>assert(target_latch == context->latches_[depth + 1])\<close> in
  \<^verbatim>\<open>InternalNode::Delete\<close>, which compares the latch of the target child with the
  entry that child pushed.

  \<^verbatim>\<open>LeafNode::Insert\<close> asserts that \<^verbatim>\<open>try_lock_shared\<close> on its latch fails and
  \<^verbatim>\<open>LeafNode::Search\<close> that \<^verbatim>\<open>try_lock\<close> fails, each right after the
  \<^verbatim>\<open>AcquireLatch\<close> that locked that latch; the two assertions are not calls on the
  context and are left out.  \<^verbatim>\<open>Size() - 1 >= UNDERFLOW_BOUND(Capacity)\<close> is a
  comparison of \<^verbatim>\<open>int\<close>s.
\<close>

definition unnamed :: nat where
  "unnamed = 0"

fun SharedLatchPtr :: "('k, 'v) node \<Rightarrow> nat" where
  "SharedLatchPtr (LeafNode a es rs) = a"
| "SharedLatchPtr (InternalNode sl) = unnamed"

definition Leaf_Insert_latches ::
  "nat \<Rightarrow> 'k::linorder \<Rightarrow> nat \<Rightarrow> ('k \<times> 'v) list \<Rightarrow> QueryContext \<times> mutex_call list
     \<Rightarrow> (QueryContext \<times> mutex_call list) option" where
  "Leaf_Insert_latches L key a es s =
     (case AcquireLatch a EXCLUSIVE s of
        (depth, s1) \<Rightarrow>
          (case (if length es < L then ReleaseLatch depth EXCLUSIVE s1 else Some s1) of
             None \<Rightarrow> None
           | Some s2 \<Rightarrow>
               (let (found, insert_pos) = SearchKeyIndex es key in
                if found then ReleaseLatch (depth + 1) EXCLUSIVE s2
                else if length es < L then ReleaseLatch (depth + 1) EXCLUSIVE s2
                else Some s2)))"

fun Insert_latches ::
  "nat \<Rightarrow> nat \<Rightarrow> 'k::linorder \<Rightarrow> 'v \<Rightarrow> ('k, 'v) node \<Rightarrow> nat \<Rightarrow> QueryContext \<times> mutex_call list
     \<Rightarrow> (QueryContext \<times> mutex_call list) option" where
  "Insert_latches L I key val (LeafNode a es rs) fresh s = Leaf_Insert_latches L key a es s"
| "Insert_latches L I key val (InternalNode sl) fresh s =
     (if SearchChildIndex sl key < length sl then
        (case AcquireLatch (SharedLatchPtr (InternalNode sl)) EXCLUSIVE s of
           (depth, s1) \<Rightarrow>
             (case (if length sl < I then ReleaseLatch depth EXCLUSIVE s1 else Some s1) of
                None \<Rightarrow> None
              | Some s2 \<Rightarrow>
                  (case Insert_latches L I key val (snd (sl ! SearchChildIndex sl key)) fresh s2 of
                     None \<Rightarrow> None
                   | Some s3 \<Rightarrow>
                       (case Insert L I key val (snd (sl ! SearchChildIndex sl key)) fresh of
                          None \<Rightarrow> None
                        | Some (NoSplit c, fresh') \<Rightarrow> ReleaseLatch (depth + 1) EXCLUSIVE s3
                        | Some (DidSplit sp, fresh') \<Rightarrow>
                            if length sl + 1 \<le> I then ReleaseLatchFromParent depth EXCLUSIVE s3
                            else Some s3))))
      else None)"

fun Search_latches ::
  "'k::linorder \<Rightarrow> ('k, 'v) node \<Rightarrow> QueryContext \<times> mutex_call list
     \<Rightarrow> (QueryContext \<times> mutex_call list) option" where
  "Search_latches key (LeafNode a es rs) s = Leaf_Search_latches a s"
| "Search_latches key (InternalNode sl) s =
     (if SearchChildIndex sl key < length sl then
        (case AcquireLatch (SharedLatchPtr (InternalNode sl)) SHARE s of
           (depth, s1) \<Rightarrow>
             (case ReleaseLatch depth SHARE s1 of
                None \<Rightarrow> None
              | Some s2 \<Rightarrow> Search_latches key (snd (sl ! SearchChildIndex sl key)) s2))
      else None)"

definition Leaf_Delete_latches ::
  "nat \<Rightarrow> 'k::linorder \<Rightarrow> nat \<Rightarrow> ('k \<times> 'v) list \<Rightarrow> nat option \<Rightarrow> QueryContext \<times> mutex_call list
     \<Rightarrow> (QueryContext \<times> mutex_call list) option" where
  "Leaf_Delete_latches L key a es rs s =
     (case AcquireLatch a EXCLUSIVE s of
        (depth, s1) \<Rightarrow>
          (case (if int (length es) - 1 \<ge> int (UNDERFLOW_BOUND L)
                 then ReleaseLatch depth EXCLUSIVE s1 else Some s1) of
             None \<Rightarrow> None
           | Some s2 \<Rightarrow>
               (case Leaf_Delete L key a es rs of
                  None \<Rightarrow> None
                | Some (found, underflow, n) \<Rightarrow>
                    if \<not> underflow \<or> \<not> found then ReleaseLatch (depth + 1) EXCLUSIVE s2
                    else Some s2)))"

text \<open>
  The part of \<^verbatim>\<open>InternalNode::Delete\<close> after the recursive call on the target child,
  which returned \<open>(deleted, underflow, target)\<close>; \<open>depth\<close> is the index of the latch
  of the node itself.  \<^verbatim>\<open>sibl_latch->lock()\<close> and \<^verbatim>\<open>sibl_latch->unlock()\<close> are
  calls on the mutex that do not pass through the context.
\<close>

definition Internal_Delete_latches ::
  "nat \<Rightarrow> nat \<Rightarrow> ('k \<times> ('k, 'v) node) list \<Rightarrow> nat \<Rightarrow> bool \<Rightarrow> bool \<Rightarrow> ('k, 'v) node \<Rightarrow> nat
     \<Rightarrow> QueryContext \<times> mutex_call list \<Rightarrow> (QueryContext \<times> mutex_call list) option" where
  "Internal_Delete_latches L I sl0 target_idx deleted underflow target depth s =
     (let sl = sl0[target_idx := (fst (sl0 ! target_idx), target)] in
      if \<not> deleted \<or> \<not> underflow then ReleaseLatch (depth + 1) EXCLUSIVE s
      else if length sl \<le> 1 then Some s
      else
        (let boundary_idx = (if target_idx \<ge> 1 then target_idx - 1 else target_idx);
             sibl_index = (if target_idx \<ge> 1 then target_idx - 1 else target_idx + 1);
             left_child = (if target_idx \<ge> 1 then snd (sl ! (target_idx - 1)) else target);
             right_child = (if target_idx \<ge> 1 then target else snd (sl ! (target_idx + 1)));
             target_latch = SharedLatchPtr target;
             sibl_latch = SharedLatchPtr (snd (sl ! sibl_index));
             s1 = (fst s, snd s @ [lock sibl_latch])
         in case Balance L I left_child right_child (fst (sl ! boundary_idx)) of
              None \<Rightarrow> None
            | Some (merged, left', right', boundary') \<Rightarrow>
                (case (if target_idx \<ge> 1 then
                         (if depth + 1 < length (latches (fst s1))
                             \<and> latches (fst s1) ! (depth + 1) = target_latch
                          then ReplaceLatch (depth + 1) sibl_latch EXCLUSIVE s1
                          else None)
                       else Some (fst s1, snd s1 @ [unlock sibl_latch])) of
                   None \<Rightarrow> None
                 | Some s2 \<Rightarrow>
                     if \<not> merged then
                       (case ReleaseLatch depth EXCLUSIVE s2 of
                          None \<Rightarrow> None
                        | Some s3 \<Rightarrow> ReleaseLatchFromParent depth EXCLUSIVE s3)
                     else if \<not> snd (Internal_DeleteIndex I (boundary_idx + 1) sl) then
                       (case ReleaseLatch depth EXCLUSIVE s2 of
                          None \<Rightarrow> None
                        | Some s3 \<Rightarrow> ReleaseLatchFromParent depth EXCLUSIVE s3)
                     else Some s2)))"

fun Delete_latches ::
  "nat \<Rightarrow> nat \<Rightarrow> 'k::linorder \<Rightarrow> ('k, 'v) node \<Rightarrow> QueryContext \<times> mutex_call list
     \<Rightarrow> (QueryContext \<times> mutex_call list) option" where
  "Delete_latches L I key (LeafNode a es rs) s = Leaf_Delete_latches L key a es rs s"
| "Delete_latches L I key (InternalNode sl) s =
     (if SearchChildIndex sl key < length sl then
        (case AcquireLatch (SharedLatchPtr (InternalNode sl)) EXCLUSIVE s of
           (depth, s1) \<Rightarrow>
             (case (if int (length sl) - 1 \<ge> int (UNDERFLOW_BOUND I)
                    then ReleaseLatch depth EXCLUSIVE s1 else Some s1) of
                None \<Rightarrow> None
              | Some s2 \<Rightarrow>
                  (case Delete_latches L I key (snd (sl ! SearchChildIndex sl key)) s2 of
                     None \<Rightarrow> None
                   | Some s3 \<Rightarrow>
                       (case Delete L I key (snd (sl ! SearchChildIndex sl key)) of
                          None \<Rightarrow> None
                        | Some (deleted, underflow, target) \<Rightarrow>
                            Internal_Delete_latches L I sl (SearchChildIndex sl key)
                              deleted underflow target depth s3))))
      else None)"


section \<open>The tree\<close>

text \<open>
  \<^verbatim>\<open>MemoryBTree\<close> owns the root; \<open>next_addr\<close> is the next address the allocator
  hands to a new leaf.  The three-argument constructor of \<^verbatim>\<open>InternalNode\<close> builds
  the new root from a \<^verbatim>\<open>Split\<close>.
\<close>

record ('k, 'v) MemoryBTree =
  root :: "('k, 'v) node"
  next_addr :: nat

definition MemoryBTree_new :: "('k, 'v) MemoryBTree" where
  "MemoryBTree_new = \<lparr>root = LeafNode 0 [] None, next_addr = 1\<rparr>"

definition InternalNode_of_split ::
  "nat \<Rightarrow> nat \<Rightarrow> ('k, 'v) Split \<Rightarrow> ('k, 'v) node option" where
  "InternalNode_of_split L I sp =
     (case RIGHTMOST_KEY L I (right sp) of
        None \<Rightarrow> None
      | Some rk \<Rightarrow> Some (InternalNode [(boundary_key sp, left sp), (rk, right sp)]))"

text \<open>
  Every operation of the tree takes the context of the caller.  It pushes the latch of
  the tree, runs the operation of the root, which acts on the nodes and on the context,
  and clears the context before it returns; \<^verbatim>\<open>MemoryBTree::Delete\<close> returns
  without \<^verbatim>\<open>context->Clear()\<close> when the key is not found.
\<close>

definition MemoryBTree_Search ::
  "'k::linorder \<Rightarrow> 'v \<Rightarrow> ('k, 'v) MemoryBTree \<Rightarrow> QueryContext \<times> mutex_call list
     \<Rightarrow> ((bool \<times> 'v) \<times> QueryContext \<times> mutex_call list) option" where
  "MemoryBTree_Search key val0 t s =
     (case AcquireLatch unnamed SHARE s of
        (depth, s1) \<Rightarrow>
          (case Search key val0 (root t) of
             None \<Rightarrow> None
           | Some found \<Rightarrow>
               (case Search_latches key (root t) s1 of
                  None \<Rightarrow> None
                | Some s2 \<Rightarrow> Some (found, Clear (fst s2), snd s2))))"

definition MemoryBTree_Insert ::
  "nat \<Rightarrow> nat \<Rightarrow> 'k::linorder \<Rightarrow> 'v \<Rightarrow> ('k, 'v) MemoryBTree \<Rightarrow> QueryContext \<times> mutex_call list
     \<Rightarrow> (('k, 'v) MemoryBTree \<times> QueryContext \<times> mutex_call list) option" where
  "MemoryBTree_Insert L I key val t s =
     (case AcquireLatch unnamed EXCLUSIVE s of
        (depth, s1) \<Rightarrow>
          (case Insert L I key val (root t) (next_addr t) of
             None \<Rightarrow> None
           | Some (res, fresh) \<Rightarrow>
               (case Insert_latches L I key val (root t) (next_addr t) s1 of
                  None \<Rightarrow> None
                | Some s2 \<Rightarrow>
                    (case res of
                       NoSplit r \<Rightarrow> Some (\<lparr>root = r, next_addr = fresh\<rparr>, Clear (fst s2), snd s2)
                     | DidSplit sp \<Rightarrow>
                         (case InternalNode_of_split L I sp of
                            None \<Rightarrow> None
                          | Some r \<Rightarrow>
                              (case ReleaseLatchFromParent 0 EXCLUSIVE s2 of
                                 None \<Rightarrow> None
                               | Some s3 \<Rightarrow>
                                   Some (\<lparr>root = r, next_addr = fresh\<rparr>,
                                         Clear (fst s3), snd s3)))))))"

text \<open>
  \<^verbatim>\<open>MemoryBTree::Delete\<close>.  When the root is an internal node left with one child,
  \<^verbatim>\<open>GetChild(0)\<close> becomes the root.
\<close>

definition GetChild :: "('k, 'v) node \<Rightarrow> nat \<Rightarrow> ('k, 'v) node option" where
  "GetChild n idx =
     (case n of
        InternalNode sl \<Rightarrow> if idx < length sl then Some (snd (sl ! idx)) else None
      | LeafNode a es rs \<Rightarrow> None)"

definition MemoryBTree_Delete ::
  "nat \<Rightarrow> nat \<Rightarrow> 'k::linorder \<Rightarrow> ('k, 'v) MemoryBTree \<Rightarrow> QueryContext \<times> mutex_call list
     \<Rightarrow> (bool \<times> ('k, 'v) MemoryBTree \<times> QueryContext \<times> mutex_call list) option" where
  "MemoryBTree_Delete L I key t s =
     (case AcquireLatch unnamed EXCLUSIVE s of
        (depth, s1) \<Rightarrow>
          (case Delete L I key (root t) of
             None \<Rightarrow> None
           | Some (ret, underflow, r) \<Rightarrow>
               (case Delete_latches L I key (root t) s1 of
                  None \<Rightarrow> None
                | Some s2 \<Rightarrow>
                    if \<not> ret then Some (ret, t\<lparr>root := r\<rparr>, s2)
                    else
                      (case (if Type r = INTERNAL \<and> Size r = 1
                             then (if \<not> underflow then None else GetChild r 0)
                             else Some r) of
                         None \<Rightarrow> None
                       | Some r' \<Rightarrow>
                           (case (if underflow then ReleaseLatchFromParent 0 EXCLUSIVE s2
                                  else Some s2) of
                              None \<Rightarrow> None
                            | Some s3 \<Rightarrow>
                                Some (True, t\<lparr>root := r'\<rparr>, Clear (fst s3), snd s3))))))"

definition MemoryBTree_Clear :: "('k, 'v) MemoryBTree \<Rightarrow> ('k, 'v) MemoryBTree" where
  "MemoryBTree_Clear t = \<lparr>root = LeafNode (next_addr t) [] None, next_addr = next_addr t + 1\<rparr>"

definition MemoryBTree_String ::
  "('k \<Rightarrow> string) \<Rightarrow> ('v \<Rightarrow> string) \<Rightarrow> ('k, 'v) MemoryBTree \<Rightarrow> string" where
  "MemoryBTree_String sk sv t = String sk sv (root t)"

section \<open>The iterator\<close>

text \<open>
  The iterator holds a pointer to a leaf of the tree.  Reading through the pointer is
  a lookup of the leaf object with that address among the leaves the root owns.
  \<open>key_high\<close> is \<open>None\<close> in the iterators built without an upper bound, which leave
  the field uninitialised.
\<close>

fun leaves :: "('k, 'v) node \<Rightarrow> (nat \<times> ('k \<times> 'v) list \<times> nat option) list" where
  "leaves (LeafNode a es rs) = [(a, es, rs)]"
| "leaves (InternalNode sl) = concat (map (\<lambda>(k, c). leaves c) sl)"

definition leaf_at :: "('k, 'v) node \<Rightarrow> nat \<Rightarrow> (('k \<times> 'v) list \<times> nat option) option" where
  "leaf_at r a = map_of (leaves r) a"

record 'k MemoryIterator =
  offset :: nat
  key_high :: "'k option"
  upper_bound :: bool
  current :: "nat option"

text \<open>
  \<^verbatim>\<open>MemoryIterator::Next\<close>.  The pair \<open>kv\<close> is the caller's \<^verbatim>\<open>key\<close> and
  \<^verbatim>\<open>val\<close> before the call, the result carries them after it.  The call on the
  right sibling is a recursion that a cyclic sibling chain would never leave, so the
  function is partial; \<open>None\<close> is also a dangling pointer and a read of the
  uninitialised bound.
\<close>

partial_function (option) Next ::
  "('k::linorder, 'v) node \<Rightarrow> 'k MemoryIterator \<Rightarrow> 'k \<times> 'v
     \<Rightarrow> (bool \<times> ('k \<times> 'v) \<times> 'k MemoryIterator) option" where
  "Next r it kv =
     (case current it of
        None \<Rightarrow> Some (False, kv, it)
      | Some a \<Rightarrow>
          (case leaf_at r a of
             None \<Rightarrow> None
           | Some (es, rs) \<Rightarrow>
               (case GetEntry (offset it) es of
                  Some e \<Rightarrow>
                    (if \<not> upper_bound it then Some (True, e, it\<lparr>offset := offset it + 1\<rparr>)
                     else
                       (case key_high it of
                          None \<Rightarrow> None
                        | Some h \<Rightarrow> Some (fst e \<le> h, e, it\<lparr>offset := offset it + 1\<rparr>)))
                | None \<Rightarrow> Next r (it\<lparr>offset := 0, current := rs\<rparr>) kv)))"

text \<open>
  \<^verbatim>\<open>MemoryBTree::TreeScan\<close> walks down \<^verbatim>\<open>GetChild(0)\<close> to a leaf;
  \<^verbatim>\<open>MemoryBTree::RangeQuery\<close> starts where \<^verbatim>\<open>LocateKey\<close> puts the lower key.
\<close>

fun TreeScan_leaf :: "('k, 'v) node \<Rightarrow> nat option" where
  "TreeScan_leaf (LeafNode a es rs) = Some a"
| "TreeScan_leaf (InternalNode sl) =
     (if 0 < length sl then TreeScan_leaf (snd (sl ! 0)) else None)"

definition TreeScan :: "('k, 'v) MemoryBTree \<Rightarrow> 'k MemoryIterator option" where
  "TreeScan t =
     map_option (\<lambda>a. \<lparr>offset = 0, key_high = None, upper_bound = False, current = Some a\<rparr>)
       (TreeScan_leaf (root t))"

definition RangeQuery ::
  "'k::linorder \<Rightarrow> 'k \<Rightarrow> ('k, 'v) MemoryBTree \<Rightarrow> 'k MemoryIterator option" where
  "RangeQuery key_lo key_hi t =
     map_option
       (\<lambda>(found, leaf, position).
           \<lparr>offset = position, key_high = Some key_hi, upper_bound = True, current = Some leaf\<rparr>)
       (LocateKey key_lo (root t))"

text \<open>
  What an iterator yields: the pairs that successive calls of \<open>Next\<close> hand out while
  they return \<^verbatim>\<open>true\<close>, as in \<^verbatim>\<open>while (it->Next(key, value))\<close>.
\<close>

partial_function (option) yields ::
  "('k::linorder, 'v) node \<Rightarrow> 'k MemoryIterator \<Rightarrow> 'k \<times> 'v \<Rightarrow> ('k \<times> 'v) list option" where
  "yields r it kv =
     (case Next r it kv of
        None \<Rightarrow> None
      | Some (has_next, kv', it') \<Rightarrow>
          if has_next then Option.bind (yields r it' kv') (\<lambda>rest. Some (kv' # rest))
          else Some [])"


section \<open>Operation sequences and what the claims speak of\<close>

text \<open>
  A workload is a list of inserts and deletes run from the empty tree, one after the
  other, on the one context that the caller hands from call to call, as the tests of
  the repository do; it stops at the first operation that fails an assertion.
  \<open>model\<close> is the key-value map the workload describes.
\<close>

datatype ('k, 'v) operation = Ins 'k 'v | Del 'k

fun run ::
  "nat \<Rightarrow> nat \<Rightarrow> ('k::linorder, 'v) operation list \<Rightarrow> ('k, 'v) MemoryBTree
     \<Rightarrow> QueryContext \<times> mutex_call list
     \<Rightarrow> (('k, 'v) MemoryBTree \<times> QueryContext \<times> mutex_call list) option" where
  "run L I [] t s = Some (t, s)"
| "run L I (Ins k v # ops) t s =
     (case MemoryBTree_Insert L I k v t s of
        None \<Rightarrow> None
      | Some (t', s') \<Rightarrow> run L I ops t' s')"
| "run L I (Del k # ops) t s =
     (case MemoryBTree_Delete L I k t s of
        None \<Rightarrow> None
      | Some (b, t', s') \<Rightarrow> run L I ops t' s')"

fun model :: "('k, 'v) operation list \<Rightarrow> ('k \<Rightarrow> 'v option) \<Rightarrow> ('k \<Rightarrow> 'v option)" where
  "model [] m = m"
| "model (Ins k v # ops) m = model ops (m(k \<mapsto> v))"
| "model (Del k # ops) m = model ops (m(k := None))"

text \<open>The entries a subtree stores, leaf by leaf from left to right, and their keys.\<close>

definition entries_of :: "('k, 'v) node \<Rightarrow> ('k \<times> 'v) list" where
  "entries_of n = concat (map (\<lambda>(a, es, rs). es) (leaves n))"

definition keys_of :: "('k, 'v) node \<Rightarrow> 'k set" where
  "keys_of n = fst ` set (entries_of n)"




text \<open>
  The separators of the internal nodes.  \<open>separators_bound\<close>: every key below child
  \<open>i\<close> is at most separator \<open>i\<close> (the node has a separator for every child but the
  last) and above separator \<open>i - 1\<close>.  \<open>separators_exact\<close> asks in addition that
  separator \<open>i\<close> be the rightmost key stored below child \<open>i\<close>.
\<close>

fun separators_bound :: "('k::linorder, 'v) node \<Rightarrow> bool" where
  "separators_bound (LeafNode a es rs) = True"
| "separators_bound (InternalNode sl) =
     (\<forall>idx \<in> {0..<length sl}.
        (idx + 1 < length sl \<longrightarrow> (\<forall>x \<in> keys_of (snd (sl ! idx)). x \<le> fst (sl ! idx)))
        \<and> (0 < idx \<longrightarrow> (\<forall>x \<in> keys_of (snd (sl ! idx)). fst (sl ! (idx - 1)) < x))
        \<and> separators_bound (snd (sl ! idx)))"

fun separators_exact :: "('k::linorder, 'v) node \<Rightarrow> bool" where
  "separators_exact (LeafNode a es rs) = True"
| "separators_exact (InternalNode sl) =
     (\<forall>idx \<in> {0..<length sl}.
        (idx + 1 < length sl \<longrightarrow>
           entries_of (snd (sl ! idx)) \<noteq> []
           \<and> fst (sl ! idx) = fst (last (entries_of (snd (sl ! idx))))
           \<and> (\<forall>x \<in> keys_of (snd (sl ! idx)). x \<le> fst (sl ! idx)))
        \<and> (0 < idx \<longrightarrow> (\<forall>x \<in> keys_of (snd (sl ! idx)). fst (sl ! (idx - 1)) < x))
        \<and> separators_exact (snd (sl ! idx)))"

section \<open>Invariants\<close>

text \<open>
  \<open>ord lo n hi\<close>: the subtree \<open>n\<close> is a search tree for the keys above \<open>lo\<close> and up
  to \<open>hi\<close> (\<open>None\<close> is no bound).  The key of a slot bounds its child from above, except
  in the last slot of a node, whose child is bounded by the bound of the node and whose
  key is a copy of that bound when there is one.
\<close>

definition above :: "'k::linorder option \<Rightarrow> 'k \<Rightarrow> bool" where
  "above lo k = (case lo of None \<Rightarrow> True | Some l \<Rightarrow> l < k)"

definition below :: "'k::linorder \<Rightarrow> 'k option \<Rightarrow> bool" where
  "below k hi = (case hi of None \<Rightarrow> True | Some h \<Rightarrow> k \<le> h)"

fun ord :: "'k::linorder option \<Rightarrow> ('k, 'v) node \<Rightarrow> 'k option \<Rightarrow> bool"
  and ord_slots :: "'k option \<Rightarrow> ('k \<times> ('k, 'v) node) list \<Rightarrow> 'k option \<Rightarrow> bool" where
  "ord lo (LeafNode a es rs) hi =
     (sorted_wrt (<) (map fst es) \<and> (\<forall>k \<in> set (map fst es). above lo k \<and> below k hi)
      \<and> (case hi of None \<Rightarrow> True | Some h \<Rightarrow> above lo h))"
| "ord lo (InternalNode sl) hi = (sl \<noteq> [] \<and> ord_slots lo sl hi)"
| "ord_slots lo [] hi = True"
| "ord_slots lo ((k, c) # rest) hi =
     (if rest = [] then ord lo c hi \<and> (case hi of None \<Rightarrow> True | Some h \<Rightarrow> k = h)
      else ord lo c (Some k) \<and> ord_slots (Some k) rest hi)"

text \<open>
  \<open>shape L I h n\<close>: all leaves of \<open>n\<close> are \<open>h\<close> levels down, a leaf holds between
  \<open>L div 2\<close> and \<open>L\<close> entries and an internal node between \<open>UNDERFLOW_BOUND I\<close> and
  \<open>I\<close> children.  \<open>shape_top\<close> lets the topmost node have other lower bounds: a root,
  or a node that has just underflowed.
\<close>

fun shape :: "nat \<Rightarrow> nat \<Rightarrow> nat \<Rightarrow> ('k, 'v) node \<Rightarrow> bool" where
  "shape L I h (LeafNode a es rs) = (h = 0 \<and> L div 2 \<le> length es \<and> length es \<le> L)"
| "shape L I h (InternalNode sl) =
     (0 < h \<and> UNDERFLOW_BOUND I \<le> length sl \<and> length sl \<le> I
      \<and> (\<forall>(k, c) \<in> set sl. shape L I (h - 1) c))"

fun shape_top :: "nat \<Rightarrow> nat \<Rightarrow> nat \<Rightarrow> nat \<Rightarrow> nat \<Rightarrow> ('k, 'v) node \<Rightarrow> bool" where
  "shape_top L I ml mi h (LeafNode a es rs) = (h = 0 \<and> ml \<le> length es \<and> length es \<le> L)"
| "shape_top L I ml mi h (InternalNode sl) =
     (0 < h \<and> mi \<le> length sl \<and> length sl \<le> I \<and> (\<forall>(k, c) \<in> set sl. shape L I (h - 1) c))"

fun height :: "('k, 'v) node \<Rightarrow> nat" where
  "height (LeafNode a es rs) = 0"
| "height (InternalNode sl) = (if 0 < length sl then Suc (height (snd (sl ! 0))) else 1)"

text \<open>
  The sibling pointers of the leaves form a chain from left to right: each leaf points
  to the next one and the last one to \<open>nxt\<close>.
\<close>

fun chain :: "(nat \<times> 'e \<times> nat option) list \<Rightarrow> nat option \<Rightarrow> bool" where
  "chain [] nxt = True"
| "chain ((a, es, rs) # ls) nxt =
     (rs = (case ls of [] \<Rightarrow> nxt | (a', x) # y \<Rightarrow> Some a') \<and> chain ls nxt)"

definition tree_inv :: "nat \<Rightarrow> nat \<Rightarrow> ('k::linorder, 'v) MemoryBTree \<Rightarrow> bool" where
  "tree_inv L I t =
     (shape_top L I 0 2 (height (root t)) (root t) \<and> ord None (root t) None
      \<and> chain (leaves (root t)) None \<and> distinct (map fst (leaves (root t)))
      \<and> (\<forall>a \<in> set (map fst (leaves (root t))). a < next_addr t))"

text \<open>
  The key that bounds from below what follows the slots \<open>xs\<close>: the key of the last
  slot, or \<open>lo\<close> when there is none.
\<close>

definition upto_key :: "'k option \<Rightarrow> ('k \<times> 'c) list \<Rightarrow> 'k option" where
  "upto_key lo xs = (if xs = [] then lo else Some (fst (last xs)))"

text \<open>
  Every internal node has a child.
\<close>

fun populated :: "('k, 'v) node \<Rightarrow> bool" where
  "populated (LeafNode a es rs) = True"
| "populated (InternalNode sl) = (1 \<le> length sl \<and> (\<forall>(k, c) \<in> set sl. populated c))"

text \<open>
  The leaves with their sibling pointers only, and what an insert, a rebalancing and
  a delete hand back when they start from a subtree that satisfies the invariants:
  \<open>res_entries\<close> and \<open>res_links\<close> read a result of \<open>Insert\<close> that may be a split,
  and \<open>merge_step\<close> is what the merge of two neighbouring leaves does to the chain.
\<close>

definition links :: "('k, 'v) node \<Rightarrow> (nat \<times> unit \<times> nat option) list" where
  "links n = map (\<lambda>(a, es, rs). (a, (), rs)) (leaves n)"

fun res_entries :: "('k, 'v) insert_result \<Rightarrow> ('k \<times> 'v) list" where
  "res_entries (NoSplit n) = entries_of n"
| "res_entries (DidSplit sp) = entries_of (left sp) @ entries_of (right sp)"

fun res_links :: "('k, 'v) insert_result \<Rightarrow> (nat \<times> unit \<times> nat option) list" where
  "res_links (NoSplit n) = links n"
| "res_links (DidSplit sp) = links (left sp) @ links (right sp)"

fun ins_ok ::
  "nat \<Rightarrow> nat \<Rightarrow> 'k::linorder option \<Rightarrow> 'k option \<Rightarrow> nat \<Rightarrow> nat \<Rightarrow> nat \<Rightarrow> ('k, 'v) insert_result \<Rightarrow> bool" where
  "ins_ok L I lo hi ml mi h (NoSplit n) = (ord lo n hi \<and> shape_top L I ml mi h n)"
| "ins_ok L I lo hi ml mi h (DidSplit sp) =
     (ord lo (left sp) (Some (boundary_key sp)) \<and> ord (Some (boundary_key sp)) (right sp) hi
      \<and> shape L I h (left sp) \<and> shape L I h (right sp))"

definition merge_step :: "(nat \<times> unit \<times> nat option) list \<Rightarrow> (nat \<times> unit \<times> nat option) list \<Rightarrow> bool" where
  "merge_step X Y =
     (\<exists>xs a rs a2 rs2 ys. X = xs @ (a, (), rs) # (a2, (), rs2) # ys \<and> Y = xs @ (a, (), rs2) # ys)"

definition bal_ok ::
  "nat \<Rightarrow> nat \<Rightarrow> 'k::linorder option \<Rightarrow> 'k option \<Rightarrow> nat \<Rightarrow> ('k, 'v) node \<Rightarrow> ('k, 'v) node
     \<Rightarrow> bool \<times> ('k, 'v) node \<times> ('k, 'v) node \<times> 'k \<Rightarrow> bool" where
  "bal_ok L I lo hi h l r res =
     (case res of (merged, l', r', b') \<Rightarrow>
        if merged
        then ord lo l' hi \<and> shape L I h l' \<and> entries_of l' = entries_of l @ entries_of r
             \<and> merge_step\<^sup>*\<^sup>* (links l @ links r) (links l')
        else ord lo l' (Some b') \<and> ord (Some b') r' hi \<and> shape L I h l' \<and> shape L I h r'
             \<and> entries_of l' @ entries_of r' = entries_of l @ entries_of r
             \<and> links l' @ links r' = links l @ links r)"

definition del_ok ::
  "nat \<Rightarrow> nat \<Rightarrow> 'k::linorder option \<Rightarrow> 'k option \<Rightarrow> nat \<Rightarrow> nat \<Rightarrow> nat \<Rightarrow> 'k \<Rightarrow> ('k, 'v) node
     \<Rightarrow> bool \<times> bool \<times> ('k, 'v) node \<Rightarrow> bool" where
  "del_ok L I lo hi ml mi h key n res =
     (case res of (deleted, underflow, n') \<Rightarrow>
        ord lo n' hi \<and> shape_top L I (ml - 1) (mi - 1) h n'
        \<and> (\<not> underflow \<longrightarrow> shape_top L I ml mi h n')
        \<and> (underflow \<longrightarrow> \<not> shape_top L I (UNDERFLOW_BOUND L) (UNDERFLOW_BOUND I) h n')
        \<and> entries_of n' = filter (\<lambda>e. fst e \<noteq> key) (entries_of n)
        \<and> deleted = (key \<in> keys_of n)
        \<and> (\<not> deleted \<longrightarrow> n' = n \<and> \<not> underflow)
        \<and> merge_step\<^sup>*\<^sup>* (links n) (links n'))"

definition links_inv :: "(nat \<times> unit \<times> nat option) list \<Rightarrow> nat \<Rightarrow> bool" where
  "links_inv X fresh = (chain X None \<and> distinct (map fst X) \<and> (\<forall>a \<in> set (map fst X). a < fresh))"

text \<open>
  What holds of a tree for every capacity: \<open>fits L n\<close>, no leaf of \<open>n\<close> holds more
  than \<open>L\<close> entries, together with the ordering and the sibling chain.  \<open>ins_sound\<close>,
  \<open>bal_sound\<close> and \<open>del_sound\<close> say it of what an insert, a rebalancing and a delete
  hand back, and \<open>sound\<close> of the tree.
\<close>

fun fits :: "nat \<Rightarrow> ('k, 'v) node \<Rightarrow> bool" where
  "fits L (LeafNode a es rs) = (length es \<le> L)"
| "fits L (InternalNode sl) = (\<forall>(k, c) \<in> set sl. fits L c)"

fun ins_sound :: "nat \<Rightarrow> 'k::linorder option \<Rightarrow> 'k option \<Rightarrow> ('k, 'v) insert_result \<Rightarrow> bool" where
  "ins_sound L lo hi (NoSplit n) = (ord lo n hi \<and> fits L n)"
| "ins_sound L lo hi (DidSplit sp) =
     (ord lo (left sp) (Some (boundary_key sp)) \<and> ord (Some (boundary_key sp)) (right sp) hi
      \<and> fits L (left sp) \<and> fits L (right sp))"

definition bal_sound ::
  "nat \<Rightarrow> 'k::linorder option \<Rightarrow> 'k option \<Rightarrow> ('k, 'v) node \<Rightarrow> ('k, 'v) node
     \<Rightarrow> bool \<times> ('k, 'v) node \<times> ('k, 'v) node \<times> 'k \<Rightarrow> bool" where
  "bal_sound L lo hi l r res =
     (case res of (merged, l', r', b') \<Rightarrow>
        if merged
        then ord lo l' hi \<and> fits L l' \<and> entries_of l' = entries_of l @ entries_of r
             \<and> merge_step\<^sup>*\<^sup>* (links l @ links r) (links l')
        else ord lo l' (Some b') \<and> ord (Some b') r' hi \<and> fits L l' \<and> fits L r'
             \<and> entries_of l' @ entries_of r' = entries_of l @ entries_of r
             \<and> links l' @ links r' = links l @ links r)"

definition del_sound ::
  "nat \<Rightarrow> 'k::linorder option \<Rightarrow> 'k option \<Rightarrow> 'k \<Rightarrow> ('k, 'v) node
     \<Rightarrow> bool \<times> bool \<times> ('k, 'v) node \<Rightarrow> bool" where
  "del_sound L lo hi key n res =
     (case res of (deleted, underflow, n') \<Rightarrow>
        ord lo n' hi \<and> fits L n'
        \<and> entries_of n' = filter (\<lambda>e. fst e \<noteq> key) (entries_of n)
        \<and> deleted = (key \<in> keys_of n)
        \<and> merge_step\<^sup>*\<^sup>* (links n) (links n'))"

definition sound :: "nat \<Rightarrow> ('k::linorder, 'v) MemoryBTree \<Rightarrow> bool" where
  "sound L t =
     (fits L (root t) \<and> ord None (root t) None \<and> links_inv (links (root t)) (next_addr t))"

text \<open>
  The context between two calls of a node operation: \<open>ctx_ok\<close> says that the index
  of the first latch still held is within the vector.  \<open>latched s p released s'\<close>
  relates the context before and after the latch calls of an operation on a node with
  latch \<open>p\<close>: the latch is pushed at the depth of the node, followed by those of the
  nodes below, and either every latch has been released or none that was held before.
\<close>

definition ctx_ok :: "QueryContext \<times> mutex_call list \<Rightarrow> bool" where
  "ctx_ok s = (smallest_unlk_idx (fst s) \<le> length (latches (fst s)))"

definition latched ::
  "QueryContext \<times> mutex_call list \<Rightarrow> nat \<Rightarrow> bool \<Rightarrow> QueryContext \<times> mutex_call list \<Rightarrow> bool" where
  "latched s p released s' =
     ((\<exists>rest. latches (fst s') = latches (fst s) @ p # rest)
      \<and> smallest_unlk_idx (fst s') =
          (if released then length (latches (fst s')) else smallest_unlk_idx (fst s)))"

section \<open>Properties of the binary search\<close>

lemma lower_bound_range:
  "first \<le> lower_bound xs first len val \<and> lower_bound xs first len val \<le> first + len"
proof (induction xs first len val rule: lower_bound.induct)
  case (1 xs first len val)
  show ?case
  proof (cases "0 < len")
    case False
    then show ?thesis by (simp add: lower_bound.simps)
  next
    case pos: True
    show ?thesis
    proof (cases "xs ! (first + len div 2) < val")
      case True
      with pos 1(1) have "first + len div 2 + 1 \<le> lower_bound xs (first + len div 2 + 1) (len - len div 2 - 1) val
          \<and> lower_bound xs (first + len div 2 + 1) (len - len div 2 - 1) val
              \<le> first + len div 2 + 1 + (len - len div 2 - 1)"
        by blast
      moreover have "lower_bound xs first len val
          = lower_bound xs (first + len div 2 + 1) (len - len div 2 - 1) val"
        using True pos by (subst lower_bound.simps) simp
      ultimately show ?thesis using pos by auto
    next
      case False
      with pos 1(2) have "first \<le> lower_bound xs first (len div 2) val
          \<and> lower_bound xs first (len div 2) val \<le> first + len div 2"
        by blast
      moreover have "lower_bound xs first len val = lower_bound xs first (len div 2) val"
        using False pos by (subst lower_bound.simps) simp
      ultimately show ?thesis by auto
    qed
  qed
qed

lemma lower_bound_all_less:
  "(\<forall>i. first \<le> i \<and> i < first + len \<longrightarrow> xs ! i < val)
     \<Longrightarrow> lower_bound xs first len val = first + len"
proof (induction xs first len val rule: lower_bound.induct)
  case (1 xs first len val)
  show ?case
  proof (cases "0 < len")
    case False
    then show ?thesis by (simp add: lower_bound.simps)
  next
    case pos: True
    then have mid: "xs ! (first + len div 2) < val" using 1(3) by simp
    have "\<forall>i. first + len div 2 + 1 \<le> i \<and> i < first + len div 2 + 1 + (len - len div 2 - 1)
            \<longrightarrow> xs ! i < val"
    proof (intro allI impI)
      fix i assume "first + len div 2 + 1 \<le> i \<and> i < first + len div 2 + 1 + (len - len div 2 - 1)"
      then have "first \<le> i \<and> i < first + len" by linarith
      then show "xs ! i < val" using 1(3) by blast
    qed
    then have "lower_bound xs (first + len div 2 + 1) (len - len div 2 - 1) val
        = first + len div 2 + 1 + (len - len div 2 - 1)"
      using 1(1) [OF pos mid] by blast
    moreover have "lower_bound xs first len val
        = lower_bound xs (first + len div 2 + 1) (len - len div 2 - 1) val"
      using mid pos by (subst lower_bound.simps) simp
    ultimately show ?thesis using pos by simp
  qed
qed

text \<open>
  C10.  For every key and every internal node with at least one child,
  \<^verbatim>\<open>SearchChildIndex\<close> returns an index between \<open>0\<close> and \<open>Size() - 1\<close>, and a key
  above all separators goes to the last child.  So the descent of \<open>Search\<close>,
  \<open>LocateKey\<close>, \<open>Insert\<close>, \<open>Delete\<close> and \<open>Update\<close> always continues in a child the node
  has: the branch of the model for an index past the populated slots is never taken.
\<close>

theorem SearchChildIndex_in_range:
  assumes "1 \<le> length sl"
  shows "SearchChildIndex sl key \<le> length sl - 1
    \<and> ((\<forall>i < length sl - 1. fst (sl ! i) < key) \<longrightarrow> SearchChildIndex sl key = length sl - 1)
    \<and> Search key val0 (InternalNode sl) = Search key val0 (snd (sl ! SearchChildIndex sl key))
    \<and> LocateKey key (InternalNode sl) = LocateKey key (snd (sl ! SearchChildIndex sl key))
    \<and> Insert L I key val (InternalNode sl) fresh =
           (case Insert L I key val (snd (sl ! SearchChildIndex sl key)) fresh of
              None \<Rightarrow> None
            | Some (res, fresh') \<Rightarrow>
                map_option (\<lambda>r. (r, fresh')) (Internal_Insert_absorb I sl (SearchChildIndex sl key) res))
    \<and> Delete L I key (InternalNode sl) =
           (case Delete L I key (snd (sl ! SearchChildIndex sl key)) of
              None \<Rightarrow> None
            | Some (deleted, underflow, target) \<Rightarrow>
                Internal_Delete_rebalance L I sl (SearchChildIndex sl key) deleted underflow target)
    \<and> Update key val (InternalNode sl) =
           (case Update key val (snd (sl ! SearchChildIndex sl key)) of
              None \<Rightarrow> None
            | Some (found, c) \<Rightarrow>
                Some (found, InternalNode (sl[SearchChildIndex sl key :=
                                               (fst (sl ! SearchChildIndex sl key), c)])))"
proof -
  have le: "SearchChildIndex sl key \<le> length sl - 1"
    using lower_bound_range [of 0 "map fst sl" "length sl - 1" key]
    by (simp add: SearchChildIndex_def)
  then have lt: "SearchChildIndex sl key < length sl" using assms by simp
  have "(\<forall>i < length sl - 1. fst (sl ! i) < key) \<longrightarrow> SearchChildIndex sl key = length sl - 1"
    using lower_bound_all_less [of 0 "length sl - 1" "map fst sl" key]
    by (simp add: SearchChildIndex_def)
  with le lt show ?thesis by simp
qed

theorem SearchChildIndex_in_range_witness:
  "(1::nat) \<le> length [(2::int, LeafNode 0 [(1, 1::int)] None), (5, LeafNode 1 [(3, 3)] None),
                       (5, LeafNode 2 [(9, 9)] None)]
   \<and> SearchChildIndex [(2::int, LeafNode 0 [(1, 1::int)] None), (5, LeafNode 1 [(3, 3)] None),
                        (5, LeafNode 2 [(9, 9)] None)] 100 = 2"
  using SearchChildIndex_in_range [of "[(2::int, LeafNode 0 [(1, 1::int)] None),
      (5, LeafNode 1 [(3, 3)] None), (5, LeafNode 2 [(9, 9)] None)]" 100]
  by (simp add: nth_Cons')

section \<open>Splitting a full leaf\<close>

lemma SearchKeyIndex_absent:
  "key \<notin> fst ` set es \<Longrightarrow> \<exists>p. SearchKeyIndex es key = (False, p) \<and> p \<le> length es"
proof -
  assume absent: "key \<notin> fst ` set es"
  define p where "p = lower_bound (map fst es) 0 (length es) key"
  have "p < length es \<Longrightarrow> fst (es ! p) \<noteq> key"
    using absent nth_mem [of p es] by force
  then show ?thesis
    using lower_bound_range [of 0 "map fst es" "length es" key]
    by (auto simp: SearchKeyIndex_def Let_def p_def)
qed

lemma drop_take_append_drop: "p \<le> b \<Longrightarrow> drop p (take b xs) @ drop b xs = drop p xs"
proof -
  assume "p \<le> b"
  have "drop p xs = drop p (take b xs @ drop b xs)" by simp
  also have "\<dots> = drop p (take b xs) @ drop (p - length (take b xs)) (drop b xs)"
    by (simp only: drop_append)
  also have "drop (p - length (take b xs)) (drop b xs) = drop b xs"
    using \<open>p \<le> b\<close> by (cases "b \<le> length xs") (auto simp: min_def)
  finally show ?thesis by simp
qed

lemma Leaf_Insert_full:
  assumes "length es = L" and "2 \<le> L" and "key \<notin> fst ` set es"
  shows "\<exists>les res p.
           Insert L I key val (LeafNode a es rs) fresh =
             Some (DidSplit (Split (LeafNode a les (Some fresh)) (LeafNode fresh res rs)
                              (fst (last les))),
                   fresh + 1)
           \<and> les \<noteq> [] \<and> les @ res = take p es @ (key, val) # drop p es"
proof -
  obtain p where p: "SearchKeyIndex es key = (False, p)" "p \<le> length es"
    using SearchKeyIndex_absent [OF assms(3)] by blast
  define B where "B = UNDERFLOW_BOUND L"
  have B: "0 < B" "B < L" "B \<le> length es"
    using assms(1,2) by (auto simp: B_def UNDERFLOW_BOUND_def)
  show ?thesis
  proof (cases "p < B")
    case True
    let ?les = "take p (take B es) @ (key, val) # drop p (take B es)"
    have "Insert L I key val (LeafNode a es rs) fresh =
       Some (DidSplit (Split (LeafNode a ?les (Some fresh)) (LeafNode fresh (drop B es) rs)
                        (fst (last ?les))), fresh + 1)"
      using True p B assms(1)
      by (simp add: Leaf_Insert_def Leaf_ShiftAndInsert_def B_def [symmetric] RIGHTMOST_KEY_def
            GetKey_def Let_def min_def last_conv_nth nth_append)
    moreover have "?les @ drop B es = take p es @ (key, val) # drop p es"
      using True drop_take_append_drop [of p B es] by (simp add: min_def)
    ultimately show ?thesis by blast
  next
    case False
    let ?res = "take (p - B) (drop B es) @ (key, val) # drop (p - B) (drop B es)"
    have "Insert L I key val (LeafNode a es rs) fresh =
       Some (DidSplit (Split (LeafNode a (take B es) (Some fresh)) (LeafNode fresh ?res rs)
                        (fst (last (take B es)))), fresh + 1)"
      using False p B assms(1)
      by (auto simp add: Leaf_Insert_def Leaf_ShiftAndInsert_def B_def [symmetric] RIGHTMOST_KEY_def
            GetKey_def Let_def min_def last_conv_nth nth_append)
    moreover have "take B es @ ?res = take p es @ (key, val) # drop p es"
    proof -
      have "take B es @ take (p - B) (drop B es) = take p es"
        using False by (metis add_diff_inverse_nat take_add)
      then show ?thesis using False by (simp add: add.commute)
    qed
    moreover have "take B es \<noteq> []" using B assms by auto
    ultimately show ?thesis by blast
  qed
qed

text \<open>
  Inserting a new key into a full leaf of capacity \<open>L \<ge> 2\<close> returns one split: the
  leaf keeps its address and becomes the left node, one new leaf is allocated as its
  right sibling, the two together hold the old entries and the new one in place, and
  the boundary is the rightmost key of the left node.  The scenario of the tests with
  capacity 4 is evaluated along the way: the keys 3, 4, 6, 5 go into the leaf without a
  split, and key 1 then splits it with boundary key 4 into
  \<^verbatim>\<open>[LEAF: (1,1) (3,3) (4,4)]\<close> and \<^verbatim>\<open>[LEAF: (5,5) (6,6)]\<close>.
\<close>

theorem Leaf_Insert_full_splits_once:
  assumes "length es = L" and "2 \<le> L" and "key \<notin> fst ` set es"
  shows "(\<exists>les res p.
           Insert L I key val (LeafNode a es rs) fresh =
             Some (DidSplit (Split (LeafNode a les (Some fresh)) (LeafNode fresh res rs)
                              (fst (last les))),
                   fresh + 1)
           \<and> les \<noteq> [] \<and> les @ res = take p es @ (key, val) # drop p es)
    \<and> Insert 4 4 3 3 (LeafNode 0 [] None) 1 = Some (NoSplit (LeafNode 0 [(3::int, 3::int)] None), 1)
    \<and> Insert 4 4 4 4 (LeafNode 0 [(3::int, 3::int)] None) 1
        = Some (NoSplit (LeafNode 0 [(3, 3), (4, 4)] None), 1)
    \<and> Insert 4 4 6 6 (LeafNode 0 [(3::int, 3::int), (4, 4)] None) 1
        = Some (NoSplit (LeafNode 0 [(3, 3), (4, 4), (6, 6)] None), 1)
    \<and> Insert 4 4 5 5 (LeafNode 0 [(3::int, 3::int), (4, 4), (6, 6)] None) 1
        = Some (NoSplit (LeafNode 0 [(3, 3), (4, 4), (5, 5), (6, 6)] None), 1)
    \<and> Insert 4 4 1 1 (LeafNode 0 [(3::int, 3::int), (4, 4), (5, 5), (6, 6)] None) 1
        = Some (DidSplit (Split (LeafNode 0 [(1, 1), (3, 3), (4, 4)] (Some 1))
                            (LeafNode 1 [(5, 5), (6, 6)] None) 4), 2)
    \<and> String show_int show_int (LeafNode 0 [(1, 1), (3, 3), (4, 4)] (Some 1))
        = ''[LEAF: (1,1) (3,3) (4,4)]''
    \<and> String show_int show_int (LeafNode 1 [(5, 5), (6, 6)] None) = ''[LEAF: (5,5) (6,6)]''"
proof -
  have "Insert 4 4 3 3 (LeafNode 0 [] None) 1 = Some (NoSplit (LeafNode 0 [(3::int, 3::int)] None), 1)"
    by code_simp
  moreover have "Insert 4 4 4 4 (LeafNode 0 [(3::int, 3::int)] None) 1
        = Some (NoSplit (LeafNode 0 [(3, 3), (4, 4)] None), 1)"
    by code_simp
  moreover have "Insert 4 4 6 6 (LeafNode 0 [(3::int, 3::int), (4, 4)] None) 1
        = Some (NoSplit (LeafNode 0 [(3, 3), (4, 4), (6, 6)] None), 1)"
    by code_simp
  moreover have "Insert 4 4 5 5 (LeafNode 0 [(3::int, 3::int), (4, 4), (6, 6)] None) 1
        = Some (NoSplit (LeafNode 0 [(3, 3), (4, 4), (5, 5), (6, 6)] None), 1)"
    by code_simp
  moreover have "Insert 4 4 1 1 (LeafNode 0 [(3::int, 3::int), (4, 4), (5, 5), (6, 6)] None) 1
        = Some (DidSplit (Split (LeafNode 0 [(1, 1), (3, 3), (4, 4)] (Some 1))
                            (LeafNode 1 [(5, 5), (6, 6)] None) 4), 2)"
    by code_simp
  moreover have "String show_int show_int (LeafNode 0 [(1, 1), (3, 3), (4, 4)] (Some 1))
        = ''[LEAF: (1,1) (3,3) (4,4)]''"
    by code_simp
  moreover have "String show_int show_int (LeafNode 1 [(5, 5), (6, 6)] None) = ''[LEAF: (5,5) (6,6)]''"
    by code_simp
  ultimately show ?thesis using Leaf_Insert_full [OF assms] by blast
qed

theorem Leaf_Insert_full_splits_once_witness:
  "length [(3::int, 3::int), (4, 4), (5, 5), (6, 6)] = 4 \<and> (2::nat) \<le> 4
   \<and> (1::int) \<notin> fst ` set [(3::int, 3::int), (4, 4), (5, 5), (6, 6)]
   \<and> (\<exists>les res p.
         Insert 4 4 1 1 (LeafNode 0 [(3::int, 3::int), (4, 4), (5, 5), (6, 6)] None) 1 =
           Some (DidSplit (Split (LeafNode 0 les (Some 1)) (LeafNode 1 res None) (fst (last les))),
                 1 + 1)
         \<and> les \<noteq> [] \<and> les @ res = take p [(3, 3), (4, 4), (5, 5), (6, 6)] @ (1, 1)
                                         # drop p [(3, 3), (4, 4), (5, 5), (6, 6)])"
proof -
  have h: "length [(3::int, 3::int), (4, 4), (5, 5), (6, 6)] = 4" "(2::nat) \<le> 4"
      "(1::int) \<notin> fst ` set [(3::int, 3::int), (4, 4), (5, 5), (6, 6)]"
    by simp_all
  from Leaf_Insert_full_splits_once [OF h, of 4 1 0 None 1] h show ?thesis by blast
qed

text \<open>
  C5.  Inserting the \<open>(L + 1)\<close>-th key into a full leaf produces exactly one split
  whose boundary is the rightmost key of the left node.  With capacity 1 it does not:
  the split point \<^verbatim>\<open>UNDERFLOW_BOUND(Size())\<close> is 1, so the leaf keeps its one entry and
  the sibling starts empty; a key above the entry goes into the sibling and the split
  is returned, but a key below it goes into the leaf itself, where
  \<^verbatim>\<open>ShiftAndInsert\<close> writes slot 1 of the one-slot arrays and
  \<^verbatim>\<open>RIGHTMOST_KEY\<close> fails the assertion \<^verbatim>\<open>offset < Capacity\<close> of
  \<^verbatim>\<open>GetKey\<close>.
\<close>

theorem Leaf_Insert_capacity_one:
  "Insert 1 4 5 5 (LeafNode 0 [] None) 1 = Some (NoSplit (LeafNode 0 [(5::int, 5::int)] None), 1)
   \<and> Insert 1 4 7 7 (LeafNode 0 [(5::int, 5::int)] None) 1
       = Some (DidSplit (Split (LeafNode 0 [(5, 5)] (Some 1)) (LeafNode 1 [(7, 7)] None) 5), 2)
   \<and> Insert 1 4 3 3 (LeafNode 0 [(5::int, 5::int)] None) 1 = None"
  by code_simp


section \<open>The end of a range scan\<close>

text \<open>
  C9.  When \<open>Next\<close> reads an entry whose key is above the inclusive upper bound of the
  iterator of a \<^verbatim>\<open>RangeQuery\<close>, it returns \<^verbatim>\<open>false\<close>, and the caller's key and value
  are that entry, beyond the bound, and the offset of the iterator has moved past it.
\<close>

theorem Next_beyond_upper_bound:
  assumes "current it = Some a" and "leaf_at r a = Some (es, rs)" and "offset it < length es"
    and "upper_bound it" and "key_high it = Some h" and "h < fst (es ! offset it)"
  shows "Next r it kv = Some (False, es ! offset it, it\<lparr>offset := offset it + 1\<rparr>)"
  using assms by (subst Next.simps) (simp add: GetEntry_def)

theorem Next_beyond_upper_bound_witness:
  "RangeQuery 1 1 \<lparr>root = InternalNode [(2, LeafNode 0 [(1, 1), (2, 2)] (Some 1)),
                       (5, LeafNode 1 [(3, 3), (4, 4), (5, 5), (6, 6)] None)], next_addr = 2\<rparr>
     = Some \<lparr>offset = 0, key_high = Some (1::int), upper_bound = True, current = Some 0\<rparr>
   \<and> Next (InternalNode [(2, LeafNode 0 [(1, 1), (2, 2)] (Some 1)),
                       (5, LeafNode 1 [(3, 3), (4, 4), (5, 5), (6, 6)] None)])
        \<lparr>offset = 1, key_high = Some (1::int), upper_bound = True, current = Some 0\<rparr> (1, 1::int)
     = Some (False, (2, 2), \<lparr>offset = 2, key_high = Some 1, upper_bound = True, current = Some 0\<rparr>)"
proof -
  have "RangeQuery 1 1 \<lparr>root = InternalNode [(2, LeafNode 0 [(1, 1), (2, 2)] (Some 1)),
                       (5, LeafNode 1 [(3, 3), (4, 4), (5, 5), (6, 6)] None)], next_addr = 2\<rparr>
     = Some \<lparr>offset = 0, key_high = Some (1::int), upper_bound = True, current = Some 0\<rparr>"
    by code_simp
  then show ?thesis
    using Next_beyond_upper_bound [of
      "\<lparr>offset = 1, key_high = Some (1::int), upper_bound = True, current = Some 0\<rparr>"
      0 "InternalNode [(2, LeafNode 0 [(1, 1), (2, 2)] (Some 1)),
                       (5, LeafNode 1 [(3, 3), (4, 4), (5, 5), (6, 6)] None)]"
      "[(1, 1), (2, 2::int)]" "Some 1" 1 "(1, 1)"]
    by (simp add: leaf_at_def)
qed

section \<open>Latch modes\<close>

text \<open>
  C8.  The claim asks that every latch be released in the mode in which it was taken, and
  that \<^verbatim>\<open>Update\<close> release the exclusive latch of its leaf in exclusive mode.
  \<^verbatim>\<open>LeafNode::Update\<close> does not: from an empty context it locks the latch of the leaf
  exclusively and then calls \<^verbatim>\<open>unlock_shared\<close> on it, where \<^verbatim>\<open>LeafNode::Search\<close>
  locks shared and unlocks shared.
\<close>

theorem Leaf_Update_releases_shared:
  "Leaf_Update_latches a (QueryContext_new, []) =
     Some (\<lparr>smallest_unlk_idx = 1, latches = [a]\<rparr>, [lock a, unlock_shared a])
   \<and> \<not> modes_match Map.empty [lock a, unlock_shared a]
   \<and> Leaf_Search_latches a (QueryContext_new, []) =
     Some (\<lparr>smallest_unlk_idx = 1, latches = [a]\<rparr>, [lock_shared a, unlock_shared a])
   \<and> modes_match Map.empty [lock_shared a, unlock_shared a]"
  by (simp add: Leaf_Update_latches_def Leaf_Search_latches_def AcquireLatch_def ReleaseLatch_def
        QueryContext_new_def lock_as_def unlock_as_def)

section \<open>Ordering and shape of the nodes\<close>

subsection \<open>Binary search on a sorted range\<close>

lemma lower_bound_sorted:
  assumes "\<forall>i j. first \<le> i \<and> i \<le> j \<and> j < first + len \<longrightarrow> xs ! i \<le> xs ! j"
  shows "(\<forall>j. first \<le> j \<and> j < lower_bound xs first len val \<longrightarrow> xs ! j < val)
       \<and> (\<forall>j. lower_bound xs first len val \<le> j \<and> j < first + len \<longrightarrow> val \<le> xs ! j)"
  using assms
proof (induction xs first len val rule: lower_bound.induct)
  case (1 xs first len val)
  show ?case
  proof (cases "0 < len")
    case False
    then show ?thesis by (auto simp add: lower_bound.simps)
  next
    case pos: True
    define mid where "mid = first + len div 2"
    have mid: "first \<le> mid" "mid < first + len" using pos by (auto simp: mid_def)
    show ?thesis
    proof (cases "xs ! mid < val")
      case True
      have eq: "lower_bound xs first len val = lower_bound xs (mid + 1) (len - len div 2 - 1) val"
        using True pos by (subst lower_bound.simps) (simp add: mid_def)
      have sorted': "\<forall>i j. mid + 1 \<le> i \<and> i \<le> j \<and> j < mid + 1 + (len - len div 2 - 1) \<longrightarrow> xs ! i \<le> xs ! j"
        using 1(3) mid by (auto simp: mid_def)
      have IH: "(\<forall>j. mid + 1 \<le> j \<and> j < lower_bound xs (mid + 1) (len - len div 2 - 1) val \<longrightarrow> xs ! j < val)
       \<and> (\<forall>j. lower_bound xs (mid + 1) (len - len div 2 - 1) val \<le> j \<and> j < mid + 1 + (len - len div 2 - 1) \<longrightarrow> val \<le> xs ! j)"
        using 1(1) [OF pos] True sorted' unfolding mid_def by blast
      have end_eq: "mid + 1 + (len - len div 2 - 1) = first + len"
        using pos by (simp add: mid_def)
      have low: "xs ! j < val" if "first \<le> j" "j \<le> mid" for j
      proof -
        have "xs ! j \<le> xs ! mid" using 1(3) that mid by blast
        then show ?thesis using True by simp
      qed
      show ?thesis
        unfolding eq using IH low end_eq
        by (metis Suc_eq_plus1 not_less_eq_eq)
    next
      case False
      have eq: "lower_bound xs first len val = lower_bound xs first (len div 2) val"
        using False pos by (subst lower_bound.simps) (simp add: mid_def)
      have sorted': "\<forall>i j. first \<le> i \<and> i \<le> j \<and> j < first + len div 2 \<longrightarrow> xs ! i \<le> xs ! j"
        using 1(3) mid by (auto simp: mid_def)
      have IH: "(\<forall>j. first \<le> j \<and> j < lower_bound xs first (len div 2) val \<longrightarrow> xs ! j < val)
       \<and> (\<forall>j. lower_bound xs first (len div 2) val \<le> j \<and> j < first + len div 2 \<longrightarrow> val \<le> xs ! j)"
        using 1(2) [OF pos] False sorted' unfolding mid_def by blast
      have high: "val \<le> xs ! j" if "mid \<le> j" "j < first + len" for j
      proof -
        have "xs ! mid \<le> xs ! j" using 1(3) that mid by blast
        then show ?thesis using False by simp
      qed
      show ?thesis
        unfolding eq using IH high
        by (metis mid_def not_le_imp_less)
    qed
  qed
qed

lemma lower_bound_sorted_list:
  assumes "sorted_wrt (<) xs"
  shows "lower_bound xs 0 (length xs) val \<le> length xs
       \<and> (\<forall>j < lower_bound xs 0 (length xs) val. xs ! j < val)
       \<and> (\<forall>j. lower_bound xs 0 (length xs) val \<le> j \<and> j < length xs \<longrightarrow> val \<le> xs ! j)"
proof -
  have "\<forall>i j. 0 \<le> i \<and> i \<le> j \<and> j < 0 + length xs \<longrightarrow> xs ! i \<le> xs ! j"
  proof (intro allI impI)
    fix i j assume h: "0 \<le> i \<and> i \<le> j \<and> j < 0 + length xs"
    show "xs ! i \<le> xs ! j"
    proof (cases "i = j")
      case True then show ?thesis by simp
    next
      case False
      then have "xs ! i < xs ! j" using assms h sorted_wrt_nth_less [of "(<)" xs i j] by simp
      then show ?thesis by simp
    qed
  qed
  from lower_bound_sorted [OF this, of val] lower_bound_range [of 0 xs "length xs" val]
  show ?thesis by simp
qed

subsection \<open>Leaves, entries and keys of a node\<close>

lemma leaves_Internal: "leaves (InternalNode sl) = concat (map (\<lambda>s. leaves (snd s)) sl)"
  by (simp add: case_prod_unfold)

lemma entries_of_Leaf [simp]: "entries_of (LeafNode a es rs) = es"
  by (simp add: entries_of_def)

lemma entries_of_Internal: "entries_of (InternalNode sl) = concat (map (\<lambda>s. entries_of (snd s)) sl)"
  by (induction sl) (simp_all add: entries_of_def case_prod_beta)

lemma entries_of_Nil [simp]: "entries_of (InternalNode []) = []"
  by (simp add: entries_of_Internal)

lemma entries_of_Cons [simp]:
  "entries_of (InternalNode ((k, c) # sl)) = entries_of c @ entries_of (InternalNode sl)"
  by (simp add: entries_of_Internal)

lemma entries_of_append [simp]:
  "entries_of (InternalNode (xs @ ys)) = entries_of (InternalNode xs) @ entries_of (InternalNode ys)"
  by (simp add: entries_of_Internal)

lemma keys_of_Leaf [simp]: "keys_of (LeafNode a es rs) = fst ` set es"
  by (simp add: keys_of_def)

lemma keys_of_Nil [simp]: "keys_of (InternalNode []) = {}"
  by (simp add: keys_of_def)

lemma keys_of_Cons [simp]:
  "keys_of (InternalNode ((k, c) # sl)) = keys_of c \<union> keys_of (InternalNode sl)"
  by (simp add: keys_of_def image_Un)

lemma keys_of_append [simp]:
  "keys_of (InternalNode (xs @ ys)) = keys_of (InternalNode xs) \<union> keys_of (InternalNode ys)"
  by (simp add: keys_of_def image_Un)

lemma keys_of_child: "(k, c) \<in> set sl \<Longrightarrow> keys_of c \<subseteq> keys_of (InternalNode sl)"
  by (induction sl) auto

lemma keys_of_nth: "i < length sl \<Longrightarrow> keys_of (snd (sl ! i)) \<subseteq> keys_of (InternalNode sl)"
  using keys_of_child [of "fst (sl ! i)" "snd (sl ! i)" sl] by simp

subsection \<open>The ordering invariant\<close>

lemma above_None [simp]: "above None k"
  by (simp add: above_def)

lemma above_Some [simp]: "above (Some l) k = (l < k)"
  by (simp add: above_def)

lemma below_None [simp]: "below k None"
  by (simp add: below_def)

lemma below_Some [simp]: "below k (Some h) = (k \<le> h)"
  by (simp add: below_def)

lemma above_trans: "above lo k \<Longrightarrow> k \<le> k' \<Longrightarrow> above lo k'"
  by (cases lo) auto

lemma ord_slots_Cons:
  "ord_slots lo ((k, c) # rest) hi =
     (ord lo c (if rest = [] then hi else Some k)
      \<and> (rest = [] \<longrightarrow> (case hi of None \<Rightarrow> True | Some h \<Rightarrow> k = h))
      \<and> (rest \<noteq> [] \<longrightarrow> ord_slots (Some k) rest hi))"
  by auto

lemma ord_bounds:
  fixes n :: "('k::linorder, 'v) node" and sl :: "('k \<times> ('k, 'v) node) list"
  shows "ord lo n hi \<Longrightarrow> hi = Some h \<Longrightarrow> above lo h"
    and "ord_slots lo' sl hi' \<Longrightarrow> sl \<noteq> [] \<Longrightarrow> hi' = Some h' \<Longrightarrow> above lo' h'"
proof (induction lo n hi and lo' sl hi' arbitrary: h and h' rule: ord_ord_slots.induct)
  case (1 lo a es rs hi)
  then show ?case by auto
next
  case (2 lo sl hi)
  then show ?case by auto
next
  case (3 lo hi)
  then show ?case by simp
next
  case (4 lo k c rest hi)
  show ?case
  proof (cases "rest = []")
    case True
    then show ?thesis using 4(1) [OF True _ 4(6)] 4(4) by (auto simp del: ord.simps)
  next
    case False
    have "above lo k" using 4(2) [OF False, of k] 4(4) False by (auto simp del: ord.simps)
    moreover have "k < h'" using 4(3) [OF False _ False 4(6)] 4(4) False by (auto simp del: ord.simps)
    ultimately show ?thesis using above_trans [of lo k h'] by simp
  qed
qed

lemma ord_above_hi: "ord lo n (Some h) \<Longrightarrow> above lo h"
  using ord_bounds(1) by blast

lemma ord_slots_above_hi: "ord_slots lo sl (Some h) \<Longrightarrow> sl \<noteq> [] \<Longrightarrow> above lo h"
  using ord_bounds(2) by blast

lemma ord_weaken_lo:
  fixes n :: "('k::linorder, 'v) node" and sl :: "('k \<times> ('k, 'v) node) list"
  shows "ord lo n hi \<Longrightarrow> (\<forall>x. above lo x \<longrightarrow> above l x) \<Longrightarrow> ord l n hi"
    and "ord_slots lo' sl hi' \<Longrightarrow> (\<forall>x. above lo' x \<longrightarrow> above l' x) \<Longrightarrow> ord_slots l' sl hi'"
proof (induction lo n hi and lo' sl hi' arbitrary: l and l' rule: ord_ord_slots.induct)
  case (1 lo a es rs hi)
  then show ?case by (auto split: option.splits)
next
  case (2 lo sl hi)
  then show ?case by auto
next
  case (3 lo hi)
  then show ?case by simp
next
  case (4 lo k c rest hi)
  then show ?case by (cases "rest = []") (auto simp del: ord.simps)
qed

lemma ord_lower: "ord (Some l) n hi \<Longrightarrow> l' \<le> l \<Longrightarrow> ord (Some l') n hi"
  using ord_weaken_lo(1) [of "Some l" n hi "Some l'"] by (auto intro: le_less_trans)

lemma ord_slots_lower: "ord_slots (Some l) sl hi \<Longrightarrow> l' \<le> l \<Longrightarrow> ord_slots (Some l') sl hi"
  using ord_weaken_lo(2) [of "Some l" sl hi "Some l'"] by (auto intro: le_less_trans)

lemma ord_keys:
  fixes n :: "('k::linorder, 'v) node" and sl :: "('k \<times> ('k, 'v) node) list"
  shows "ord lo n hi \<Longrightarrow> x \<in> keys_of n \<Longrightarrow> above lo x \<and> below x hi"
    and "ord_slots lo' sl hi' \<Longrightarrow> x' \<in> keys_of (InternalNode sl) \<Longrightarrow> above lo' x' \<and> below x' hi'"
proof (induction lo n hi and lo' sl hi' arbitrary: x and x' rule: ord_ord_slots.induct)
  case (1 lo a es rs hi)
  then show ?case by auto
next
  case (2 lo sl hi)
  then show ?case by auto
next
  case (3 lo hi)
  then show ?case by simp
next
  case (4 lo k c rest hi)
  show ?case
  proof (cases "rest = []")
    case True
    then show ?thesis using 4(1) [OF True, of x'] 4(4,5) by (auto simp del: ord.simps)
  next
    case False
    from 4(4) False have oc: "ord lo c (Some k)" and orest: "ord_slots (Some k) rest hi"
      by (auto simp del: ord.simps)
    have lok: "above lo k" using ord_above_hi [OF oc] .
    have khi: "below k hi"
    proof (cases hi)
      case None
      then show ?thesis by simp
    next
      case (Some a)
      then have "k < a" using ord_slots_above_hi [of "Some k" rest a] orest False by simp
      then show ?thesis using Some by simp
    qed
    from 4(5) consider "x' \<in> keys_of c" | "x' \<in> keys_of (InternalNode rest)" by auto
    then show ?thesis
    proof cases
      case 1
      then have "above lo x'" "x' \<le> k" using 4(2) [OF False oc] by auto
      then show ?thesis using khi by (cases hi) auto
    next
      case 2
      then have "k < x'" "below x' hi" using 4(3) [OF False orest] by auto
      then show ?thesis using lok above_trans [of lo k x'] by simp
    qed
  qed
qed

lemma upto_key_simps [simp]:
  "upto_key lo [] = lo" "upto_key lo (xs @ [(k, c)]) = Some k"
  "upto_key lo (x # xs) = upto_key (Some (fst x)) xs"
  by (auto simp: upto_key_def)

lemma ord_slots_append:
  "ys \<noteq> [] \<Longrightarrow> ord_slots lo (xs @ ys) hi
     = (ord_slots lo xs (upto_key None xs) \<and> ord_slots (upto_key lo xs) ys hi)"
proof (induction xs arbitrary: lo)
  case Nil
  then show ?case by simp
next
  case (Cons x xs)
  obtain k c where x: "x = (k, c)" by (cases x)
  show ?case
  proof (cases "xs = []")
    case True
    then show ?thesis using Cons.prems x by (simp del: ord.simps)
  next
    case False
    then have "upto_key None (x # xs) = upto_key None xs" by (simp add: upto_key_def)
    then show ?thesis using Cons.IH [OF Cons.prems, of "Some k"] False x Cons.prems
      by (auto simp del: ord.simps)
  qed
qed

subsection \<open>Slots around an index\<close>

lemma slots_split_at: "i < length sl \<Longrightarrow> sl = take i sl @ (fst (sl ! i), snd (sl ! i)) # drop (Suc i) sl"
  by (simp add: id_take_nth_drop)

lemma ord_slots_around:
  "ord_slots lo (ls @ (k, c) # rs) hi =
     (ord_slots lo ls (upto_key None ls)
      \<and> ord (upto_key lo ls) c (if rs = [] then hi else Some k)
      \<and> (rs = [] \<longrightarrow> (case hi of None \<Rightarrow> True | Some h \<Rightarrow> k = h))
      \<and> (rs \<noteq> [] \<longrightarrow> ord_slots (Some k) rs hi))"
  by (subst ord_slots_append) (auto simp del: ord.simps)

lemma ord_slots_butlast_above:
  "ord_slots lo sl hi \<Longrightarrow> k' \<in> fst ` set (butlast sl) \<Longrightarrow> above lo k'"
proof (induction sl arbitrary: lo)
  case Nil
  then show ?case by simp
next
  case (Cons x sl)
  obtain k c where x: "x = (k, c)" by (cases x)
  show ?case
  proof (cases "sl = []")
    case True
    then show ?thesis using Cons.prems by simp
  next
    case False
    then have oc: "ord lo c (Some k)" and orest: "ord_slots (Some k) sl hi"
      using Cons.prems(1) x by (auto simp del: ord.simps)
    have lok: "above lo k" using ord_above_hi [OF oc] .
    from Cons.prems(2) False x consider "k' = k" | "k' \<in> fst ` set (butlast sl)" by auto
    then show ?thesis
    proof cases
      case 1
      then show ?thesis using lok by simp
    next
      case 2
      then have "k < k'" using Cons.IH [OF orest] by simp
      then show ?thesis using above_trans [OF lok, of k'] by simp
    qed
  qed
qed

lemma ord_slots_sorted: "ord_slots lo sl hi \<Longrightarrow> sorted_wrt (<) (map fst (butlast sl))"
proof (induction sl arbitrary: lo)
  case Nil
  then show ?case by simp
next
  case (Cons x sl)
  obtain k c where x: "x = (k, c)" by (cases x)
  show ?case
  proof (cases "sl = []")
    case True
    then show ?thesis by simp
  next
    case False
    then have orest: "ord_slots (Some k) sl hi"
      using Cons.prems(1) x by (auto simp del: ord.simps)
    have "\<forall>k' \<in> fst ` set (butlast sl). k < k'"
      using ord_slots_butlast_above [OF orest] by auto
    then show ?thesis using Cons.IH [OF orest] False x by auto
  qed
qed

lemma SearchChildIndex_route:
  assumes "ord_slots lo sl hi" and "sl \<noteq> []" and "above lo key" and "below key hi"
  shows "SearchChildIndex sl key < length sl
       \<and> above (upto_key lo (take (SearchChildIndex sl key) sl)) key
       \<and> below key (if Suc (SearchChildIndex sl key) < length sl
                      then Some (fst (sl ! SearchChildIndex sl key)) else hi)"
proof -
  define xs where "xs = map fst sl"
  define n where "n = length sl - 1"
  define r where "r = SearchChildIndex sl key"
  have r_def': "r = lower_bound xs 0 n key" by (simp add: r_def SearchChildIndex_def xs_def n_def)
  have sorted: "sorted_wrt (<) (map fst (butlast sl))" using ord_slots_sorted [OF assms(1)] .
  have nth: "xs ! i = map fst (butlast sl) ! i" if "i < n" for i
    using that by (simp add: xs_def n_def nth_butlast)
  have "\<forall>i j. 0 \<le> i \<and> i \<le> j \<and> j < 0 + n \<longrightarrow> xs ! i \<le> xs ! j"
  proof (intro allI impI)
    fix i j assume h: "0 \<le> i \<and> i \<le> j \<and> j < 0 + n"
    show "xs ! i \<le> xs ! j"
    proof (cases "i = j")
      case True then show ?thesis by simp
    next
      case False
      then have "map fst (butlast sl) ! i < map fst (butlast sl) ! j"
        using sorted h sorted_wrt_nth_less [of "(<)" "map fst (butlast sl)" i j] by (simp add: n_def)
      then show ?thesis using nth h by simp
    qed
  qed
  from lower_bound_sorted [OF this, of key] lower_bound_range [of 0 xs n key]
  have r: "r \<le> n" "\<forall>j < r. xs ! j < key" "\<forall>j. r \<le> j \<and> j < n \<longrightarrow> key \<le> xs ! j"
    by (auto simp: r_def')
  have lt: "r < length sl" using r(1) assms(2) by (cases sl) (auto simp: n_def)
  have "above (upto_key lo (take r sl)) key"
  proof (cases "r = 0")
    case True
    then show ?thesis using assms(3) by simp
  next
    case False
    then have "take r sl \<noteq> []" using lt by auto
    moreover have "last (take r sl) = sl ! (r - 1)"
      using False lt by (subst last_conv_nth) (auto simp: min_def)
    then have "fst (last (take r sl)) = xs ! (r - 1)"
      using False lt by (simp add: xs_def)
    ultimately show ?thesis using r(2) False by (simp add: upto_key_def)
  qed
  moreover have "below key (if Suc r < length sl then Some (fst (sl ! r)) else hi)"
    using r(3) assms(4) lt by (auto simp: n_def xs_def)
  ultimately show ?thesis using lt unfolding r_def by blast
qed

lemma ord_slots_child:
  assumes "ord_slots lo sl hi" and "i < length sl"
  shows "ord (upto_key lo (take i sl)) (snd (sl ! i))
           (if Suc i < length sl then Some (fst (sl ! i)) else hi)"
proof -
  have "ord_slots lo (take i sl @ (fst (sl ! i), snd (sl ! i)) # drop (Suc i) sl) hi"
    using assms slots_split_at [OF assms(2)] by simp
  then show ?thesis using assms(2) by (simp only: ord_slots_around) (auto simp del: ord.simps)
qed

lemma ord_slots_replace:
  assumes "ord_slots lo sl hi" and "i < length sl"
    and "ord (upto_key lo (take i sl)) c' (if Suc i < length sl then Some (fst (sl ! i)) else hi)"
  shows "ord_slots lo (take i sl @ (fst (sl ! i), c') # drop (Suc i) sl) hi"
proof -
  have "ord_slots lo (take i sl @ (fst (sl ! i), snd (sl ! i)) # drop (Suc i) sl) hi"
    using assms slots_split_at [OF assms(2)] by simp
  then show ?thesis using assms(2,3) by (simp only: ord_slots_around) (auto simp del: ord.simps)
qed

lemma ord_slots_replace2:
  assumes "ord_slots lo sl hi" and "i < length sl"
    and "ord (upto_key lo (take i sl)) l (Some b)"
    and "ord (Some b) r (if Suc i < length sl then Some (fst (sl ! i)) else hi)"
  shows "ord_slots lo (take i sl @ (b, l) # (fst (sl ! i), r) # drop (Suc i) sl) hi"
proof -
  have "ord_slots lo (take i sl @ (fst (sl ! i), snd (sl ! i)) # drop (Suc i) sl) hi"
    using assms slots_split_at [OF assms(2)] by simp
  then have "ord_slots lo (take i sl @ (b, l) # ((fst (sl ! i), r) # drop (Suc i) sl)) hi"
    using assms(2,3,4) by (simp only: ord_slots_around) (auto simp del: ord.simps)
  then show ?thesis by simp
qed

subsection \<open>Sorted entry lists\<close>

lemma SearchKeyIndex_sorted:
  assumes "sorted_wrt (<) (map fst es)" and "SearchKeyIndex es key = (found, p)"
  shows "p \<le> length es \<and> (\<forall>x \<in> set (take p es). fst x < key)
       \<and> (if found then p < length es \<and> fst (es ! p) = key \<and> (\<forall>y \<in> set (drop (Suc p) es). key < fst y)
           else (\<forall>y \<in> set (drop p es). key < fst y))"
proof -
  have p: "p = lower_bound (map fst es) 0 (length es) key"
    and found: "found = (p < length es \<and> fst (es ! p) = key)"
    using assms(2) by (auto simp: SearchKeyIndex_def Let_def)
  from lower_bound_sorted_list [OF assms(1), of key]
  have r: "p \<le> length es" "\<forall>j < p. fst (es ! j) < key"
      "\<forall>j. p \<le> j \<and> j < length es \<longrightarrow> key \<le> fst (es ! j)"
    by (auto simp: p)
  have less: "fst (es ! i) < fst (es ! j)" if "i < j" "j < length es" for i j
    using sorted_wrt_nth_less [OF assms(1), of i j] that by simp
  have low: "\<forall>x \<in> set (take p es). fst x < key"
    using r(1,2) by (fastforce simp: in_set_conv_nth)
  have high: "key < fst (es ! j)" if "p < j" "j < length es" for j
  proof -
    have "key \<le> fst (es ! p)" using r(3) that by simp
    then show ?thesis using less [of p j] that by simp
  qed
  show ?thesis
  proof (cases found)
    case True
    have "\<forall>y \<in> set (drop (Suc p) es). key < fst y"
    proof
      fix y assume "y \<in> set (drop (Suc p) es)"
      then obtain i where "i < length (drop (Suc p) es)" "drop (Suc p) es ! i = y"
        by (auto simp: in_set_conv_nth)
      then have "y = es ! (Suc p + i)" "Suc p + i < length es" by auto
      then show "key < fst y" using high [of "Suc p + i"] by simp
    qed
    then show ?thesis using True found r(1) low by simp
  next
    case False
    have "key < fst (es ! j)" if "p \<le> j" "j < length es" for j
    proof (cases "j = p")
      case True
      then show ?thesis using r(3) that False found by (simp add: order.strict_iff_order)
    next
      case False
      then show ?thesis using high that by simp
    qed
    then have "\<forall>y \<in> set (drop p es). key < fst y"
    proof -
      assume h: "\<And>j. p \<le> j \<Longrightarrow> j < length es \<Longrightarrow> key < fst (es ! j)"
      show ?thesis
      proof
        fix y assume "y \<in> set (drop p es)"
        then obtain i where "i < length (drop p es)" "drop p es ! i = y"
          by (auto simp: in_set_conv_nth)
        then have "y = es ! (p + i)" "p + i < length es" by auto
        then show "key < fst y" using h [of "p + i"] by simp
      qed
    qed
    then show ?thesis using False r(1) low by simp
  qed
qed

lemma sorted_keys_append:
  "sorted_wrt (<) (map fst (xs @ ys))
     = (sorted_wrt (<) (map fst xs) \<and> sorted_wrt (<) (map fst ys)
        \<and> (\<forall>x \<in> set xs. \<forall>y \<in> set ys. fst x < fst y))"
  by (auto simp: sorted_wrt_append)

lemma map_of_absent: "k \<notin> fst ` set xs \<Longrightarrow> map_of xs k = None"
  by (simp add: map_of_eq_None_iff)

lemma map_of_insert_between:
  assumes "\<forall>x \<in> set xs. fst x \<noteq> key"
  shows "map_of (xs @ (key, val) # ys) = (map_of (xs @ ys))(key \<mapsto> val)"
proof
  fix k
  have "map_of xs key = None" using assms by (auto simp: map_of_eq_None_iff)
  then show "map_of (xs @ (key, val) # ys) k = ((map_of (xs @ ys))(key \<mapsto> val)) k"
    by (auto simp: map_add_def split: option.splits)
qed

lemma map_of_replace_between:
  assumes "\<forall>x \<in> set xs. fst x \<noteq> key"
  shows "map_of (xs @ (key, val) # ys) = (map_of (xs @ (key, old) # ys))(key \<mapsto> val)"
  using map_of_insert_between [OF assms, of val ys] map_of_insert_between [OF assms, of old ys]
  by simp

lemma map_of_delete_between:
  assumes "\<forall>x \<in> set xs. fst x \<noteq> key" and "\<forall>y \<in> set ys. fst y \<noteq> key"
  shows "map_of (xs @ ys) = (map_of (xs @ (key, old) # ys))(key := None)"
proof
  fix k
  have "map_of xs key = None" "map_of ys key = None"
    using assms by (auto simp: map_of_eq_None_iff)
  then show "map_of (xs @ ys) k = ((map_of (xs @ (key, old) # ys))(key := None)) k"
    by (auto simp: map_add_def split: option.splits)
qed

lemma map_of_middle:
  assumes "\<forall>x \<in> set xs. fst x \<noteq> key"
  shows "map_of (xs @ ys @ zs) key = map_of (ys @ zs) key"
proof -
  have "map_of xs key = None" using assms by (auto simp: map_of_eq_None_iff)
  then show ?thesis by (simp add: map_add_def)
qed

subsection \<open>Leaf operations on a sorted leaf\<close>

lemma Leaf_Search_sorted:
  assumes "sorted_wrt (<) (map fst es)"
  shows "Search key val0 (LeafNode a es rs)
           = Some (case map_of es key of None \<Rightarrow> (False, val0) | Some v \<Rightarrow> (True, v))"
proof -
  obtain found p where sk: "SearchKeyIndex es key = (found, p)" by (cases "SearchKeyIndex es key")
  note s = SearchKeyIndex_sorted [OF assms sk]
  show ?thesis
  proof (cases found)
    case True
    then have p: "p < length es" "fst (es ! p) = key" using s by auto
    have es: "es = take p es @ (key, snd (es ! p)) # drop (Suc p) es"
      using id_take_nth_drop [OF p(1)] p(2) by (metis prod.collapse)
    have "map_of (take p es) key = None" using s by (auto simp: map_of_eq_None_iff)
    then have "map_of es key = Some (snd (es ! p))"
      by (subst es) (simp add: map_add_def)
    then show ?thesis using True sk by simp
  next
    case False
    have "key \<notin> fst ` set es"
    proof
      assume "key \<in> fst ` set es"
      moreover have "set es = set (take p es) \<union> set (drop p es)"
        by (metis append_take_drop_id set_append)
      ultimately show False using s False by auto
    qed
    then have "map_of es key = None" by (simp add: map_of_eq_None_iff)
    then show ?thesis using False sk by simp
  qed
qed

subsection \<open>Insert keeps the invariants\<close>

lemma Leaf_Insert_split:
  assumes "SearchKeyIndex es key = (False, p)" and "p \<le> length es" and "length es = L" and "2 \<le> L"
  shows "\<exists>j. (j = UNDERFLOW_BOUND L \<or> j = UNDERFLOW_BOUND L + 1)
     \<and> Leaf_Insert L I key val a es rs fresh =
         Some (DidSplit (Split (LeafNode a (take j (take p es @ (key, val) # drop p es)) (Some fresh))
                               (LeafNode fresh (drop j (take p es @ (key, val) # drop p es)) rs)
                               (fst (last (take j (take p es @ (key, val) # drop p es))))),
               fresh + 1)"
proof -
  define B where "B = UNDERFLOW_BOUND L"
  have B: "0 < B" "B < L" "B \<le> length es"
    using assms(3,4) by (auto simp: B_def UNDERFLOW_BOUND_def)
  let ?es' = "take p es @ (key, val) # drop p es"
  show ?thesis
  proof (cases "p < B")
    case True
    have l: "take p (take B es) @ (key, val) # drop p (take B es) = take (B + 1) ?es'"
      using True B assms(2) by (simp add: min_def drop_take Suc_diff_le)
    have r: "drop B es = drop (B + 1) ?es'"
      using True B assms(2) by (simp add: min_def Suc_diff_le)
    have "Leaf_Insert L I key val a es rs fresh =
       Some (DidSplit (Split (LeafNode a (take p (take B es) @ (key, val) # drop p (take B es)) (Some fresh))
                        (LeafNode fresh (drop B es) rs)
                        (fst (last (take p (take B es) @ (key, val) # drop p (take B es))))), fresh + 1)"
      using True assms B
      by (simp add: Leaf_Insert_def Leaf_ShiftAndInsert_def B_def [symmetric] RIGHTMOST_KEY_def
            GetKey_def Let_def min_def last_conv_nth nth_append)
    then show ?thesis unfolding l r
      by (intro exI [of _ "UNDERFLOW_BOUND L + 1"]) (simp add: B_def)
  next
    case False
    have l: "take B es = take B ?es'"
      using False B assms(2) by (simp add: min_def)
    have r: "take (p - B) (drop B es) @ (key, val) # drop (p - B) (drop B es) = drop B ?es'"
      using False B assms(2) by (simp add: min_def drop_take)
    have "Leaf_Insert L I key val a es rs fresh =
       Some (DidSplit (Split (LeafNode a (take B es) (Some fresh))
                        (LeafNode fresh (take (p - B) (drop B es) @ (key, val) # drop (p - B) (drop B es)) rs)
                        (fst (last (take B es)))), fresh + 1)"
    proof -
      have side: "p - B \<le> length (drop B es)" "length (drop B es) < L" "take B es \<noteq> []"
          "length (take B es) - 1 < L" "length (take (L - B) (drop B es)) = L - B"
          "\<not> length es < L" "length (take B es) = B"
        using False assms(2,3,4) B by auto
      have sib: "take (L - B) (drop B es) = drop B es" using assms(3) by simp
      show ?thesis
        unfolding Leaf_Insert_def assms(1) Leaf_ShiftAndInsert_def Let_def
        using False side sib
        by (simp add: B_def [symmetric] assms(3) RIGHTMOST_KEY_def GetKey_def last_conv_nth)
    qed
    then show ?thesis unfolding l r
      by (intro exI [of _ "UNDERFLOW_BOUND L"]) (simp add: B_def)
  qed
qed

lemma sorted_keys_last_max:
  fixes xs :: "('k::linorder \<times> 'v) list"
  shows "sorted_wrt (<) (map fst xs) \<Longrightarrow> x \<in> set xs \<Longrightarrow> fst x \<le> fst (last xs)"
proof (induction xs rule: rev_induct)
  case Nil
  then show ?case by simp
next
  case (snoc y xs)
  then show ?case by (auto simp: sorted_wrt_append less_imp_le)
qed

text \<open>What a leaf insert leaves behind, given the bounds of the leaf.\<close>

lemma Leaf_Insert_inv:
  assumes o: "ord lo (LeafNode a es rs) hi" and lo: "above lo key" and hi: "below key hi"
    and len: "length es \<le> L" and L: "2 \<le> L"
  shows "(\<exists>es'. Leaf_Insert L I key val a es rs fresh = Some (NoSplit (LeafNode a es' rs), fresh)
            \<and> ord lo (LeafNode a es' rs) hi \<and> map_of es' = (map_of es)(key \<mapsto> val)
            \<and> length es \<le> length es' \<and> length es' \<le> L)
       \<or> (\<exists>les res b. Leaf_Insert L I key val a es rs fresh =
              Some (DidSplit (Split (LeafNode a les (Some fresh)) (LeafNode fresh res rs) b), fresh + 1)
            \<and> ord lo (LeafNode a les (Some fresh)) (Some b) \<and> ord (Some b) (LeafNode fresh res rs) hi
            \<and> map_of (les @ res) = (map_of es)(key \<mapsto> val)
            \<and> L div 2 \<le> length les \<and> length les \<le> L \<and> L div 2 \<le> length res \<and> length res \<le> L)"
proof -
  have sorted: "sorted_wrt (<) (map fst es)" using o by simp
  have bounds: "\<forall>x \<in> set es. above lo (fst x) \<and> below (fst x) hi" using o by simp
  have lohi: "case hi of None \<Rightarrow> True | Some h \<Rightarrow> above lo h" using o by simp
  obtain found p where sk: "SearchKeyIndex es key = (found, p)" by (cases "SearchKeyIndex es key")
  note s = SearchKeyIndex_sorted [OF sorted sk]
  have es_split: "es = take p es @ drop p es" by simp
  show ?thesis
  proof (cases found)
    case True
    then have p: "p < length es" "fst (es ! p) = key" using s by auto
    have es: "es = take p es @ (key, snd (es ! p)) # drop (Suc p) es"
      using id_take_nth_drop [OF p(1)] p(2) by (metis prod.collapse)
    have es': "es[p := (fst (es ! p), val)] = take p es @ (key, val) # drop (Suc p) es"
      using p by (simp add: upd_conv_take_nth_drop)
    have keys: "map fst (es[p := (fst (es ! p), val)]) = map fst es"
      by (simp add: map_update list_update_same_conv p(1))
    have "map_of (es[p := (fst (es ! p), val)]) = (map_of es)(key \<mapsto> val)"
      unfolding es' using map_of_replace_between [of "take p es" key val "drop (Suc p) es" "snd (es ! p)"] s es
      by auto
    moreover have "ord lo (LeafNode a (es[p := (fst (es ! p), val)]) rs) hi"
      using o keys by (simp del: set_map)
    moreover have "Leaf_Insert L I key val a es rs fresh
        = Some (NoSplit (LeafNode a (es[p := (fst (es ! p), val)]) rs), fresh)"
      using sk True by (simp add: Leaf_Insert_def)
    ultimately show ?thesis using len by auto
  next
    case False
    let ?es' = "take p es @ (key, val) # drop p es"
    have p: "p \<le> length es" using s by simp
    have low: "\<forall>x \<in> set (take p es). fst x < key" and high: "\<forall>y \<in> set (drop p es). key < fst y"
      using s False by auto
    have sorted_parts: "sorted_wrt (<) (map fst (take p es))" "sorted_wrt (<) (map fst (drop p es))"
        "\<forall>x \<in> set (take p es). \<forall>y \<in> set (drop p es). fst x < fst y"
      using sorted sorted_keys_append [of "take p es" "drop p es"] by auto
    have sorted': "sorted_wrt (<) (map fst ?es')"
      using sorted_parts low high by (auto simp: sorted_wrt_append)
    have set': "set ?es' = insert (key, val) (set es)"
      using set_append [of "take p es" "drop p es"] by auto
    have map': "map_of ?es' = (map_of es)(key \<mapsto> val)"
      using map_of_insert_between [of "take p es" key val "drop p es"] low by auto
    have bounds': "\<forall>x \<in> set ?es'. above lo (fst x) \<and> below (fst x) hi"
      using bounds lo hi set' by auto
    have len': "length ?es' = length es + 1" using p by simp
    show ?thesis
    proof (cases "length es < L")
      case True
      have "Leaf_Insert L I key val a es rs fresh = Some (NoSplit (LeafNode a ?es' rs), fresh)"
        using sk False True p by (simp add: Leaf_Insert_def Leaf_ShiftAndInsert_def)
      moreover have "ord lo (LeafNode a ?es' rs) hi"
        using sorted' bounds' lohi by (simp del: set_append map_append)
      ultimately show ?thesis using map' len' True
        by (intro disjI1 exI [of _ ?es']) simp
    next
      case full: False
      then have lenL: "length es = L" using len by simp
      from Leaf_Insert_split [OF _ p lenL L, where key = key and val = val and I = I and a = a
          and rs = rs and fresh = fresh] sk False
      obtain j where j: "j = UNDERFLOW_BOUND L \<or> j = UNDERFLOW_BOUND L + 1"
        and res: "Leaf_Insert L I key val a es rs fresh =
           Some (DidSplit (Split (LeafNode a (take j ?es') (Some fresh)) (LeafNode fresh (drop j ?es') rs)
                             (fst (last (take j ?es')))), fresh + 1)"
        by auto
      define les where "les = take j ?es'"
      define rres where "rres = drop j ?es'"
      define b where "b = fst (last les)"
      have app: "les @ rres = ?es'" by (simp only: les_def rres_def append_take_drop_id)
      have lens: "length les = j" "length rres = L + 1 - j"
        using j len' lenL L by (auto simp: les_def rres_def UNDERFLOW_BOUND_def)
      have jb: "L div 2 \<le> j" "j \<le> L" "L div 2 \<le> L + 1 - j" "L + 1 - j \<le> L" "0 < j"
        using j L by (auto simp: UNDERFLOW_BOUND_def)
      have ne: "les \<noteq> []" "rres \<noteq> []" using lens jb L by auto
      have sorted_lr: "sorted_wrt (<) (map fst les)" "sorted_wrt (<) (map fst rres)"
        "\<forall>x \<in> set les. \<forall>y \<in> set rres. fst x < fst y"
        using sorted' sorted_keys_append [of les rres] unfolding app by auto
      have sub: "set les \<subseteq> set ?es'" "set rres \<subseteq> set ?es'"
        using app by (metis set_append Un_upper1, metis set_append Un_upper2)
      have bl: "last les \<in> set les" using ne by simp
      have ol: "ord lo (LeafNode a les (Some fresh)) (Some b)"
        using sorted_lr(1) sorted_keys_last_max [OF sorted_lr(1)] bounds' sub bl
        by (auto simp: b_def)
      obtain y where y: "y \<in> set rres" using ne by (cases rres) auto
      have "case hi of None \<Rightarrow> True | Some h \<Rightarrow> b < h"
      proof (cases hi)
        case None then show ?thesis by simp
      next
        case (Some h)
        have "b < fst y" using sorted_lr(3) bl y by (auto simp: b_def)
        moreover have "fst y \<le> h" using bounds' sub y Some by auto
        ultimately show ?thesis using Some by simp
      qed
      then have orr: "ord (Some b) (LeafNode fresh rres rs) hi"
        using sorted_lr(2,3) bounds' sub bl by (auto simp: b_def split: option.splits)
      have "Leaf_Insert L I key val a es rs fresh =
           Some (DidSplit (Split (LeafNode a les (Some fresh)) (LeafNode fresh rres rs) b), fresh + 1)"
        using res by (simp add: les_def rres_def b_def)
      moreover have "map_of (les @ rres) = (map_of es)(key \<mapsto> val)" using app map' by simp
      ultimately show ?thesis using ol orr lens jb
        by (intro disjI2 exI [of _ les] exI [of _ rres] exI [of _ b]) simp
    qed
  qed
qed

lemma shape_is_top: "shape L I h n = shape_top L I (L div 2) (UNDERFLOW_BOUND I) h n"
  by (cases n) auto

lemma absorb_NoSplit:
  "i < length sl \<Longrightarrow> Internal_Insert_absorb I sl i (NoSplit c)
     = Some (NoSplit (InternalNode (take i sl @ (fst (sl ! i), c) # drop (Suc i) sl)))"
  by (simp add: Internal_Insert_absorb_def upd_conv_take_nth_drop)

lemma absorb_DidSplit:
  assumes "i < length sl" and "length sl \<le> I"
  shows "Internal_Insert_absorb I sl i (DidSplit (Split l r b)) =
     (if length sl < I
      then Some (NoSplit (InternalNode (take i sl @ (b, l) # (fst (sl ! i), r) # drop (Suc i) sl)))
      else Some (DidSplit (Split
        (InternalNode (take (UNDERFLOW_BOUND (I + 1)) (take i sl @ (b, l) # (fst (sl ! i), r) # drop (Suc i) sl)))
        (InternalNode (drop (UNDERFLOW_BOUND (I + 1)) (take i sl @ (b, l) # (fst (sl ! i), r) # drop (Suc i) sl)))
        (fst ((take i sl @ (b, l) # (fst (sl ! i), r) # drop (Suc i) sl) ! (UNDERFLOW_BOUND (I + 1) - 1))))))"
proof -
  let ?sl' = "take i sl @ (b, l) # (fst (sl ! i), r) # drop (Suc i) sl"
  have shift: "Internal_ShiftAndInsert I (fst (sl ! i)) r (i + 1) (sl[i := (b, l)]) = Some ?sl'"
    using assms by (simp add: Internal_ShiftAndInsert_def OVERFLOW_SIZE_def take_Suc_conv_app_nth)
  have len: "length ?sl' = length sl + 1" using assms by simp
  show ?thesis
  proof (cases "length sl < I")
    case True
    then show ?thesis using shift len
      by (simp add: Internal_Insert_absorb_def del: length_append)
  next
    case False
    then have eq: "length ?sl' = I + 1" using assms len by simp
    have "take (I + 1 - UNDERFLOW_BOUND (I + 1)) (drop (UNDERFLOW_BOUND (I + 1)) ?sl')
        = drop (UNDERFLOW_BOUND (I + 1)) ?sl'"
      using eq by (intro take_all) (simp del: length_append drop_append)
    then show ?thesis using shift eq False
      by (simp add: Internal_Insert_absorb_def Let_def del: length_append drop_append take_append)
  qed
qed

lemma absorb_Some_len:
  "Internal_Insert_absorb I sl i (DidSplit sp) = Some R \<Longrightarrow> length sl \<le> I"
  by (auto simp: Internal_Insert_absorb_def Internal_ShiftAndInsert_def OVERFLOW_SIZE_def
           split: option.splits if_splits)

lemma map_of_update_middle:
  assumes "key \<notin> fst ` set A" and "map_of E' = (map_of E)(key \<mapsto> v)"
  shows "map_of (A @ E' @ C) = (map_of (A @ E @ C))(key \<mapsto> v)"
proof
  fix x
  have "map_of A key = None" using assms(1) by (simp add: map_of_eq_None_iff)
  then show "map_of (A @ E' @ C) x = ((map_of (A @ E @ C))(key \<mapsto> v)) x"
    using assms(2) by (auto simp: map_add_def fun_upd_def split: option.splits)
qed

lemma prefix_keys_below:
  assumes "ord_slots lo sl hi" and "i < length sl" and "above (upto_key lo (take i sl)) key"
  shows "key \<notin> keys_of (InternalNode (take i sl))"
proof
  assume k: "key \<in> keys_of (InternalNode (take i sl))"
  have "ord_slots lo (take i sl @ (fst (sl ! i), snd (sl ! i)) # drop (Suc i) sl) hi"
    using assms slots_split_at [OF assms(2)] by simp
  then have o: "ord_slots lo (take i sl) (upto_key None (take i sl))"
    by (simp only: ord_slots_around)
  show False
  proof (cases "take i sl = []")
    case True
    then have "keys_of (InternalNode (take i sl)) = {}" by (simp only: keys_of_Nil)
    then show ?thesis using k by simp
  next
    case False
    then have "key \<le> fst (last (take i sl))"
      using ord_keys(2) [OF o k] by (simp add: upto_key_def)
    then show ?thesis using assms(3) False by (simp add: upto_key_def)
  qed
qed

lemma children_shape_take: "\<forall>(k, c) \<in> set sl. P c \<Longrightarrow> \<forall>(k, c) \<in> set (take n sl). P c"
  by (auto dest: in_set_takeD)

lemma children_shape_drop: "\<forall>(k, c) \<in> set sl. P c \<Longrightarrow> \<forall>(k, c) \<in> set (drop n sl). P c"
  by (auto dest: in_set_dropD)

lemma Insert_inv:
  "2 \<le> L \<Longrightarrow> 3 \<le> I \<Longrightarrow> ord lo n hi \<Longrightarrow> above lo key \<Longrightarrow> below key hi
     \<Longrightarrow> shape_top L I ml mi h n \<Longrightarrow> 1 \<le> mi
     \<Longrightarrow> \<exists>res fresh'. Insert L I key val n fresh = Some (res, fresh') \<and> ins_ok L I lo hi ml mi h res
           \<and> map_of (res_entries res) = (map_of (entries_of n))(key \<mapsto> val)"
proof (induction L I key val n fresh arbitrary: lo hi ml mi h rule: Insert.induct)
  case (1 L I key val a es rs fresh)
  have len: "length es \<le> L" and h: "h = 0" and ml: "ml \<le> length es" using 1(6) by auto
  from Leaf_Insert_inv [OF 1(3,4,5) len 1(1), of I val fresh]
  show ?case
  proof (elim disjE exE conjE)
    fix es'
    assume "Leaf_Insert L I key val a es rs fresh = Some (NoSplit (LeafNode a es' rs), fresh)"
      "ord lo (LeafNode a es' rs) hi" "map_of es' = (map_of es)(key \<mapsto> val)"
      "length es \<le> length es'" "length es' \<le> L"
    then show ?thesis using h ml
      by (intro exI [of _ "NoSplit (LeafNode a es' rs)"] exI [of _ fresh]) simp
  next
    fix les res b
    assume "Leaf_Insert L I key val a es rs fresh =
              Some (DidSplit (Split (LeafNode a les (Some fresh)) (LeafNode fresh res rs) b), fresh + 1)"
      "ord lo (LeafNode a les (Some fresh)) (Some b)" "ord (Some b) (LeafNode fresh res rs) hi"
      "map_of (les @ res) = (map_of es)(key \<mapsto> val)"
      "L div 2 \<le> length les" "length les \<le> L" "L div 2 \<le> length res" "length res \<le> L"
    then show ?thesis using h
      by (intro exI [of _ "DidSplit (Split (LeafNode a les (Some fresh)) (LeafNode fresh res rs) b)"]
            exI [of _ "fresh + 1"]) simp
  qed
next
  case (2 L I key val sl fresh)
  define i where "i = SearchChildIndex sl key"
  have os: "ord_slots lo sl hi" and ne: "sl \<noteq> []" using 2(4) by auto
  have hpos: "0 < h" and mi: "mi \<le> length sl" and lenI: "length sl \<le> I"
    and kids: "\<forall>(k, c) \<in> set sl. shape L I (h - 1) c"
    using 2(7) by auto
  note route = SearchChildIndex_route [OF os ne 2(5,6), folded i_def]
  then have i: "i < length sl" by simp
  define lo' where "lo' = upto_key lo (take i sl)"
  define hi' where "hi' = (if Suc i < length sl then Some (fst (sl ! i)) else hi)"
  define c where "c = snd (sl ! i)"
  define ki where "ki = fst (sl ! i)"
  define A where "A = entries_of (InternalNode (take i sl))"
  define C where "C = entries_of (InternalNode (drop (Suc i) sl))"
  have oc: "ord lo' c hi'" using ord_slots_child [OF os i] by (simp add: lo'_def hi'_def c_def)
  have sc: "shape_top L I (L div 2) (UNDERFLOW_BOUND I) (h - 1) c"
  proof -
    have "(fst (sl ! i), snd (sl ! i)) \<in> set sl" using nth_mem [OF i] by simp
    with kids have "shape L I (h - 1) (snd (sl ! i))" by blast
    then show ?thesis by (simp add: c_def shape_is_top [symmetric])
  qed
  have B1: "1 \<le> UNDERFLOW_BOUND I" using 2(3) by (simp add: UNDERFLOW_BOUND_def)
  have "\<exists>res fresh'. Insert L I key val c fresh = Some (res, fresh')
          \<and> ins_ok L I lo' hi' (L div 2) (UNDERFLOW_BOUND I) (h - 1) res
          \<and> map_of (res_entries res) = (map_of (entries_of c))(key \<mapsto> val)"
  proof -
    have a: "SearchChildIndex sl key < length sl" using i by (simp add: i_def)
    have b: "above lo' key" "below key hi'" using route by (simp_all add: lo'_def hi'_def)
    note IH = 2(1) [OF a 2(2,3), folded i_def, folded c_def]
    show ?thesis by (rule IH [OF oc b sc B1])
  qed
  then obtain res fresh' where ins: "Insert L I key val c fresh = Some (res, fresh')"
    and ok: "ins_ok L I lo' hi' (L div 2) (UNDERFLOW_BOUND I) (h - 1) res"
    and mp: "map_of (res_entries res) = (map_of (entries_of c))(key \<mapsto> val)"
    by blast
  have sl_eq: "sl = take i sl @ (ki, c) # drop (Suc i) sl"
    using slots_split_at [OF i] by (simp add: ki_def c_def)
  have ent: "entries_of (InternalNode sl) = A @ entries_of c @ C"
    by (subst sl_eq) (simp add: A_def C_def)
  have notA: "key \<notin> fst ` set A"
    using prefix_keys_below [OF os i] route by (simp add: A_def keys_of_def)
  have unfold: "Insert L I key val (InternalNode sl) fresh
      = map_option (\<lambda>r. (r, fresh')) (Internal_Insert_absorb I sl i res)"
    using i ins by (simp add: i_def c_def)
  show ?case
  proof (cases res)
    case (NoSplit c')
    let ?sl' = "take i sl @ (ki, c') # drop (Suc i) sl"
    have oc': "ord lo' c' hi'" and sc': "shape L I (h - 1) c'"
      using ok NoSplit by (auto simp: shape_is_top)
    have "ord_slots lo ?sl' hi"
      using ord_slots_replace [OF os i, of c'] oc' by (simp add: lo'_def hi'_def ki_def)
    then have o': "ord lo (InternalNode ?sl') hi" by simp
    have "\<forall>(k, c) \<in> set ?sl'. shape L I (h - 1) c"
      using kids sc' by (auto dest: in_set_takeD in_set_dropD)
    moreover have "length ?sl' = length sl" using i by simp
    ultimately have s': "shape_top L I ml mi h (InternalNode ?sl')"
      using hpos mi lenI by (simp del: length_append)
    have "map_of (entries_of (InternalNode ?sl')) = (map_of (entries_of (InternalNode sl)))(key \<mapsto> val)"
      using map_of_update_middle [OF notA, of "entries_of c'" "entries_of c" val C] mp NoSplit
      by (simp add: ent A_def C_def)
    moreover have "Insert L I key val (InternalNode sl) fresh = Some (NoSplit (InternalNode ?sl'), fresh')"
      using unfold NoSplit absorb_NoSplit [OF i, of I c'] by (simp add: ki_def)
    ultimately show ?thesis using o' s'
      by (intro exI [of _ "NoSplit (InternalNode ?sl')"] exI [of _ fresh']) simp
  next
    case (DidSplit sp)
    obtain l r b where sp: "sp = Split l r b" by (cases sp)
    define sl' where "sl' = take i sl @ (b, l) # (ki, r) # drop (Suc i) sl"
    have ol: "ord lo' l (Some b)" and orr: "ord (Some b) r hi'"
      and sl': "shape L I (h - 1) l" and sr: "shape L I (h - 1) r"
      using ok DidSplit sp by auto
    have os': "ord_slots lo sl' hi"
      using ord_slots_replace2 [OF os i, of l b r] ol orr by (simp add: lo'_def hi'_def ki_def sl'_def)
    have kids': "\<forall>(k, c) \<in> set sl'. shape L I (h - 1) c"
      using kids sl' sr by (auto simp: sl'_def dest: in_set_takeD in_set_dropD)
    have len': "length sl' = length sl + 1" using i by (simp add: sl'_def)
    have ne': "sl' \<noteq> []" by (simp add: sl'_def)
    have ent': "map_of (entries_of (InternalNode sl')) = (map_of (entries_of (InternalNode sl)))(key \<mapsto> val)"
      using map_of_update_middle [OF notA, of "entries_of l @ entries_of r" "entries_of c" val C] mp DidSplit sp
      by (simp add: ent A_def C_def sl'_def)
    show ?thesis
    proof (cases "length sl < I")
      case True
      have "Insert L I key val (InternalNode sl) fresh = Some (NoSplit (InternalNode sl'), fresh')"
        using unfold DidSplit sp absorb_DidSplit [OF i lenI, of l r b] True by (simp add: ki_def sl'_def)
      moreover have "ord lo (InternalNode sl') hi" using os' ne' by simp
      moreover have "shape_top L I ml mi h (InternalNode sl')"
        using hpos mi True kids' len' by simp
      ultimately show ?thesis using ent'
        by (intro exI [of _ "NoSplit (InternalNode sl')"] exI [of _ fresh']) simp
    next
      case False
      then have lenI1: "length sl' = I + 1" using lenI len' by simp
      define B' where "B' = UNDERFLOW_BOUND (I + 1)"
      define lsl where "lsl = take B' sl'"
      define rsl where "rsl = drop B' sl'"
      define b' where "b' = fst (sl' ! (B' - 1))"
      have B': "UNDERFLOW_BOUND I \<le> B'" "B' \<le> I" "UNDERFLOW_BOUND I \<le> I + 1 - B'" "I + 1 - B' \<le> I" "0 < B'"
        using 2(3) by (auto simp: B'_def UNDERFLOW_BOUND_def)
      have lens: "length lsl = B'" "length rsl = I + 1 - B'"
        using lenI1 B' by (simp_all add: lsl_def rsl_def)
      have nel: "lsl \<noteq> []" and ner: "rsl \<noteq> []" using lens B' 2(3) by auto
      have app: "lsl @ rsl = sl'" by (simp only: lsl_def rsl_def append_take_drop_id)
      have lastl: "fst (last lsl) = b'"
        using lens B' lenI1 nel
        by (simp add: last_conv_nth lsl_def b'_def)
      have "ord_slots lo (lsl @ rsl) hi" using os' app by simp
      then have "ord_slots lo lsl (Some b')" "ord_slots (Some b') rsl hi"
        using nel lastl by (simp_all add: ord_slots_append [OF ner] upto_key_def)
      then have ol': "ord lo (InternalNode lsl) (Some b')" and or': "ord (Some b') (InternalNode rsl) hi"
        using nel ner by simp_all
      have "\<forall>(k, c) \<in> set lsl. shape L I (h - 1) c" "\<forall>(k, c) \<in> set rsl. shape L I (h - 1) c"
        using children_shape_take [OF kids', of B'] children_shape_drop [OF kids', of B']
        by (simp_all add: lsl_def rsl_def)
      then have shl: "shape L I h (InternalNode lsl)" and shr: "shape L I h (InternalNode rsl)"
        using hpos lens B' by simp_all
      have "entries_of (InternalNode lsl) @ entries_of (InternalNode rsl) = entries_of (InternalNode sl')"
        using entries_of_append [of lsl rsl] app by simp
      then have ent'': "map_of (entries_of (InternalNode lsl) @ entries_of (InternalNode rsl))
          = (map_of (entries_of (InternalNode sl)))(key \<mapsto> val)"
        using ent' by simp
      have "Insert L I key val (InternalNode sl) fresh
          = Some (DidSplit (Split (InternalNode lsl) (InternalNode rsl) b'), fresh')"
        using unfold DidSplit sp absorb_DidSplit [OF i lenI, of l r b] False
        by (simp add: ki_def lsl_def rsl_def b'_def B'_def sl'_def)
      then show ?thesis using ol' or' shl shr ent''
        by (intro exI [of _ "DidSplit (Split (InternalNode lsl) (InternalNode rsl) b')"] exI [of _ fresh'])
           simp
    qed
  qed
qed

subsection \<open>The sibling chain under Insert\<close>

lemma links_Leaf [simp]: "links (LeafNode a es rs) = [(a, (), rs)]"
  by (simp add: links_def)

lemma links_Nil [simp]: "links (InternalNode []) = []"
  by (simp add: links_def)

lemma links_Cons [simp]: "links (InternalNode ((k, c) # sl)) = links c @ links (InternalNode sl)"
  by (simp add: links_def)

lemma links_append [simp]:
  "links (InternalNode (xs @ ys)) = links (InternalNode xs) @ links (InternalNode ys)"
  by (induction xs) auto

lemma chain_links: "chain (links n) nxt = chain (leaves n) nxt"
proof -
  have "chain (map (\<lambda>(a, es, rs). (a, (), rs)) ls) nxt = chain ls nxt" for ls :: "(nat \<times> 'c \<times> nat option) list"
    by (induction ls nxt rule: chain.induct) (auto split: list.splits)
  then show ?thesis by (simp add: links_def)
qed

lemma addrs_links: "map fst (links n) = map fst (leaves n)"
  by (simp add: links_def case_prod_unfold comp_def)

lemma absorb_links:
  assumes "i < length sl" and "Internal_Insert_absorb I sl i res = Some R"
  shows "res_links R = links (InternalNode (take i sl)) @ res_links res @ links (InternalNode (drop (Suc i) sl))"
proof (cases res)
  case (NoSplit c)
  then show ?thesis using assms absorb_NoSplit [OF assms(1), of I c] by auto
next
  case (DidSplit sp)
  obtain l r b where sp: "sp = Split l r b" by (cases sp)
  have lenI: "length sl \<le> I" using assms(2) DidSplit by (auto dest: absorb_Some_len)
  define sl' where "sl' = take i sl @ (b, l) # (fst (sl ! i), r) # drop (Suc i) sl"
  have l: "links (InternalNode sl') = links (InternalNode (take i sl)) @ res_links res @ links (InternalNode (drop (Suc i) sl))"
    using DidSplit sp by (simp add: sl'_def)
  have "links (InternalNode (take n sl')) @ links (InternalNode (drop n sl')) = links (InternalNode sl')" for n
    using links_append [of "take n sl'" "drop n sl'"] by (simp only: append_take_drop_id)
  then show ?thesis
    using assms(2) DidSplit sp absorb_DidSplit [OF assms(1) lenI, of l r b] l
    by (auto simp: sl'_def [symmetric] split: if_splits)
qed

lemma links_split_at:
  "i < length sl \<Longrightarrow> links (InternalNode sl)
     = links (InternalNode (take i sl)) @ links (snd (sl ! i)) @ links (InternalNode (drop (Suc i) sl))"
proof -
  assume i: "i < length sl"
  have "links (InternalNode sl)
      = links (InternalNode (take i sl @ (fst (sl ! i), snd (sl ! i)) # drop (Suc i) sl))"
    using slots_split_at [OF i] by simp
  then show ?thesis by (simp only: links_append links_Cons)
qed

lemma Leaf_Insert_links:
  assumes "Leaf_Insert L I key val a es rs fresh = Some (res, fresh')"
  shows "(res_links res = [(a, (), rs)] \<and> fresh' = fresh)
       \<or> (res_links res = [(a, (), Some fresh), (fresh, (), rs)] \<and> fresh' = fresh + 1)"
  using assms
  by (auto simp: Leaf_Insert_def Let_def split: prod.splits if_splits option.splits)

lemma Insert_links:
  "Insert L I key val n fresh = Some (res, fresh') \<Longrightarrow>
     (res_links res = links n \<and> fresh' = fresh)
     \<or> (\<exists>xs a rs ys. links n = xs @ (a, (), rs) # ys
           \<and> res_links res = xs @ (a, (), Some fresh) # (fresh, (), rs) # ys \<and> fresh' = fresh + 1)"
proof (induction L I key val n fresh arbitrary: res fresh' rule: Insert.induct)
  case (1 L I key val a es rs fresh)
  then have "Leaf_Insert L I key val a es rs fresh = Some (res, fresh')" by simp
  from Leaf_Insert_links [OF this] show ?case
  proof
    assume "res_links res = [(a, (), rs)] \<and> fresh' = fresh"
    then show ?thesis by simp
  next
    assume "res_links res = [(a, (), Some fresh), (fresh, (), rs)] \<and> fresh' = fresh + 1"
    then have "links (LeafNode a es rs) = [] @ (a, (), rs) # []
        \<and> res_links res = [] @ (a, (), Some fresh) # (fresh, (), rs) # [] \<and> fresh' = fresh + 1"
      by simp
    then show ?thesis by blast
  qed
next
  case (2 L I key val sl fresh)
  define i where "i = SearchChildIndex sl key"
  define c where "c = snd (sl ! i)"
  define P where "P = links (InternalNode (take i sl))"
  define Q where "Q = links (InternalNode (drop (Suc i) sl))"
  have i: "i < length sl" using 2(2) by (auto simp: i_def split: if_splits)
  obtain cres where ins: "Insert L I key val c fresh = Some (cres, fresh')"
    and ab: "Internal_Insert_absorb I sl i cres = Some res"
    using 2(2) i by (auto simp: i_def c_def split: option.splits)
  have a: "SearchChildIndex sl key < length sl" using i by (simp add: i_def)
  note IH = 2(1) [OF a, folded i_def, folded c_def, OF ins]
  have rl: "res_links res = P @ res_links cres @ Q"
    using absorb_links [OF i ab] by (simp add: P_def Q_def)
  have ln: "links (InternalNode sl) = P @ links c @ Q"
    using links_split_at [OF i] by (simp add: P_def Q_def c_def)
  from IH show ?case
  proof (elim disjE exE conjE)
    assume "res_links cres = links c" "fresh' = fresh"
    then show ?thesis using rl ln by simp
  next
    fix xs a rs ys
    assume "links c = xs @ (a, (), rs) # ys"
      "res_links cres = xs @ (a, (), Some fresh) # (fresh, (), rs) # ys" "fresh' = fresh + 1"
    then have "links (InternalNode sl) = (P @ xs) @ (a, (), rs) # (ys @ Q)
        \<and> res_links res = (P @ xs) @ (a, (), Some fresh) # (fresh, (), rs) # (ys @ Q) \<and> fresh' = fresh + 1"
      using rl ln by simp
    then show ?thesis by blast
  qed
qed

subsection \<open>Search\<close>

lemma suffix_keys_above:
  assumes "ord_slots lo sl hi" and "Suc i < length sl" and "key \<le> fst (sl ! i)"
  shows "key \<notin> keys_of (InternalNode (drop (Suc i) sl))"
proof
  assume k: "key \<in> keys_of (InternalNode (drop (Suc i) sl))"
  have i: "i < length sl" using assms(2) by simp
  have ne: "drop (Suc i) sl \<noteq> []" using assms(2) by simp
  have "ord_slots lo (take i sl @ (fst (sl ! i), snd (sl ! i)) # drop (Suc i) sl) hi"
    using assms(1) slots_split_at [OF i] by simp
  then have "ord_slots (Some (fst (sl ! i))) (drop (Suc i) sl) hi"
    using ne by (simp only: ord_slots_around) simp
  from ord_keys(2) [OF this k] show False using assms(3) by auto
qed

lemma route_entries:
  assumes "ord_slots lo sl hi" and "sl \<noteq> []" and "above lo key" and "below key hi"
  shows "key \<notin> keys_of (InternalNode (take (SearchChildIndex sl key) sl))"
    and "key \<notin> keys_of (InternalNode (drop (Suc (SearchChildIndex sl key)) sl))"
proof -
  note r = SearchChildIndex_route [OF assms]
  show "key \<notin> keys_of (InternalNode (take (SearchChildIndex sl key) sl))"
    using prefix_keys_below [OF assms(1)] r by simp
  show "key \<notin> keys_of (InternalNode (drop (Suc (SearchChildIndex sl key)) sl))"
  proof (cases "Suc (SearchChildIndex sl key) < length sl")
    case True
    then show ?thesis using suffix_keys_above [OF assms(1) True, of key] r by simp
  next
    case False
    then show ?thesis by simp
  qed
qed

lemma entries_split_at:
  "i < length sl \<Longrightarrow> entries_of (InternalNode sl)
     = entries_of (InternalNode (take i sl)) @ entries_of (snd (sl ! i))
       @ entries_of (InternalNode (drop (Suc i) sl))"
proof -
  assume i: "i < length sl"
  have "entries_of (InternalNode sl)
      = entries_of (InternalNode (take i sl @ (fst (sl ! i), snd (sl ! i)) # drop (Suc i) sl))"
    using slots_split_at [OF i] by simp
  then show ?thesis by (simp only: entries_of_append entries_of_Cons)
qed

lemma map_of_route:
  assumes "ord_slots lo sl hi" and "sl \<noteq> []" and "above lo key" and "below key hi"
  shows "map_of (entries_of (InternalNode sl)) key
       = map_of (entries_of (snd (sl ! SearchChildIndex sl key))) key"
proof -
  define i where "i = SearchChildIndex sl key"
  have i: "i < length sl" using SearchChildIndex_route [OF assms] by (simp add: i_def)
  have a: "map_of (entries_of (InternalNode (take i sl))) key = None"
    using route_entries(1) [OF assms] by (simp add: i_def keys_of_def map_of_eq_None_iff)
  have c: "map_of (entries_of (InternalNode (drop (Suc i) sl))) key = None"
    using route_entries(2) [OF assms] by (simp add: i_def keys_of_def map_of_eq_None_iff)
  show ?thesis
    unfolding i_def [symmetric] entries_split_at [OF i]
    using a c by (simp add: map_add_def split: option.splits)
qed

lemma Search_correct:
  "ord lo n hi \<Longrightarrow> above lo key \<Longrightarrow> below key hi \<Longrightarrow>
     Search key val0 n
       = Some (case map_of (entries_of n) key of None \<Rightarrow> (False, val0) | Some v \<Rightarrow> (True, v))"
proof (induction key val0 n arbitrary: lo hi rule: Search.induct)
  case (1 key val0 a es rs)
  then have "sorted_wrt (<) (map fst es)" by simp
  from Leaf_Search_sorted [OF this] show ?case by simp
next
  case (2 key val0 sl)
  have os: "ord_slots lo sl hi" and ne: "sl \<noteq> []" using 2(2) by auto
  note r = SearchChildIndex_route [OF os ne 2(3,4)]
  then have i: "SearchChildIndex sl key < length sl" by simp
  have oc: "ord (upto_key lo (take (SearchChildIndex sl key) sl)) (snd (sl ! SearchChildIndex sl key))
         (if Suc (SearchChildIndex sl key) < length sl then Some (fst (sl ! SearchChildIndex sl key)) else hi)"
    using ord_slots_child [OF os i] .
  have "Search key val0 (snd (sl ! SearchChildIndex sl key))
      = Some (case map_of (entries_of (snd (sl ! SearchChildIndex sl key))) key of
                None \<Rightarrow> (False, val0) | Some v \<Rightarrow> (True, v))"
    using 2(1) [OF i oc] r by blast
  then show ?case using i map_of_route [OF os ne 2(3,4)] by simp
qed

lemma ord_entries_sorted:
  fixes n :: "('k::linorder, 'v) node" and sl :: "('k \<times> ('k, 'v) node) list"
  shows "ord lo n hi \<Longrightarrow> sorted_wrt (<) (map fst (entries_of n))"
    and "ord_slots lo' sl hi' \<Longrightarrow> sorted_wrt (<) (map fst (entries_of (InternalNode sl)))"
proof (induction lo n hi and lo' sl hi' rule: ord_ord_slots.induct)
  case (1 lo a es rs hi)
  then show ?case by simp
next
  case (2 lo sl hi)
  then show ?case by simp
next
  case (3 lo hi)
  then show ?case by simp
next
  case (4 lo k c rest hi)
  show ?case
  proof (cases "rest = []")
    case True
    then show ?thesis using 4 by simp
  next
    case False
    then have oc: "ord lo c (Some k)" and orest: "ord_slots (Some k) rest hi" using 4(4) by auto
    have "\<forall>x \<in> keys_of c. \<forall>y \<in> keys_of (InternalNode rest). x < y"
    proof (intro ballI)
      fix x y assume "x \<in> keys_of c" "y \<in> keys_of (InternalNode rest)"
      then have "x \<le> k" "k < y" using ord_keys(1) [OF oc] ord_keys(2) [OF orest] by auto
      then show "x < y" by simp
    qed
    then show ?thesis using 4(2) [OF False oc] 4(3) [OF False orest]
      by (auto simp: sorted_wrt_append keys_of_def)
  qed
qed

subsection \<open>Balance keeps the invariants\<close>

lemma RIGHTMOST_KEY_Leaf:
  "es \<noteq> [] \<Longrightarrow> length es \<le> L \<Longrightarrow> RIGHTMOST_KEY L I (LeafNode a es rs) = Some (fst (last es))"
  by (cases es rule: rev_cases) (auto simp: RIGHTMOST_KEY_def GetKey_def nth_append)

lemma RIGHTMOST_KEY_Internal:
  "sl \<noteq> [] \<Longrightarrow> length sl \<le> I \<Longrightarrow> RIGHTMOST_KEY L I (InternalNode sl) = Some (fst (last sl))"
  by (cases sl rule: rev_cases) (auto simp: RIGHTMOST_KEY_def GetKey_def nth_append)

lemma LEFTMOST_KEY_Leaf:
  "es \<noteq> [] \<Longrightarrow> 0 < L \<Longrightarrow> LEFTMOST_KEY L I (LeafNode a es rs) = Some (fst (hd es))"
  by (cases es) (auto simp: LEFTMOST_KEY_def GetKey_def)

lemma UB_facts:
  "2 \<le> L \<Longrightarrow> 1 \<le> UNDERFLOW_BOUND L"
  "2 \<le> L \<Longrightarrow> UNDERFLOW_BOUND L \<le> L"
  "L div 2 \<le> UNDERFLOW_BOUND L"
  "2 * UNDERFLOW_BOUND L \<le> L + 1"
  "2 \<le> L \<Longrightarrow> 1 \<le> L div 2"
  "even L \<Longrightarrow> L div 2 = UNDERFLOW_BOUND L"
  "UNDERFLOW_BOUND L \<le> L div 2 + 1"
  by (auto simp: UNDERFLOW_BOUND_def elim: evenE)

lemma Leaf_Balance_borrow_right:
  assumes L: "2 \<le> L"
    and ol: "ord lo (LeafNode a es rs) (Some b0)" and orr: "ord (Some b0) (LeafNode a2 es2 rs2) hi"
    and s1: "length es = UNDERFLOW_BOUND L - 1" and s2: "UNDERFLOW_BOUND L < length es2" and s3: "length es2 \<le> L"
  shows "\<exists>es' es2' b'. Leaf_Balance L I a es rs a2 es2 rs2 b0
            = Some (False, LeafNode a es' rs, LeafNode a2 es2' rs2, b')
         \<and> es' @ es2' = es @ es2 \<and> length es' = UNDERFLOW_BOUND L \<and> length es2' = length es2 - 1
         \<and> ord lo (LeafNode a es' rs) (Some b') \<and> ord (Some b') (LeafNode a2 es2' rs2) hi"
proof -
  note ub = UB_facts(1,2) [OF L]
  obtain e0 e1 t where es2: "es2 = e0 # e1 # t"
    using s2 ub by (cases es2; cases "tl es2") auto
  have lt: "length es < UNDERFLOW_BOUND L" using s1 ub by simp
  have bal: "Leaf_Balance L I a es rs a2 es2 rs2 b0
      = Some (False, LeafNode a (es @ [e0]) rs, LeafNode a2 (e1 # t) rs2, fst e0)"
    using lt s1 s2 s3 ub L es2
    by (simp add: Leaf_Balance_def LEFTMOST_KEY_def GetKey_def Leaf_ShiftAndInsert_def Leaf_DeleteIndex_def)
  have o1: "ord lo (LeafNode a (es @ [e0]) rs) (Some (fst e0))"
    using ol orr es2 by (auto simp: sorted_wrt_append above_def split: option.splits)
  have o2: "ord (Some (fst e0)) (LeafNode a2 (e1 # t) rs2) hi"
    using orr es2 by (auto simp: below_def split: option.splits)
  show ?thesis using bal o1 o2 s1 lt es2
    by (intro exI [of _ "es @ [e0]"] exI [of _ "e1 # t"] exI [of _ "fst e0"]) simp
qed

lemma Leaf_Balance_borrow_left:
  assumes L: "2 \<le> L"
    and ol: "ord lo (LeafNode a es rs) (Some b0)" and orr: "ord (Some b0) (LeafNode a2 es2 rs2) hi"
    and s1: "length es2 = UNDERFLOW_BOUND L - 1" and s2: "UNDERFLOW_BOUND L < length es" and s3: "length es \<le> L"
  shows "\<exists>es' es2' b'. Leaf_Balance L I a es rs a2 es2 rs2 b0
            = Some (False, LeafNode a es' rs, LeafNode a2 es2' rs2, b')
         \<and> es' @ es2' = es @ es2 \<and> length es' = length es - 1 \<and> length es2' = UNDERFLOW_BOUND L
         \<and> ord lo (LeafNode a es' rs) (Some b') \<and> ord (Some b') (LeafNode a2 es2' rs2) hi"
proof -
  note ub = UB_facts(1,2) [OF L]
  obtain xs y x where es: "es = (xs @ [y]) @ [x]"
    using s2 ub by (cases es rule: rev_cases; cases "butlast es" rule: rev_cases) auto
  have lt: "length es2 < UNDERFLOW_BOUND L" using s1 ub by simp
  have rk: "RIGHTMOST_KEY L I (LeafNode a (xs @ [y]) rs) = Some (fst y)"
    using RIGHTMOST_KEY_Leaf [of "xs @ [y]" L I a rs] s3 es by simp
  have bal: "Leaf_Balance L I a es rs a2 es2 rs2 b0
      = Some (False, LeafNode a (xs @ [y]) rs, LeafNode a2 (x # es2) rs2, fst y)"
    using lt s1 s2 s3 ub L es rk
    by (simp add: Leaf_Balance_def Leaf_ShiftAndInsert_def Leaf_DeleteIndex_def nth_append)
  have o1: "ord lo (LeafNode a (xs @ [y]) rs) (Some (fst y))"
    using ol es by (auto simp: sorted_wrt_append)
  have o2: "ord (Some (fst y)) (LeafNode a2 (x # es2) rs2) hi"
    using ol orr es by (auto simp: sorted_wrt_append below_def split: option.splits)
  show ?thesis using bal o1 o2 s1 lt es
    by (intro exI [of _ "xs @ [y]"] exI [of _ "x # es2"] exI [of _ "fst y"]) simp
qed

lemma Leaf_Balance_merge:
  assumes L: "2 \<le> L"
    and ol: "ord lo (LeafNode a es rs) (Some b0)" and orr: "ord (Some b0) (LeafNode a2 es2 rs2) hi"
    and s1: "\<not> (length es < UNDERFLOW_BOUND L \<and> UNDERFLOW_BOUND L < length es2)"
    and s2: "\<not> (UNDERFLOW_BOUND L < length es \<and> length es2 < UNDERFLOW_BOUND L)"
    and s3: "length es + length es2 \<le> L" and s4: "es @ es2 \<noteq> []"
  shows "\<exists>b'. Leaf_Balance L I a es rs a2 es2 rs2 b0
            = Some (True, LeafNode a (es @ es2) rs2, LeafNode a2 es2 rs2, b')
         \<and> ord lo (LeafNode a (es @ es2) rs2) hi"
proof -
  have rk: "RIGHTMOST_KEY L I (LeafNode a (es @ es2) rs2) = Some (fst (last (es @ es2)))"
    using RIGHTMOST_KEY_Leaf [OF s4, of L I a rs2] s3 by simp
  have bal: "Leaf_Balance L I a es rs a2 es2 rs2 b0
      = Some (True, LeafNode a (es @ es2) rs2, LeafNode a2 es2 rs2, fst (last (es @ es2)))"
    using s1 s2 s3 rk by (auto simp: Leaf_Balance_def)
  have cross: "\<forall>x \<in> set es. \<forall>y \<in> set es2. fst x < fst y"
  proof (intro ballI)
    fix x y assume "x \<in> set es" "y \<in> set es2"
    then have "fst x \<le> b0" "b0 < fst y" using ol orr by auto
    then show "fst x < fst y" by simp
  qed
  have up: "\<forall>x \<in> set es. below (fst x) hi"
  proof
    fix x assume "x \<in> set es"
    then have "fst x \<le> b0" using ol by auto
    moreover have "case hi of None \<Rightarrow> True | Some h \<Rightarrow> b0 < h" using orr by (auto split: option.splits)
    ultimately show "below (fst x) hi" by (auto simp: below_def split: option.splits)
  qed
  have dn: "\<forall>y \<in> set es2. above lo (fst y)"
  proof
    fix y assume "y \<in> set es2"
    then have "b0 < fst y" using orr by auto
    moreover have "above lo b0" using ol by simp
    ultimately show "above lo (fst y)" by (auto simp: above_def split: option.splits)
  qed
  have hh: "case hi of None \<Rightarrow> True | Some h \<Rightarrow> above lo h"
  proof (cases hi)
    case None then show ?thesis by simp
  next
    case (Some h)
    then have "b0 < h" using orr by simp
    moreover have "above lo b0" using ol by simp
    ultimately show ?thesis using Some by (auto simp: above_def split: option.splits)
  qed
  have "ord lo (LeafNode a (es @ es2) rs2) hi"
    using ol orr cross up dn hh by (auto simp: sorted_wrt_append)
  then show ?thesis using bal by simp
qed

lemma Leaf_Balance_inv:
  assumes L: "2 \<le> L"
    and ol: "ord lo (LeafNode a es rs) (Some b0)" and orr: "ord (Some b0) (LeafNode a2 es2 rs2) hi"
    and sz: "L div 2 - 1 \<le> length es" "length es \<le> L" "L div 2 - 1 \<le> length es2" "length es2 \<le> L"
    and und: "(length es < UNDERFLOW_BOUND L \<and> L div 2 \<le> length es2)
            \<or> (length es2 < UNDERFLOW_BOUND L \<and> L div 2 \<le> length es)"
  shows "(even L \<longrightarrow> Leaf_Balance L I a es rs a2 es2 rs2 b0 \<noteq> None)
       \<and> (\<forall>res. Leaf_Balance L I a es rs a2 es2 rs2 b0 = Some res
             \<longrightarrow> bal_ok L I lo hi 0 (LeafNode a es rs) (LeafNode a2 es2 rs2) res)"
proof -
  note ub = UB_facts(1,2) [OF L] UB_facts(3,4) [of L] UB_facts(5) [OF L]
  consider (bright) "length es < UNDERFLOW_BOUND L" "UNDERFLOW_BOUND L < length es2"
    | (bleft) "UNDERFLOW_BOUND L < length es" "length es2 < UNDERFLOW_BOUND L"
    | (merge) "\<not> (length es < UNDERFLOW_BOUND L \<and> UNDERFLOW_BOUND L < length es2)"
              "\<not> (UNDERFLOW_BOUND L < length es \<and> length es2 < UNDERFLOW_BOUND L)"
    by blast
  then show ?thesis
  proof cases
    case bright
    show ?thesis
    proof (cases "length es = UNDERFLOW_BOUND L - 1")
      case True
      from Leaf_Balance_borrow_right [OF L ol orr True bright(2) sz(4), of I]
      obtain es' es2' b' where r: "Leaf_Balance L I a es rs a2 es2 rs2 b0
            = Some (False, LeafNode a es' rs, LeafNode a2 es2' rs2, b')"
         "es' @ es2' = es @ es2" "length es' = UNDERFLOW_BOUND L" "length es2' = length es2 - 1"
         "ord lo (LeafNode a es' rs) (Some b')" "ord (Some b') (LeafNode a2 es2' rs2) hi"
        by blast
      have "bal_ok L I lo hi 0 (LeafNode a es rs) (LeafNode a2 es2 rs2)
              (False, LeafNode a es' rs, LeafNode a2 es2' rs2, b')"
      proof -
        have "L div 2 \<le> length es2'" "length es2' \<le> L" "L div 2 \<le> length es'" "length es' \<le> L"
          using r(3,4) ub bright sz by linarith+
        then show ?thesis unfolding bal_ok_def using r(2,5,6) by (simp del: ord.simps)
      qed
      then show ?thesis using r(1) by simp
    next
      case False
      then have "Leaf_Balance L I a es rs a2 es2 rs2 b0 = None"
        using bright by (simp add: Leaf_Balance_def)
      moreover have "odd L" using False bright sz(1) UB_facts(6) [of L] by auto
      ultimately show ?thesis by simp
    qed
  next
    case bleft
    show ?thesis
    proof (cases "length es2 = UNDERFLOW_BOUND L - 1")
      case True
      from Leaf_Balance_borrow_left [OF L ol orr True bleft(1) sz(2), of I]
      obtain es' es2' b' where r: "Leaf_Balance L I a es rs a2 es2 rs2 b0
            = Some (False, LeafNode a es' rs, LeafNode a2 es2' rs2, b')"
         "es' @ es2' = es @ es2" "length es' = length es - 1" "length es2' = UNDERFLOW_BOUND L"
         "ord lo (LeafNode a es' rs) (Some b')" "ord (Some b') (LeafNode a2 es2' rs2) hi"
        by blast
      have "bal_ok L I lo hi 0 (LeafNode a es rs) (LeafNode a2 es2 rs2)
              (False, LeafNode a es' rs, LeafNode a2 es2' rs2, b')"
      proof -
        have "L div 2 \<le> length es2'" "length es2' \<le> L" "L div 2 \<le> length es'" "length es' \<le> L"
          using r(3,4) ub bleft sz by linarith+
        then show ?thesis unfolding bal_ok_def using r(2,5,6) by (simp del: ord.simps)
      qed
      then show ?thesis using r(1) by simp
    next
      case False
      then have "Leaf_Balance L I a es rs a2 es2 rs2 b0 = None"
        using bleft by (simp add: Leaf_Balance_def)
      moreover have "odd L" using False bleft sz(3) UB_facts(6) [of L] by auto
      ultimately show ?thesis by simp
    qed
  next
    case merge
    have sum: "length es + length es2 \<le> L" using merge und sz ub by auto
    have ne: "es @ es2 \<noteq> []" using und ub by auto
    have low: "L div 2 \<le> length es + length es2" using und sz ub by auto
    from Leaf_Balance_merge [OF L ol orr merge sum ne, of I]
    obtain b' where r: "Leaf_Balance L I a es rs a2 es2 rs2 b0
            = Some (True, LeafNode a (es @ es2) rs2, LeafNode a2 es2 rs2, b')"
        "ord lo (LeafNode a (es @ es2) rs2) hi"
      by blast
    have "merge_step ([] @ (a, (), rs) # (a2, (), rs2) # []) ([] @ (a, (), rs2) # [])"
      unfolding merge_step_def by blast
    then have "merge_step\<^sup>*\<^sup>* [(a, (), rs), (a2, (), rs2)] [(a, (), rs2)]" by simp
    then have "bal_ok L I lo hi 0 (LeafNode a es rs) (LeafNode a2 es2 rs2)
              (True, LeafNode a (es @ es2) rs2, LeafNode a2 es2 rs2, b')"
      unfolding bal_ok_def using r(2) sum low by (simp del: ord.simps)
    then show ?thesis using r(1) by simp
  qed
qed

lemma ord_slots_last_key: "ord_slots lo sl (Some h) \<Longrightarrow> sl \<noteq> [] \<Longrightarrow> fst (last sl) = h"
proof (induction sl arbitrary: lo)
  case Nil
  then show ?case by simp
next
  case (Cons s sl)
  obtain k c where s: "s = (k, c)" by (cases s)
  show ?case using Cons s by (cases "sl = []") (auto simp del: ord.simps)
qed

lemma rightmost_ord:
  assumes "ord lo c (Some k0)" and "shape L I h c" and "2 \<le> L" and "3 \<le> I"
  shows "\<exists>k. RIGHTMOST_KEY L I c = Some k \<and> k \<le> k0 \<and> ord lo c (Some k)"
proof (cases c)
  case (LeafNode a es rs)
  have ne: "es \<noteq> []" and len: "length es \<le> L"
    using assms(2,3) LeafNode UB_facts(5) [OF assms(3)] by auto
  obtain xs x where es: "es = xs @ [x]" using ne by (cases es rule: rev_cases) auto
  have "RIGHTMOST_KEY L I c = Some (fst x)"
    using RIGHTMOST_KEY_Leaf [OF ne len, of I a rs] LeafNode es by simp
  moreover have "fst x \<le> k0" using assms(1) LeafNode es by simp
  moreover have "ord lo c (Some (fst x))"
    using assms(1) LeafNode es by (auto simp: sorted_wrt_append)
  ultimately show ?thesis by blast
next
  case (InternalNode sl)
  have ne: "sl \<noteq> []" and len: "length sl \<le> I" and os: "ord_slots lo sl (Some k0)"
    using assms(1,2) InternalNode by auto
  have "RIGHTMOST_KEY L I c = Some k0"
    using RIGHTMOST_KEY_Internal [OF ne len, of L] ord_slots_last_key [OF os ne] InternalNode by simp
  then show ?thesis using assms(1) by simp
qed

lemma Internal_Balance_inv:
  assumes L: "2 \<le> L" and I: "3 \<le> I"
    and ol: "ord lo (InternalNode sl) (Some b0)" and orr: "ord (Some b0) (InternalNode sl2) hi"
    and h: "0 < h"
    and k1: "\<forall>(k, c) \<in> set sl. shape L I (h - 1) c" and k2: "\<forall>(k, c) \<in> set sl2. shape L I (h - 1) c"
    and sz: "UNDERFLOW_BOUND I - 1 \<le> length sl" "length sl \<le> I"
            "UNDERFLOW_BOUND I - 1 \<le> length sl2" "length sl2 \<le> I"
    and und: "(length sl < UNDERFLOW_BOUND I \<and> UNDERFLOW_BOUND I \<le> length sl2)
            \<or> (length sl2 < UNDERFLOW_BOUND I \<and> UNDERFLOW_BOUND I \<le> length sl)"
  shows "\<exists>res. Internal_Balance L I sl sl2 b0 = Some res
           \<and> bal_ok L I lo hi h (InternalNode sl) (InternalNode sl2) res"
proof -
  have ub: "2 \<le> UNDERFLOW_BOUND I" "UNDERFLOW_BOUND I \<le> I" "2 * UNDERFLOW_BOUND I \<le> I + 1"
    using I by (auto simp: UNDERFLOW_BOUND_def)
  have ne: "sl \<noteq> []" "sl2 \<noteq> []" using sz ub by auto
  have os: "ord_slots lo sl (Some b0)" and os2: "ord_slots (Some b0) sl2 hi" using ol orr by auto
  have lastk: "fst (last sl) = b0" using ord_slots_last_key [OF os ne(1)] .
  have up: "upto_key x sl = Some b0" for x using ne(1) lastk by (simp add: upto_key_def)
  consider (bright) "length sl < UNDERFLOW_BOUND I" "UNDERFLOW_BOUND I < length sl2"
    | (bleft) "UNDERFLOW_BOUND I < length sl" "length sl2 < UNDERFLOW_BOUND I"
    | (merge) "\<not> (length sl < UNDERFLOW_BOUND I \<and> UNDERFLOW_BOUND I < length sl2)"
              "\<not> (UNDERFLOW_BOUND I < length sl \<and> length sl2 < UNDERFLOW_BOUND I)"
    by blast
  then show ?thesis
  proof cases
    case bright
    obtain k0 c0 s1 rest where sl2: "sl2 = (k0, c0) # s1 # rest"
      using bright ub by (cases sl2; cases "tl sl2") auto
    have oc0: "ord (Some b0) c0 (Some k0)" and orest: "ord_slots (Some k0) (s1 # rest) hi"
      using os2 sl2 by (auto simp del: ord.simps)
    have sc0: "shape L I (h - 1) c0" using k2 sl2 by simp
    from rightmost_ord [OF oc0 sc0 L I]
    obtain k where k: "RIGHTMOST_KEY L I c0 = Some k" "k \<le> k0" "ord (Some b0) c0 (Some k)" by blast
    have eq: "length sl = UNDERFLOW_BOUND I - 1" using bright sz by simp
    have bal: "Internal_Balance L I sl sl2 b0
        = Some (False, InternalNode (sl @ [(k, c0)]), InternalNode (s1 # rest), k)"
      using bright eq k(1) sl2 ub
      by (simp add: Internal_Balance_def Internal_DeleteIndex_def)
    have o1: "ord lo (InternalNode (sl @ [(k, c0)])) (Some k)"
    proof -
      have "ord_slots lo sl (upto_key None sl)" using os up by simp
      moreover have "ord_slots (upto_key lo sl) [(k, c0)] (Some k)" using k(3) up by (simp del: ord.simps)
      ultimately have "ord_slots lo (sl @ [(k, c0)]) (Some k)"
        by (simp add: ord_slots_append del: ord_slots.simps)
      then show ?thesis by simp
    qed
    have o2: "ord (Some k) (InternalNode (s1 # rest)) hi"
      using ord_slots_lower [OF orest k(2)] by simp
    have s1: "shape L I h (InternalNode (sl @ [(k, c0)]))"
      using h k1 sc0 eq ub by auto
    have s2: "shape L I h (InternalNode (s1 # rest))"
      using h k2 sl2 bright sz by auto
    have "bal_ok L I lo hi h (InternalNode sl) (InternalNode sl2)
            (False, InternalNode (sl @ [(k, c0)]), InternalNode (s1 # rest), k)"
      unfolding bal_ok_def using o1 o2 s1 s2 sl2 by (simp del: ord.simps shape.simps)
    then show ?thesis using bal by simp
  next
    case bleft
    obtain pre kl cl where sl: "sl = pre @ [(kl, cl)]"
      using ne(1) by (cases sl rule: rev_cases) auto
    have pre: "pre \<noteq> []" "length pre = length sl - 1" using bleft ub sl by auto
    have kl: "kl = b0" using lastk sl by simp
    have eq: "length sl2 = UNDERFLOW_BOUND I - 1" using bleft sz by simp
    have rk: "RIGHTMOST_KEY L I (InternalNode pre) = Some (fst (last pre))"
      using RIGHTMOST_KEY_Internal [OF pre(1), of I L] pre(2) sz by simp
    have bal: "Internal_Balance L I sl sl2 b0
        = Some (False, InternalNode pre, InternalNode ((b0, cl) # sl2), fst (last pre))"
      using bleft eq rk sl ub sz
      by (simp add: Internal_Balance_def Internal_ShiftAndInsert_def OVERFLOW_SIZE_def)
    have "ord_slots lo (pre @ [(kl, cl)]) (Some b0)" using os sl by simp
    then have a: "ord_slots lo pre (upto_key None pre)" "ord (upto_key lo pre) cl (Some b0)"
      by (simp_all add: ord_slots_append del: ord.simps)
    have upre: "upto_key x pre = Some (fst (last pre))" for x using pre(1) by (simp add: upto_key_def)
    have o1: "ord lo (InternalNode pre) (Some (fst (last pre)))"
      using a(1) pre(1) upre by simp
    have o2: "ord (Some (fst (last pre))) (InternalNode ((b0, cl) # sl2)) hi"
      using a(2) os2 ne(2) upre by (simp del: ord.simps) simp
    have s1: "shape L I h (InternalNode pre)"
      using h k1 sl pre bleft sz by auto
    have s2: "shape L I h (InternalNode ((b0, cl) # sl2))"
      using h k1 k2 sl eq ub by auto
    have "bal_ok L I lo hi h (InternalNode sl) (InternalNode sl2)
            (False, InternalNode pre, InternalNode ((b0, cl) # sl2), fst (last pre))"
      unfolding bal_ok_def using o1 o2 s1 s2 sl by (simp del: ord.simps shape.simps)
    then show ?thesis using bal by simp
  next
    case merge
    have sum: "length sl + length sl2 \<le> I" "UNDERFLOW_BOUND I \<le> length sl + length sl2"
      using merge und sz ub by auto
    have bal: "Internal_Balance L I sl sl2 b0 = Some (True, InternalNode (sl @ sl2), InternalNode sl2, b0)"
      using merge sum by (auto simp: Internal_Balance_def OVERFLOW_SIZE_def)
    have "ord_slots lo sl (upto_key None sl)" using os up by simp
    moreover have "ord_slots (upto_key lo sl) sl2 hi" using os2 up by simp
    ultimately have "ord_slots lo (sl @ sl2) hi"
      using ne(2) by (simp add: ord_slots_append del: ord_slots.simps)
    then have o: "ord lo (InternalNode (sl @ sl2)) hi" using ne by simp
    have s: "shape L I h (InternalNode (sl @ sl2))"
      using h k1 k2 sum by auto
    have "bal_ok L I lo hi h (InternalNode sl) (InternalNode sl2)
            (True, InternalNode (sl @ sl2), InternalNode sl2, b0)"
      unfolding bal_ok_def using o s by (simp del: ord.simps shape.simps)
    then show ?thesis using bal by simp
  qed
qed

subsection \<open>Delete keeps the invariants\<close>

lemma Balance_inv:
  assumes L: "2 \<le> L" and I: "3 \<le> I"
    and ol: "ord lo l (Some b0)" and orr: "ord (Some b0) r hi"
    and sl: "shape_top L I (L div 2 - 1) (UNDERFLOW_BOUND I - 1) h l"
    and sr: "shape_top L I (L div 2 - 1) (UNDERFLOW_BOUND I - 1) h r"
    and und: "(\<not> shape_top L I (UNDERFLOW_BOUND L) (UNDERFLOW_BOUND I) h l \<and> shape L I h r)
            \<or> (shape L I h l \<and> \<not> shape_top L I (UNDERFLOW_BOUND L) (UNDERFLOW_BOUND I) h r)"
  shows "(even L \<longrightarrow> Balance L I l r b0 \<noteq> None)
       \<and> (\<forall>res. Balance L I l r b0 = Some res \<longrightarrow> bal_ok L I lo hi h l r res)"
proof (cases l)
  case l: (LeafNode a es rs)
  then have h: "h = 0" using sl by simp
  then obtain a2 es2 rs2 where r: "r = LeafNode a2 es2 rs2" using sr by (cases r) auto
  have sz: "L div 2 - 1 \<le> length es" "length es \<le> L" "L div 2 - 1 \<le> length es2" "length es2 \<le> L"
    using sl sr l r by auto
  have u: "(length es < UNDERFLOW_BOUND L \<and> L div 2 \<le> length es2)
         \<or> (length es2 < UNDERFLOW_BOUND L \<and> L div 2 \<le> length es)"
    using und sl sr l r h by auto
  show ?thesis
    using Leaf_Balance_inv [OF L ol [unfolded l] orr [unfolded r] sz u, of I] l r h by simp
next
  case l: (InternalNode sl1)
  then have h: "0 < h" using sl by simp
  then obtain sl2 where r: "r = InternalNode sl2" using sr by (cases r) auto
  have k1: "\<forall>(k, c) \<in> set sl1. shape L I (h - 1) c" and k2: "\<forall>(k, c) \<in> set sl2. shape L I (h - 1) c"
    using sl sr l r by auto
  have sz: "UNDERFLOW_BOUND I - 1 \<le> length sl1" "length sl1 \<le> I"
           "UNDERFLOW_BOUND I - 1 \<le> length sl2" "length sl2 \<le> I"
    using sl sr l r by auto
  have u: "(length sl1 < UNDERFLOW_BOUND I \<and> UNDERFLOW_BOUND I \<le> length sl2)
         \<or> (length sl2 < UNDERFLOW_BOUND I \<and> UNDERFLOW_BOUND I \<le> length sl1)"
    using und sl sr l r h by auto
  show ?thesis
    using Internal_Balance_inv [OF L I ol [unfolded l] orr [unfolded r] h k1 k2 sz u] l r by auto
qed

lemma filter_absent: "key \<notin> fst ` set xs \<Longrightarrow> filter (\<lambda>e. fst e \<noteq> key) xs = xs"
  by (induction xs) auto

lemma Leaf_Delete_inv:
  assumes L: "2 \<le> L" and o: "ord lo (LeafNode a es rs) hi"
    and len: "ml \<le> length es" "length es \<le> L" and ml: "ml \<le> L div 2"
  shows "\<exists>res. Leaf_Delete L key a es rs = Some res
           \<and> del_ok L I lo hi ml mi 0 key (LeafNode a es rs) res"
proof -
  have sorted: "sorted_wrt (<) (map fst es)" using o by simp
  obtain found p where sk: "SearchKeyIndex es key = (found, p)" by (cases "SearchKeyIndex es key")
  note s = SearchKeyIndex_sorted [OF sorted sk]
  show ?thesis
  proof (cases found)
    case False
    have "key \<notin> fst ` set es"
    proof
      assume "key \<in> fst ` set es"
      moreover have "set es = set (take p es) \<union> set (drop p es)"
        by (metis append_take_drop_id set_append)
      ultimately show False using s False by auto
    qed
    then have "del_ok L I lo hi ml mi 0 key (LeafNode a es rs) (False, False, LeafNode a es rs)"
      unfolding del_ok_def using o len by (simp add: filter_absent del: ord.simps)
    moreover have "Leaf_Delete L key a es rs = Some (False, False, LeafNode a es rs)"
      using sk False by (simp add: Leaf_Delete_def)
    ultimately show ?thesis by simp
  next
    case True
    then have p: "p < length es" "fst (es ! p) = key"
      and lo': "\<forall>x \<in> set (take p es). fst x < key" and hi': "\<forall>y \<in> set (drop (Suc p) es). key < fst y"
      using s by auto
    define es' where "es' = take p es @ drop (Suc p) es"
    define u where "u = (length es - 1 < UNDERFLOW_BOUND L)"
    have es: "es = take p es @ es ! p # drop (Suc p) es" using id_take_nth_drop [OF p(1)] .
    have del: "Leaf_Delete L key a es rs = Some (True, u, LeafNode a es' rs)"
      using sk True p by (simp add: Leaf_Delete_def Leaf_DeleteIndex_def es'_def u_def)
    have len': "length es' = length es - 1" using p by (simp add: es'_def) 
    have "filter (\<lambda>e. fst e \<noteq> key) es
        = filter (\<lambda>e. fst e \<noteq> key) (take p es) @ filter (\<lambda>e. fst e \<noteq> key) [es ! p]
          @ filter (\<lambda>e. fst e \<noteq> key) (drop (Suc p) es)"
      by (subst es) simp
    moreover have "filter (\<lambda>e. fst e \<noteq> key) (take p es) = take p es"
      using lo' by (intro filter_absent) auto
    moreover have "filter (\<lambda>e. fst e \<noteq> key) (drop (Suc p) es) = drop (Suc p) es"
      using hi' by (intro filter_absent) auto
    ultimately have f: "filter (\<lambda>e. fst e \<noteq> key) es = es'" using p(2) by (simp add: es'_def)
    have "sorted_wrt (<) (map fst (take p es @ es ! p # drop (Suc p) es))" using sorted es by simp
    then have so': "sorted_wrt (<) (map fst es')" by (auto simp: es'_def sorted_wrt_append)
    have "set es' \<subseteq> set es" by (auto simp: es'_def dest: in_set_takeD in_set_dropD)
    then have o': "ord lo (LeafNode a es' rs) hi" using o so' by auto
    have mem: "key \<in> fst ` set es" using p nth_mem [OF p(1)] by (metis imageI)
    note ub = UB_facts(3) [of L]
    have "del_ok L I lo hi ml mi 0 key (LeafNode a es rs) (True, u, LeafNode a es' rs)"
      unfolding del_ok_def using o' f mem len len' ml ub
      by (auto simp: u_def simp del: ord.simps)
    then show ?thesis using del by simp
  qed
qed

lemma merge_step_ctx: "merge_step X Y \<Longrightarrow> merge_step (P @ X @ Q) (P @ Y @ Q)"
proof -
  assume "merge_step X Y"
  then obtain xs a rs a2 rs2 ys
    where "X = xs @ (a, (), rs) # (a2, (), rs2) # ys" "Y = xs @ (a, (), rs2) # ys"
    unfolding merge_step_def by blast
  then have "P @ X @ Q = (P @ xs) @ (a, (), rs) # (a2, (), rs2) # (ys @ Q)
      \<and> P @ Y @ Q = (P @ xs) @ (a, (), rs2) # (ys @ Q)" by simp
  then show ?thesis unfolding merge_step_def by blast
qed

lemma merge_steps_ctx: "merge_step\<^sup>*\<^sup>* X Y \<Longrightarrow> merge_step\<^sup>*\<^sup>* (P @ X @ Q) (P @ Y @ Q)"
proof (induction rule: rtranclp_induct)
  case base
  then show ?case by simp
next
  case (step y z)
  then show ?case using merge_step_ctx [of y z P Q] by (meson rtranclp.rtrancl_into_rtrancl)
qed

lemma ord_slots_around2:
  "ord_slots lo (P @ (k1, c1) # (k2, c2) # Q) hi =
     (ord_slots lo P (upto_key None P)
      \<and> ord (upto_key lo P) c1 (Some k1)
      \<and> ord (Some k1) c2 (if Q = [] then hi else Some k2)
      \<and> (Q = [] \<longrightarrow> (case hi of None \<Rightarrow> True | Some h \<Rightarrow> k2 = h))
      \<and> (Q \<noteq> [] \<longrightarrow> ord_slots (Some k2) Q hi))"
  by (simp only: ord_slots_around ord_slots_Cons) auto

lemma rebalance_eval:
  assumes "sl0[i := (fst (sl0 ! i), target)] = P @ (k1, x1) # (k2, x2) # Q"
    and "(i = 0 \<and> P = [] \<and> x1 = target) \<or> (i = length P + 1 \<and> x2 = target)"
  shows "Internal_Delete_rebalance L I sl0 i True True target =
     (case Balance L I x1 x2 k1 of
        None \<Rightarrow> None
      | Some (merged, l', r', b') \<Rightarrow>
          if \<not> merged then Some (True, False, InternalNode (P @ (b', l') # (k2, r') # Q))
          else Some (True, length sl0 - 1 < UNDERFLOW_BOUND I, InternalNode (P @ (k2, l') # Q)))"
proof -
  define sl where "sl = P @ (k1, x1) # (k2, x2) # Q"
  have len: "length sl0 = length sl" using arg_cong [OF assms(1), of length] by (simp add: sl_def)
  have len2: "\<not> length sl \<le> 1" by (simp add: sl_def)
  from assms(2) show ?thesis
  proof
    assume a: "i = 0 \<and> P = [] \<and> x1 = target"
    then show ?thesis
      unfolding Internal_Delete_rebalance_def assms(1) Let_def
      using len by (auto simp: sl_def Internal_DeleteIndex_def split: option.splits)
  next
    assume a: "i = length P + 1 \<and> x2 = target"
    have upd: "(P @ (k1, x1) # (k2, x2) # Q)[length P := u, Suc (length P) := v] = P @ u # v # Q" for u v
      by (simp add: list_update_append)
    have tk: "take (Suc (length P)) (P @ u # v # Q) = P @ [u]" for u v :: "'a \<times> ('a, 'b) node"
      by simp
    have dr: "drop (Suc (Suc (length P))) (P @ u # v # Q) = Q" for u v :: "'a \<times> ('a, 'b) node"
      by simp
    show ?thesis
      unfolding Internal_Delete_rebalance_def assms(1) Let_def
      using a len
      by (auto simp: sl_def Internal_DeleteIndex_def nth_append upd list_update_append
               split: option.splits)
  qed
qed

lemma shape_top_weaken:
  "shape_top L I ml mi h n \<Longrightarrow> ml' \<le> ml \<Longrightarrow> mi' \<le> mi \<Longrightarrow> shape_top L I ml' mi' h n"
  by (cases n) auto

lemma kid_shape: "\<forall>(k, c) \<in> set sl. P c \<Longrightarrow> (k', c') \<in> set sl \<Longrightarrow> P c'"
  by auto

lemma Delete_inv:
  "2 \<le> L \<Longrightarrow> 3 \<le> I \<Longrightarrow> ord lo n hi \<Longrightarrow> above lo key \<Longrightarrow> below key hi
     \<Longrightarrow> shape_top L I ml mi h n \<Longrightarrow> 2 \<le> mi \<Longrightarrow> mi \<le> UNDERFLOW_BOUND I \<Longrightarrow> ml \<le> L div 2
     \<Longrightarrow> (even L \<longrightarrow> Delete L I key n \<noteq> None)
         \<and> (\<forall>res. Delete L I key n = Some res \<longrightarrow> del_ok L I lo hi ml mi h key n res)"
proof (induction L I key n arbitrary: lo hi ml mi h rule: Delete.induct)
  case (1 L I key a es rs)
  have len: "ml \<le> length es" "length es \<le> L" and h: "h = 0" using 1(6) by auto
  from Leaf_Delete_inv [OF 1(1,3) len 1(9), of key I mi] show ?case using h by auto
next
  case (2 L I key sl0)
  note L = 2(2) and I = 2(3)
  define i where "i = SearchChildIndex sl0 key"
  define c where "c = snd (sl0 ! i)"
  define ki where "ki = fst (sl0 ! i)"
  define lo' where "lo' = upto_key lo (take i sl0)"
  define hi' where "hi' = (if Suc i < length sl0 then Some (fst (sl0 ! i)) else hi)"
  define f where "f = (\<lambda>e::'a \<times> 'b. fst e \<noteq> key)"
  have os: "ord_slots lo sl0 hi" and ne: "sl0 \<noteq> []" using 2(4) by auto
  have hpos: "0 < h" and mi: "mi \<le> length sl0" and lenI: "length sl0 \<le> I"
    and kids: "\<forall>(k, c) \<in> set sl0. shape L I (h - 1) c"
    using 2(7) by auto
  have len2: "2 \<le> length sl0" using mi 2(8) by simp
  note route = SearchChildIndex_route [OF os ne 2(5,6), folded i_def]
  then have i: "i < length sl0" by simp
  have a: "SearchChildIndex sl0 key < length sl0" using i by (simp add: i_def)
  have oc: "ord lo' c hi'" using ord_slots_child [OF os i] by (simp add: lo'_def hi'_def c_def)
  have b: "above lo' key" "below key hi'" using route by (simp_all add: lo'_def hi'_def)
  have ub: "2 \<le> UNDERFLOW_BOUND I" "UNDERFLOW_BOUND I \<le> UNDERFLOW_BOUND I" "L div 2 \<le> L div 2"
    using I by (auto simp: UNDERFLOW_BOUND_def)
  have mem: "(ki, c) \<in> set sl0" using nth_mem [OF i] by (simp add: ki_def c_def)
  have shc: "shape L I (h - 1) c" using kid_shape [OF kids mem] .
  then have sc: "shape_top L I (L div 2) (UNDERFLOW_BOUND I) (h - 1) c" by (simp add: shape_is_top)
  note IH = 2(1) [OF a L I, folded i_def, folded c_def, OF oc b sc ub]
  have unfold: "Delete L I key (InternalNode sl0) =
      (case Delete L I key c of None \<Rightarrow> None
       | Some (deleted, underflow, target) \<Rightarrow> Internal_Delete_rebalance L I sl0 i deleted underflow target)"
    unfolding i_def c_def using a by simp
  show ?case
  proof (cases "Delete L I key c")
    case None
    then show ?thesis using IH unfold by simp
  next
    case (Some cres)
    obtain deleted underflow c' where cres: "cres = (deleted, underflow, c')" by (cases cres)
    have dok: "del_ok L I lo' hi' (L div 2) (UNDERFLOW_BOUND I) (h - 1) key c (deleted, underflow, c')"
      using IH Some cres by simp
    then have oc': "ord lo' c' hi'"
      and st': "shape_top L I (L div 2 - 1) (UNDERFLOW_BOUND I - 1) (h - 1) c'"
      and nu: "\<not> underflow \<Longrightarrow> shape L I (h - 1) c'"
      and un: "underflow \<Longrightarrow> \<not> shape_top L I (UNDERFLOW_BOUND L) (UNDERFLOW_BOUND I) (h - 1) c'"
      and ec': "entries_of c' = filter f (entries_of c)"
      and dl: "deleted = (key \<in> keys_of c)"
      and nd: "\<not> deleted \<Longrightarrow> c' = c \<and> \<not> underflow"
      and lk: "merge_step\<^sup>*\<^sup>* (links c) (links c')"
      unfolding del_ok_def f_def by (simp_all add: shape_is_top)
    define sl where "sl = take i sl0 @ (ki, c') # drop (Suc i) sl0"
    have sl_upd: "sl0[i := (fst (sl0 ! i), c')] = sl"
      using i by (simp add: sl_def ki_def upd_conv_take_nth_drop)
    have sl0_eq: "sl0 = take i sl0 @ (ki, c) # drop (Suc i) sl0"
      using slots_split_at [OF i] by (simp add: ki_def c_def)
    have len_sl: "length sl = length sl0" using i by (simp add: sl_def)
    have osl: "ord_slots lo sl hi"
      using ord_slots_replace [OF os i, of c'] oc' by (simp add: lo'_def hi'_def ki_def sl_def)
    have notA: "key \<notin> keys_of (InternalNode (take i sl0))"
      and notC: "key \<notin> keys_of (InternalNode (drop (Suc i) sl0))"
      using route_entries [OF os ne 2(5,6)] by (simp_all add: i_def)
    have ent0: "entries_of (InternalNode sl0)
        = entries_of (InternalNode (take i sl0)) @ entries_of c @ entries_of (InternalNode (drop (Suc i) sl0))"
      using entries_split_at [OF i] by (simp add: c_def)
    have ent_sl: "entries_of (InternalNode sl) = filter f (entries_of (InternalNode sl0))"
    proof -
      have "filter f (entries_of (InternalNode (take i sl0))) = entries_of (InternalNode (take i sl0))"
        "filter f (entries_of (InternalNode (drop (Suc i) sl0))) = entries_of (InternalNode (drop (Suc i) sl0))"
        unfolding f_def using notA notC by (simp_all add: filter_absent keys_of_def)
      then show ?thesis using ec' by (simp add: ent0 sl_def)
    qed
    have keys0: "(key \<in> keys_of (InternalNode sl0)) = deleted"
      using notA notC dl by (auto simp: ent0 keys_of_def)
    have ln0: "links (InternalNode sl0)
        = links (InternalNode (take i sl0)) @ links c @ links (InternalNode (drop (Suc i) sl0))"
      using links_split_at [OF i] by (simp add: c_def)
    have lk_sl: "merge_step\<^sup>*\<^sup>* (links (InternalNode sl0)) (links (InternalNode sl))"
      using merge_steps_ctx [OF lk] by (simp add: ln0 sl_def)
    have kids_rest: "\<forall>(k, x) \<in> set (take i sl0) \<union> set (drop (Suc i) sl0). shape L I (h - 1) x"
      using kids by (auto dest: in_set_takeD in_set_dropD)
    show ?thesis
    proof (cases "deleted \<and> underflow")
      case False
      have res: "Delete L I key (InternalNode sl0) = Some (deleted, underflow, InternalNode sl)"
        using unfold Some cres False sl_upd by (auto simp: Internal_Delete_rebalance_def)
      have same: "\<not> deleted \<Longrightarrow> InternalNode sl = InternalNode sl0 \<and> \<not> underflow"
        using nd sl0_eq by (simp add: sl_def)
      have nun: "\<not> underflow" using False nd by blast
      have "\<forall>(k, x) \<in> set sl. shape L I (h - 1) x"
        using kids_rest nu [OF nun] by (auto simp: sl_def)
      then have sh: "shape_top L I ml mi h (InternalNode sl)"
        using hpos mi lenI len_sl by simp
      have "del_ok L I lo hi ml mi h key (InternalNode sl0) (deleted, underflow, InternalNode sl)"
        unfolding del_ok_def
        using osl sh shape_top_weaken [OF sh, of "ml - 1" "mi - 1"] nun ent_sl keys0 same lk_sl
        by (simp add: f_def sl_def del: shape_top.simps)
      then show ?thesis using res by simp
    next
      case True
      then have del: "deleted" and und: "underflow" by simp_all
      have dec: "\<exists>P k1 x1 k2 x2 Q. sl = P @ (k1, x1) # (k2, x2) # Q
          \<and> ((i = 0 \<and> P = [] \<and> x1 = c') \<or> (i = length P + 1 \<and> x2 = c'))
          \<and> (\<forall>(k, x) \<in> set P \<union> set Q. shape L I (h - 1) x)
          \<and> ((x1 = c' \<and> shape L I (h - 1) x2) \<or> (shape L I (h - 1) x1 \<and> x2 = c'))"
      proof (cases "i = 0")
        case True
        obtain k2 c2 Q where d: "drop (Suc 0) sl0 = (k2, c2) # Q"
          using len2 by (cases "drop (Suc 0) sl0") auto
        have "sl = [] @ (ki, c') # (k2, c2) # Q" using True d by (simp add: sl_def)
        moreover have "\<forall>(k, x) \<in> set ([]::('a \<times> ('a, 'b) node) list) \<union> set Q. shape L I (h - 1) x"
          using kids_rest True d by auto
        moreover have "shape L I (h - 1) c2" using kids_rest True d by auto
        ultimately show ?thesis using True by blast
      next
        case False
        then have "take i sl0 \<noteq> []" using i by auto
        then obtain P k1 c1 where t: "take i sl0 = P @ [(k1, c1)]"
          by (cases "take i sl0" rule: rev_cases) auto
        have lp: "i = length P + 1" using arg_cong [OF t, of length] i by simp
        have "sl = P @ (k1, c1) # (ki, c') # drop (Suc i) sl0" using t by (simp add: sl_def)
        moreover have "\<forall>(k, x) \<in> set P \<union> set (drop (Suc i) sl0). shape L I (h - 1) x"
          using kids_rest t by auto
        moreover have "shape L I (h - 1) c1" using kids_rest t by auto
        ultimately show ?thesis using lp by blast
      qed
      then obtain P k1 x1 k2 x2 Q where sl_dec: "sl = P @ (k1, x1) # (k2, x2) # Q"
        and pos: "(i = 0 \<and> P = [] \<and> x1 = c') \<or> (i = length P + 1 \<and> x2 = c')"
        and kPQ: "\<forall>(k, x) \<in> set P \<union> set Q. shape L I (h - 1) x"
        and which: "(x1 = c' \<and> shape L I (h - 1) x2) \<or> (shape L I (h - 1) x1 \<and> x2 = c')"
        by blast
      define lo1 where "lo1 = upto_key lo P"
      define hi2 where "hi2 = (if Q = [] then hi else Some k2)"
      have around: "ord_slots lo P (upto_key None P)" "ord lo1 x1 (Some k1)" "ord (Some k1) x2 hi2"
        "Q = [] \<longrightarrow> (case hi of None \<Rightarrow> True | Some h \<Rightarrow> k2 = h)" "Q \<noteq> [] \<longrightarrow> ord_slots (Some k2) Q hi"
        using osl unfolding sl_dec ord_slots_around2 lo1_def hi2_def by blast+
      have st1: "shape_top L I (L div 2 - 1) (UNDERFLOW_BOUND I - 1) (h - 1) x1"
        and st2: "shape_top L I (L div 2 - 1) (UNDERFLOW_BOUND I - 1) (h - 1) x2"
        using which st' shape_top_weaken [of L I "L div 2" "UNDERFLOW_BOUND I" "h - 1" _ "L div 2 - 1" "UNDERFLOW_BOUND I - 1"]
        by (auto simp: shape_is_top)
      have und12: "(\<not> shape_top L I (UNDERFLOW_BOUND L) (UNDERFLOW_BOUND I) (h - 1) x1 \<and> shape L I (h - 1) x2)
            \<or> (shape L I (h - 1) x1 \<and> \<not> shape_top L I (UNDERFLOW_BOUND L) (UNDERFLOW_BOUND I) (h - 1) x2)"
        using which un [OF und] by blast
      note bal = Balance_inv [OF L I around(2,3) st1 st2 und12]
      have ev: "Delete L I key (InternalNode sl0) =
         (case Balance L I x1 x2 k1 of
            None \<Rightarrow> None
          | Some (merged, l', r', b') \<Rightarrow>
              if \<not> merged then Some (True, False, InternalNode (P @ (b', l') # (k2, r') # Q))
              else Some (True, length sl0 - 1 < UNDERFLOW_BOUND I, InternalNode (P @ (k2, l') # Q)))"
        using unfold Some cres del und rebalance_eval [OF sl_upd [unfolded sl_dec] pos, of L I] by simp
      have ent_dec: "entries_of (InternalNode sl)
          = entries_of (InternalNode P) @ (entries_of x1 @ entries_of x2) @ entries_of (InternalNode Q)"
        by (simp add: sl_dec)
      have ln_dec: "links (InternalNode sl)
          = links (InternalNode P) @ (links x1 @ links x2) @ links (InternalNode Q)"
        by (simp add: sl_dec)
      show ?thesis
      proof (cases "Balance L I x1 x2 k1")
        case None
        then show ?thesis using bal ev by simp
      next
        case (Some bres)
        obtain merged l' r' b' where bres: "bres = (merged, l', r', b')" by (cases bres)
        have bok: "bal_ok L I lo1 hi2 (h - 1) x1 x2 (merged, l', r', b')" using bal Some bres by simp
        show ?thesis
        proof (cases merged)
          case False
          define sl' where "sl' = P @ (b', l') # (k2, r') # Q"
          have bo: "ord lo1 l' (Some b')" "ord (Some b') r' hi2" "shape L I (h - 1) l'" "shape L I (h - 1) r'"
            "entries_of l' @ entries_of r' = entries_of x1 @ entries_of x2"
            "links l' @ links r' = links x1 @ links x2"
            using bok False unfolding bal_ok_def by simp_all
          have res: "Delete L I key (InternalNode sl0) = Some (True, False, InternalNode sl')"
            using ev Some bres False by (simp add: sl'_def)
          have "ord_slots lo sl' hi"
            unfolding sl'_def ord_slots_around2 using around bo(1,2) by (simp add: lo1_def hi2_def)
          then have o': "ord lo (InternalNode sl') hi" by (simp add: sl'_def)
          have len': "length sl' = length sl0" using len_sl by (simp add: sl'_def sl_dec)
          have "\<forall>(k, x) \<in> set sl'. shape L I (h - 1) x" using kPQ bo(3,4) by (auto simp: sl'_def)
          then have sh: "shape_top L I ml mi h (InternalNode sl')"
            using hpos mi lenI len' by simp
          have "entries_of (InternalNode sl')
              = entries_of (InternalNode P) @ (entries_of l' @ entries_of r') @ entries_of (InternalNode Q)"
            by (simp add: sl'_def)
          then have "entries_of (InternalNode sl') = entries_of (InternalNode sl)"
            by (simp only: bo(5) ent_dec)
          then have e': "entries_of (InternalNode sl') = filter f (entries_of (InternalNode sl0))"
            using ent_sl by simp
          have "links (InternalNode sl')
              = links (InternalNode P) @ (links l' @ links r') @ links (InternalNode Q)"
            by (simp add: sl'_def)
          then have "links (InternalNode sl') = links (InternalNode sl)"
            by (simp only: bo(6) ln_dec)
          then have l': "merge_step\<^sup>*\<^sup>* (links (InternalNode sl0)) (links (InternalNode sl'))"
            using lk_sl by simp
          have "del_ok L I lo hi ml mi h key (InternalNode sl0) (True, False, InternalNode sl')"
            unfolding del_ok_def
            using o' sh shape_top_weaken [OF sh, of "ml - 1" "mi - 1"] e' keys0 del l'
            by (simp add: f_def del: shape_top.simps ord.simps)
          then show ?thesis using res by simp
        next
          case True
          define sl' where "sl' = P @ (k2, l') # Q"
          define u where "u = (length sl0 - 1 < UNDERFLOW_BOUND I)"
          have bo: "ord lo1 l' hi2" "shape L I (h - 1) l'"
            "entries_of l' = entries_of x1 @ entries_of x2"
            "merge_step\<^sup>*\<^sup>* (links x1 @ links x2) (links l')"
            using bok True unfolding bal_ok_def by simp_all
          have res: "Delete L I key (InternalNode sl0) = Some (True, u, InternalNode sl')"
            using ev Some bres True by (simp add: sl'_def u_def)
          have "ord_slots lo sl' hi"
            unfolding sl'_def ord_slots_around using around bo(1) by (simp add: lo1_def hi2_def)
          then have o': "ord lo (InternalNode sl') hi" by (simp add: sl'_def)
          have len': "length sl' = length sl0 - 1" using len_sl by (simp add: sl'_def sl_dec)
          have kk: "\<forall>(k, x) \<in> set sl'. shape L I (h - 1) x" using kPQ bo(2) by (auto simp: sl'_def)
          have sh1: "shape_top L I (ml - 1) (mi - 1) h (InternalNode sl')"
          proof -
            have "mi - 1 \<le> length sl'" "length sl' \<le> I" using mi lenI len' by linarith+
            then show ?thesis using hpos kk by simp
          qed
          have sh2: "\<not> u \<Longrightarrow> shape_top L I ml mi h (InternalNode sl')"
          proof -
            assume "\<not> u"
            then have "mi \<le> length sl'" "length sl' \<le> I" using 2(9) lenI len' unfolding u_def by linarith+
            then show ?thesis using hpos kk by simp
          qed
          have sh3: "u \<Longrightarrow> \<not> shape_top L I (UNDERFLOW_BOUND L) (UNDERFLOW_BOUND I) h (InternalNode sl')"
            using len' by (simp add: u_def)
          have "entries_of (InternalNode sl')
              = entries_of (InternalNode P) @ entries_of l' @ entries_of (InternalNode Q)"
            by (simp add: sl'_def)
          then have "entries_of (InternalNode sl') = entries_of (InternalNode sl)"
            by (simp only: bo(3) ent_dec)
          then have e': "entries_of (InternalNode sl') = filter f (entries_of (InternalNode sl0))"
            using ent_sl by simp
          have "links (InternalNode sl')
              = links (InternalNode P) @ links l' @ links (InternalNode Q)"
            by (simp add: sl'_def)
          then have "merge_step\<^sup>*\<^sup>* (links (InternalNode sl)) (links (InternalNode sl'))"
            using merge_steps_ctx [OF bo(4), of "links (InternalNode P)" "links (InternalNode Q)"]
            by (simp only: ln_dec)
          then have l': "merge_step\<^sup>*\<^sup>* (links (InternalNode sl0)) (links (InternalNode sl'))"
            using lk_sl by simp
          have "del_ok L I lo hi ml mi h key (InternalNode sl0) (True, u, InternalNode sl')"
            unfolding del_ok_def
            using o' sh1 sh2 sh3 e' keys0 del l'
            by (simp add: f_def del: shape_top.simps ord.simps)
          then show ?thesis using res by simp
        qed
      qed
    qed
  qed
qed

section \<open>The latch protocol of the node operations\<close>

lemma unlock_all_Some: "lt \<noteq> NONE \<Longrightarrow> \<exists>cs. unlock_all lt ls = Some cs"
  by (induction ls) (auto simp: unlock_as_def split: SharedLockType.splits)

lemma AcquireLatch_eq:
  "AcquireLatch l lt s =
     (length (latches (fst s)), (fst s)\<lparr>latches := latches (fst s) @ [l]\<rparr>, snd s @ lock_as lt l)"
  by (cases s) (simp add: AcquireLatch_def)

lemma ReleaseLatch_ok:
  assumes "lt \<noteq> NONE" and "u \<le> length (latches (fst s))"
  shows "\<exists>s'. ReleaseLatch u lt s = Some s' \<and> latches (fst s') = latches (fst s)
           \<and> smallest_unlk_idx (fst s') = max (smallest_unlk_idx (fst s)) u"
proof (cases s)
  case (Pair ctx calls)
  obtain cs where "unlock_all lt (take (u - smallest_unlk_idx ctx) (drop (smallest_unlk_idx ctx) (latches ctx))) = Some cs"
    using unlock_all_Some [OF assms(1)] by blast
  then show ?thesis using assms(2) Pair by (auto simp: ReleaseLatch_def max_def)
qed

lemma ReleaseLatchFromParent_ok:
  assumes "lt \<noteq> NONE" and "smallest_unlk_idx (fst s) = d"
  shows "\<exists>s'. ReleaseLatchFromParent d lt s = Some s' \<and> latches (fst s') = latches (fst s)
           \<and> smallest_unlk_idx (fst s') = length (latches (fst s))"
proof (cases s)
  case (Pair ctx calls)
  obtain cs where "unlock_all lt (drop d (latches ctx)) = Some cs"
    using unlock_all_Some [OF assms(1)] by blast
  then show ?thesis using assms(2) Pair by (auto simp: ReleaseLatchFromParent_def)
qed

lemma ReleaseLatchFromParent_None:
  "smallest_unlk_idx (fst s) \<noteq> d \<Longrightarrow> ReleaseLatchFromParent d lt s = None"
  by (cases s) (simp add: ReleaseLatchFromParent_def)

lemma ReplaceLatch_ok:
  assumes "lt \<noteq> NONE" and "idx < length (latches (fst s))"
  shows "\<exists>s'. ReplaceLatch idx l lt s = Some s' \<and> latches (fst s') = (latches (fst s))[idx := l]
           \<and> smallest_unlk_idx (fst s') = smallest_unlk_idx (fst s)"
proof (cases s)
  case (Pair ctx calls)
  obtain c where "unlock_as lt (latches ctx ! idx) = Some c"
    using assms(1) by (cases lt) (auto simp: unlock_as_def)
  then show ?thesis using assms(2) Pair by (auto simp: ReplaceLatch_def)
qed

text \<open>Entering a node: the latch is pushed and, when the node is safe, the ancestors are released.\<close>

lemma enter_node:
  assumes "ctx_ok s" and "lt \<noteq> NONE"
  shows "\<exists>s2. (if safe
               then ReleaseLatch (length (latches (fst s))) lt
                      ((fst s)\<lparr>latches := latches (fst s) @ [p]\<rparr>, snd s @ lock_as lt p)
               else Some ((fst s)\<lparr>latches := latches (fst s) @ [p]\<rparr>, snd s @ lock_as lt p)) = Some s2
           \<and> latches (fst s2) = latches (fst s) @ [p]
           \<and> smallest_unlk_idx (fst s2) = (if safe then length (latches (fst s)) else smallest_unlk_idx (fst s))"
proof -
  define s1 where "s1 = ((fst s)\<lparr>latches := latches (fst s) @ [p]\<rparr>, snd s @ lock_as lt p)"
  have l1: "latches (fst s1) = latches (fst s) @ [p]" "smallest_unlk_idx (fst s1) = smallest_unlk_idx (fst s)"
    by (simp_all add: s1_def)
  show ?thesis
  proof (cases safe)
    case True
    from ReleaseLatch_ok [OF assms(2), of "length (latches (fst s))" s1]
    obtain s2 where "ReleaseLatch (length (latches (fst s))) lt s1 = Some s2"
      "latches (fst s2) = latches (fst s1)"
      "smallest_unlk_idx (fst s2) = max (smallest_unlk_idx (fst s1)) (length (latches (fst s)))"
      using l1 by auto
    then show ?thesis using l1 True assms(1) by (simp add: ctx_ok_def max_def s1_def [symmetric])
  next
    case False
    then show ?thesis using l1 by (simp add: s1_def [symmetric])
  qed
qed

lemma Leaf_Insert_split_iff:
  assumes "Leaf_Insert L I key val a es rs fresh = Some (res, fresh')"
  shows "(\<exists>c. res = NoSplit c) = (fst (SearchKeyIndex es key) \<or> length es < L)"
  using assms
  by (auto simp: Leaf_Insert_def Let_def split: prod.splits if_splits option.splits)

lemma Leaf_Insert_latches_ok:
  assumes "Leaf_Insert L I key val a es rs fresh = Some (res, fresh')" and "ctx_ok s"
  shows "\<exists>s'. Leaf_Insert_latches L key a es s = Some s' \<and> latched s a (\<exists>c. res = NoSplit c) s'"
proof -
  define d where "d = length (latches (fst s))"
  from enter_node [OF assms(2), of EXCLUSIVE "length es < L" a]
  obtain s2 where e: "(if length es < L
               then ReleaseLatch d EXCLUSIVE
                      ((fst s)\<lparr>latches := latches (fst s) @ [a]\<rparr>, snd s @ lock_as EXCLUSIVE a)
               else Some ((fst s)\<lparr>latches := latches (fst s) @ [a]\<rparr>, snd s @ lock_as EXCLUSIVE a)) = Some s2"
    and l2: "latches (fst s2) = latches (fst s) @ [a]"
    and m2: "smallest_unlk_idx (fst s2) = (if length es < L then d else smallest_unlk_idx (fst s))"
    unfolding d_def by auto
  have unf: "Leaf_Insert_latches L key a es s =
      (if fst (SearchKeyIndex es key) \<or> length es < L then ReleaseLatch (d + 1) EXCLUSIVE s2 else Some s2)"
    using e by (auto simp: Leaf_Insert_latches_def AcquireLatch_eq d_def Let_def split: prod.splits)
  note iff = Leaf_Insert_split_iff [OF assms(1)]
  show ?thesis
  proof (cases "fst (SearchKeyIndex es key) \<or> length es < L")
    case True
    from ReleaseLatch_ok [of EXCLUSIVE "d + 1" s2]
    obtain s' where r: "ReleaseLatch (d + 1) EXCLUSIVE s2 = Some s'" "latches (fst s') = latches (fst s2)"
      "smallest_unlk_idx (fst s') = max (smallest_unlk_idx (fst s2)) (d + 1)"
      using l2 by (auto simp: d_def)
    have "smallest_unlk_idx (fst s2) \<le> d" using m2 assms(2) by (auto simp: ctx_ok_def d_def)
    then have "smallest_unlk_idx (fst s') = length (latches (fst s'))"
      using r l2 by (simp add: d_def max_def)
    then have "latched s a True s'" using r(2) l2 by (simp add: latched_def)
    then show ?thesis using unf True r(1) iff by simp
  next
    case False
    then have "latched s a False s2" using l2 m2 by (simp add: latched_def)
    then show ?thesis using unf False iff by simp
  qed
qed

lemma latched_ctx_ok: "ctx_ok s \<Longrightarrow> latched s p r s' \<Longrightarrow> ctx_ok s'"
  by (auto simp: latched_def ctx_ok_def split: if_splits)

lemma Insert_latches_ok:
  "Insert L I key val n fresh = Some (res, fresh') \<Longrightarrow> ctx_ok s
     \<Longrightarrow> \<exists>s'. Insert_latches L I key val n fresh s = Some s'
            \<and> latched s (SharedLatchPtr n) (\<exists>c. res = NoSplit c) s'"
proof (induction L I key val n fresh arbitrary: res fresh' s rule: Insert.induct)
  case (1 L I key val a es rs fresh)
  then have "Leaf_Insert L I key val a es rs fresh = Some (res, fresh')" by simp
  from Leaf_Insert_latches_ok [OF this 1(2)] show ?case by simp
next
  case (2 L I key val sl fresh)
  define i where "i = SearchChildIndex sl key"
  define c where "c = snd (sl ! i)"
  define d where "d = length (latches (fst s))"
  have i: "i < length sl" using 2(2) by (auto simp: i_def split: if_splits)
  have a: "SearchChildIndex sl key < length sl" using i by (simp add: i_def)
  obtain cres where ins: "Insert L I key val c fresh = Some (cres, fresh')"
    and ab: "Internal_Insert_absorb I sl i cres = Some res"
    using 2(2) i by (auto simp: i_def c_def split: option.splits)
  define S1 where "S1 = ((fst s)\<lparr>latches := latches (fst s) @ [unnamed]\<rparr>, snd s @ lock_as EXCLUSIVE unnamed)"
  define X where "X = (if length sl < I then ReleaseLatch d EXCLUSIVE S1 else Some S1)"
  from enter_node [OF 2(3), of EXCLUSIVE "length sl < I" unnamed]
  obtain s2 where e: "X = Some s2"
    and l2: "latches (fst s2) = latches (fst s) @ [unnamed]"
    and m2: "smallest_unlk_idx (fst s2) = (if length sl < I then d else smallest_unlk_idx (fst s))"
    unfolding X_def S1_def d_def by auto
  have ok2: "ctx_ok s2" using l2 m2 2(3) by (auto simp: ctx_ok_def d_def)
  from 2(1) [OF a, folded i_def, folded c_def, OF ins ok2]
  obtain s3 where s3: "Insert_latches L I key val c fresh s2 = Some s3"
    and la: "latched s2 (SharedLatchPtr c) (\<exists>x. cres = NoSplit x) s3" by blast
  obtain rest where l3: "latches (fst s3) = latches (fst s) @ unnamed # SharedLatchPtr c # rest"
    using la l2 by (auto simp: latched_def)
  have u1: "Insert_latches L I key val (InternalNode sl) fresh s =
      (case X of None \<Rightarrow> None
       | Some s2 \<Rightarrow>
          (case Insert_latches L I key val c fresh s2 of None \<Rightarrow> None
           | Some s3 \<Rightarrow>
              (case Insert L I key val c fresh of None \<Rightarrow> None
               | Some (NoSplit x, f) \<Rightarrow> ReleaseLatch (d + 1) EXCLUSIVE s3
               | Some (DidSplit sp, f) \<Rightarrow>
                   if length sl + 1 \<le> I then ReleaseLatchFromParent d EXCLUSIVE s3 else Some s3)))"
    unfolding X_def S1_def c_def i_def d_def Insert_latches.simps AcquireLatch_eq SharedLatchPtr.simps prod.case
    using a by (simp only: if_True)
  have unf: "Insert_latches L I key val (InternalNode sl) fresh s =
      (case cres of NoSplit x \<Rightarrow> ReleaseLatch (d + 1) EXCLUSIVE s3
       | DidSplit sp \<Rightarrow> if length sl + 1 \<le> I then ReleaseLatchFromParent d EXCLUSIVE s3 else Some s3)"
    by (simp only: u1 e s3 ins option.case prod.case)
  show ?case
  proof (cases cres)
    case (NoSplit x)
    then have m3: "smallest_unlk_idx (fst s3) = length (latches (fst s3))" using la by (simp add: latched_def)
    from ReleaseLatch_ok [of EXCLUSIVE "d + 1" s3]
    obtain s' where r: "ReleaseLatch (d + 1) EXCLUSIVE s3 = Some s'" "latches (fst s') = latches (fst s3)"
      "smallest_unlk_idx (fst s') = max (smallest_unlk_idx (fst s3)) (d + 1)"
      using l3 by (auto simp: d_def)
    have "latched s unnamed True s'" using r l3 m3 by (simp add: latched_def d_def max_def)
    moreover have "\<exists>y. res = NoSplit y" using ab NoSplit absorb_NoSplit [OF i, of I x] by auto
    ultimately show ?thesis using unf NoSplit r(1) by simp
  next
    case (DidSplit sp)
    obtain l r b where sp: "sp = Split l r b" by (cases sp)
    have m3: "smallest_unlk_idx (fst s3) = smallest_unlk_idx (fst s2)" using la DidSplit by (simp add: latched_def)
    have abs: "(\<exists>y. res = NoSplit y) = (length sl < I)"
      using ab DidSplit
      by (auto simp: Internal_Insert_absorb_def Internal_ShiftAndInsert_def Let_def
               split: option.splits if_splits)
    show ?thesis
    proof (cases "length sl < I")
      case True
      then have "smallest_unlk_idx (fst s3) = d" using m3 m2 by simp
      from ReleaseLatchFromParent_ok [OF _ this, of EXCLUSIVE]
      obtain s' where r: "ReleaseLatchFromParent d EXCLUSIVE s3 = Some s'" "latches (fst s') = latches (fst s3)"
        "smallest_unlk_idx (fst s') = length (latches (fst s3))" by auto
      have "latched s unnamed True s'" using r l3 by (simp add: latched_def)
      moreover have "\<exists>y. res = NoSplit y" using abs True by simp
      ultimately show ?thesis using unf DidSplit r(1) True by simp
    next
      case False
      then have "smallest_unlk_idx (fst s3) = smallest_unlk_idx (fst s)" using m3 m2 by simp
      then have "latched s unnamed False s3" using l3 by (simp add: latched_def)
      moreover have "\<not> (\<exists>y. res = NoSplit y)" using abs False by simp
      ultimately show ?thesis using unf DidSplit False by simp
    qed
  qed
qed

lemma SearchChildIndex_lt: "sl \<noteq> [] \<Longrightarrow> SearchChildIndex sl key < length sl"
  using lower_bound_range [of 0 "map fst sl" "length sl - 1" key]
  by (cases sl) (auto simp: SearchChildIndex_def)

lemma Leaf_Search_latches_ok:
  assumes "ctx_ok s"
  shows "\<exists>s'. Leaf_Search_latches a s = Some s' \<and> latched s a True s'"
proof -
  define d where "d = length (latches (fst s))"
  from enter_node [OF assms, of SHARE True a]
  obtain s2 where e: "ReleaseLatch d SHARE
                      ((fst s)\<lparr>latches := latches (fst s) @ [a]\<rparr>, snd s @ lock_as SHARE a) = Some s2"
    and l2: "latches (fst s2) = latches (fst s) @ [a]"
    and m2: "smallest_unlk_idx (fst s2) = d"
    unfolding d_def by auto
  from ReleaseLatch_ok [of SHARE "d + 1" s2]
  obtain s' where r: "ReleaseLatch (d + 1) SHARE s2 = Some s'" "latches (fst s') = latches (fst s2)"
      "smallest_unlk_idx (fst s') = max (smallest_unlk_idx (fst s2)) (d + 1)"
    using l2 by (auto simp: d_def)
  have "latched s a True s'" using r l2 m2 by (simp add: latched_def d_def)
  moreover have "Leaf_Search_latches a s = Some s'"
    using e r(1) by (simp add: Leaf_Search_latches_def AcquireLatch_eq d_def)
  ultimately show ?thesis by simp
qed

lemma Search_latches_ok:
  "populated n \<Longrightarrow> ctx_ok s \<Longrightarrow> \<exists>s'. Search_latches key n s = Some s' \<and> latched s (SharedLatchPtr n) True s'"
proof (induction key n s rule: Search_latches.induct)
  case (1 key a es rs s)
  then show ?case using Leaf_Search_latches_ok [of s a] by simp
next
  case (2 key sl s)
  define i where "i = SearchChildIndex sl key"
  define c where "c = snd (sl ! i)"
  define d where "d = length (latches (fst s))"
  define S1 where "S1 = ((fst s)\<lparr>latches := latches (fst s) @ [unnamed]\<rparr>, snd s @ lock_as SHARE unnamed)"
  have ne: "sl \<noteq> []" using 2(2) by auto
  have i: "i < length sl" using SearchChildIndex_lt [OF ne] by (simp add: i_def)
  have a: "SearchChildIndex sl key < length sl" using i by (simp add: i_def)
  have "(fst (sl ! i), snd (sl ! i)) \<in> set sl" using nth_mem [OF i] by simp
  then have pc: "populated c" using 2(2) by (auto simp: c_def)
  from enter_node [OF 2(3), of SHARE True unnamed]
  obtain s2 where e: "ReleaseLatch d SHARE S1 = Some s2"
    and l2: "latches (fst s2) = latches (fst s) @ [unnamed]"
    and m2: "smallest_unlk_idx (fst s2) = d"
    unfolding d_def S1_def by auto
  have ok2: "ctx_ok s2" using l2 m2 by (simp add: ctx_ok_def d_def)
  have acq: "AcquireLatch (SharedLatchPtr (InternalNode sl)) SHARE s = (d, S1)"
    by (simp add: AcquireLatch_eq d_def S1_def)
  from 2(1) [OF a acq [symmetric] e, folded i_def, folded c_def, OF pc ok2]
  obtain s' where s': "Search_latches key c s2 = Some s'" "latched s2 (SharedLatchPtr c) True s'"
    by blast
  have "latched s unnamed True s'" using s'(2) l2 by (auto simp: latched_def)
  moreover have "Search_latches key (InternalNode sl) s = Some s'"
    using a acq e s'(1) by (simp add: i_def [symmetric] c_def [symmetric])
  ultimately show ?case by simp
qed

lemma Leaf_Delete_latches_ok:
  assumes "Leaf_Delete L key a es rs = Some (deleted, underflow, n')" and "ctx_ok s"
  shows "\<exists>s'. Leaf_Delete_latches L key a es rs s = Some s'
           \<and> latched s a (\<not> deleted \<or> \<not> underflow) s' \<and> SharedLatchPtr n' = a"
proof -
  define d where "d = length (latches (fst s))"
  define safe where "safe = (int (length es) - 1 \<ge> int (UNDERFLOW_BOUND L))"
  define S1 where "S1 = ((fst s)\<lparr>latches := latches (fst s) @ [a]\<rparr>, snd s @ lock_as EXCLUSIVE a)"
  from enter_node [OF assms(2), of EXCLUSIVE safe a]
  obtain s2 where e: "(if safe then ReleaseLatch d EXCLUSIVE S1 else Some S1) = Some s2"
    and l2: "latches (fst s2) = latches (fst s) @ [a]"
    and m2: "smallest_unlk_idx (fst s2) = (if safe then d else smallest_unlk_idx (fst s))"
    unfolding d_def S1_def by auto
  have unf: "Leaf_Delete_latches L key a es rs s =
      (if \<not> underflow \<or> \<not> deleted then ReleaseLatch (d + 1) EXCLUSIVE s2 else Some s2)"
    unfolding Leaf_Delete_latches_def AcquireLatch_eq prod.case d_def [symmetric] S1_def [symmetric]
      safe_def [symmetric]
    by (simp only: e assms(1) option.case prod.case)
  have ptr: "SharedLatchPtr n' = a"
    using assms(1) by (auto simp: Leaf_Delete_def Let_def split: prod.splits if_splits option.splits)
  have und: "deleted \<and> underflow \<Longrightarrow> \<not> safe"
    using assms(1)
    by (auto simp: Leaf_Delete_def Leaf_DeleteIndex_def Let_def safe_def
             split: prod.splits if_splits option.splits)
  show ?thesis
  proof (cases "\<not> underflow \<or> \<not> deleted")
    case True
    from ReleaseLatch_ok [of EXCLUSIVE "d + 1" s2]
    obtain s' where r: "ReleaseLatch (d + 1) EXCLUSIVE s2 = Some s'" "latches (fst s') = latches (fst s2)"
      "smallest_unlk_idx (fst s') = max (smallest_unlk_idx (fst s2)) (d + 1)"
      using l2 by (auto simp: d_def)
    have "smallest_unlk_idx (fst s2) \<le> d" using m2 assms(2) by (auto simp: ctx_ok_def d_def)
    then have "latched s a True s'" using r l2 by (simp add: latched_def d_def max_def)
    then show ?thesis using unf True r(1) ptr by auto
  next
    case False
    then have "\<not> safe" using und by blast
    then have "latched s a False s2" using l2 m2 by (simp add: latched_def)
    then show ?thesis using unf False ptr by auto
  qed
qed

lemma UNDERFLOW_BOUND_pos: "1 \<le> N \<Longrightarrow> 1 \<le> UNDERFLOW_BOUND N"
  by (simp add: UNDERFLOW_BOUND_def)

lemma release_both:
  assumes l: "latches (fst s2) = ls @ p # rest" and m: "smallest_unlk_idx (fst s2) \<le> length ls"
  shows "\<exists>s'. (case ReleaseLatch (length ls) EXCLUSIVE s2 of None \<Rightarrow> None
                | Some s3 \<Rightarrow> ReleaseLatchFromParent (length ls) EXCLUSIVE s3) = Some s'
            \<and> latches (fst s') = latches (fst s2)
            \<and> smallest_unlk_idx (fst s') = length (latches (fst s'))"
proof -
  from ReleaseLatch_ok [of EXCLUSIVE "length ls" s2]
  obtain s3 where r: "ReleaseLatch (length ls) EXCLUSIVE s2 = Some s3" "latches (fst s3) = latches (fst s2)"
      "smallest_unlk_idx (fst s3) = max (smallest_unlk_idx (fst s2)) (length ls)"
    using l by auto
  have "smallest_unlk_idx (fst s3) = length ls" using r(3) m by (simp add: max_def)
  from ReleaseLatchFromParent_ok [OF _ this, of EXCLUSIVE]
  obtain s' where "ReleaseLatchFromParent (length ls) EXCLUSIVE s3 = Some s'"
     "latches (fst s') = latches (fst s3)" "smallest_unlk_idx (fst s') = length (latches (fst s3))"
    by auto
  then show ?thesis using r by simp
qed

lemma Internal_Delete_latches_ok:
  assumes dat: "Internal_Delete_rebalance L I sl i cd cu target = Some (deleted, underflow, n')"
    and I: "1 \<le> I"
    and ok: "ctx_ok s"
    and d: "d = length (latches (fst s))"
    and l3: "latches (fst s3) = latches (fst s) @ unnamed # SharedLatchPtr target # rest"
    and m3: "smallest_unlk_idx (fst s3) =
               (if \<not> cd \<or> \<not> cu then length (latches (fst s3))
                else if int (length sl) - 1 \<ge> int (UNDERFLOW_BOUND I) then d
                else smallest_unlk_idx (fst s))"
  shows "\<exists>s'. Internal_Delete_latches L I sl i cd cu target d s3 = Some s'
           \<and> latched s unnamed (\<not> deleted \<or> \<not> underflow) s' \<and> SharedLatchPtr n' = unnamed"
proof (cases "\<not> cd \<or> \<not> cu")
  case True
  have fl: "deleted = cd" "underflow = cu" and n': "SharedLatchPtr n' = unnamed"
    using dat True by (auto simp: Internal_Delete_rebalance_def Let_def)
  from ReleaseLatch_ok [of EXCLUSIVE "d + 1" s3]
  obtain s' where r: "ReleaseLatch (d + 1) EXCLUSIVE s3 = Some s'" "latches (fst s') = latches (fst s3)"
      "smallest_unlk_idx (fst s') = max (smallest_unlk_idx (fst s3)) (d + 1)"
    using l3 d by auto
  have "smallest_unlk_idx (fst s') = length (latches (fst s'))"
    using r m3 True l3 d by (auto simp: max_def)
  then have "latched s unnamed True s'" using r(2) l3 by (simp add: latched_def)
  moreover have "Internal_Delete_latches L I sl i cd cu target d s3 = Some s'"
    using True r(1) by (auto simp: Internal_Delete_latches_def Let_def)
  ultimately show ?thesis using fl True n' by auto
next
  case False
  then have cd: "cd" and cu: "cu" by auto
  define sl' where "sl' = sl[i := (fst (sl ! i), target)]"
  have len: "length sl' = length sl" by (simp add: sl'_def)
  have m3': "smallest_unlk_idx (fst s3) =
               (if int (length sl) - 1 \<ge> int (UNDERFLOW_BOUND I) then d else smallest_unlk_idx (fst s))"
    using m3 False by simp
  have le: "smallest_unlk_idx (fst s3) \<le> d" using m3' ok d by (auto simp: ctx_ok_def)
  show ?thesis
  proof (cases "length sl \<le> 1")
    case True
    have fl: "deleted" "underflow" and n': "SharedLatchPtr n' = unnamed"
      using dat cd cu True by (auto simp: Internal_Delete_rebalance_def Let_def)
    have "\<not> (int (length sl) - 1 \<ge> int (UNDERFLOW_BOUND I))"
      using True UNDERFLOW_BOUND_pos [OF I] by linarith
    then have "smallest_unlk_idx (fst s3) = smallest_unlk_idx (fst s)" using m3' by simp
    then have "latched s unnamed False s3" using l3 by (simp add: latched_def)
    moreover have "Internal_Delete_latches L I sl i cd cu target d s3 = Some s3"
      using cd cu True by (simp add: Internal_Delete_latches_def Let_def)
    ultimately show ?thesis using fl n' by auto
  next
    case big: False
    define bi where "bi = (if i \<ge> 1 then i - 1 else i)"
    define si where "si = (if i \<ge> 1 then i - 1 else i + 1)"
    define lc where "lc = (if i \<ge> 1 then snd (sl' ! (i - 1)) else target)"
    define rc where "rc = (if i \<ge> 1 then target else snd (sl' ! (i + 1)))"
    define q where "q = SharedLatchPtr (snd (sl' ! si))"
    define S1 where "S1 = (fst s3, snd s3 @ [lock q])"
    define und where "und = snd (Internal_DeleteIndex I (bi + 1) sl')"
    have datu: "Internal_Delete_rebalance L I sl i cd cu target =
        (case Balance L I lc rc (fst (sl' ! bi)) of None \<Rightarrow> None
         | Some (merged, left', right', boundary') \<Rightarrow>
             if \<not> merged then
               Some (True, False,
                     InternalNode (sl'[bi := (boundary', left'), bi + 1 := (fst (sl' ! (bi + 1)), right')]))
             else (case Internal_DeleteIndex I (bi + 1)
                          (sl'[bi := (fst (sl' ! (bi + 1)), left'), bi + 1 := (fst (sl' ! bi), right')]) of
                     (sl'', underflow') \<Rightarrow> Some (True, underflow', InternalNode sl'')))"
      unfolding Internal_Delete_rebalance_def Let_def sl'_def [symmetric] bi_def [symmetric]
        lc_def [symmetric] rc_def [symmetric]
      using cd cu big len by simp
    have latu: "Internal_Delete_latches L I sl i cd cu target d s3 =
        (case Balance L I lc rc (fst (sl' ! bi)) of None \<Rightarrow> None
         | Some (merged, left', right', boundary') \<Rightarrow>
             (case (if i \<ge> 1 then
                      (if d + 1 < length (latches (fst S1)) \<and> latches (fst S1) ! (d + 1) = SharedLatchPtr target
                       then ReplaceLatch (d + 1) q EXCLUSIVE S1 else None)
                    else Some (fst S1, snd S1 @ [unlock q])) of None \<Rightarrow> None
              | Some s2 \<Rightarrow>
                  if \<not> merged then
                    (case ReleaseLatch d EXCLUSIVE s2 of None \<Rightarrow> None
                     | Some s3 \<Rightarrow> ReleaseLatchFromParent d EXCLUSIVE s3)
                  else if \<not> und then
                    (case ReleaseLatch d EXCLUSIVE s2 of None \<Rightarrow> None
                     | Some s3 \<Rightarrow> ReleaseLatchFromParent d EXCLUSIVE s3)
                  else Some s2))"
      unfolding Internal_Delete_latches_def Let_def sl'_def [symmetric] bi_def [symmetric]
        lc_def [symmetric] rc_def [symmetric] si_def [symmetric] q_def [symmetric] S1_def [symmetric]
        und_def [symmetric]
      using cd cu big len by simp
    obtain merged left' right' boundary' where
      bal: "Balance L I lc rc (fst (sl' ! bi)) = Some (merged, left', right', boundary')"
      using dat datu by (cases "Balance L I lc rc (fst (sl' ! bi))") auto
    have lS1: "latches (fst S1) = latches (fst s) @ unnamed # SharedLatchPtr target # rest"
      and mS1: "smallest_unlk_idx (fst S1) = smallest_unlk_idx (fst s3)"
      using l3 by (simp_all add: S1_def)
    have chk: "d + 1 < length (latches (fst S1)) \<and> latches (fst S1) ! (d + 1) = SharedLatchPtr target"
      using lS1 d by (simp add: nth_append)
    obtain s2 q' where s2: "(if i \<ge> 1 then
                      (if d + 1 < length (latches (fst S1)) \<and> latches (fst S1) ! (d + 1) = SharedLatchPtr target
                       then ReplaceLatch (d + 1) q EXCLUSIVE S1 else None)
                    else Some (fst S1, snd S1 @ [unlock q])) = Some s2"
      and l2: "latches (fst s2) = latches (fst s) @ unnamed # q' # rest"
      and m2: "smallest_unlk_idx (fst s2) = smallest_unlk_idx (fst s3)"
    proof (cases "i \<ge> 1")
      case True
      from ReplaceLatch_ok [of EXCLUSIVE "d + 1" S1 q] chk
      obtain t where t: "ReplaceLatch (d + 1) q EXCLUSIVE S1 = Some t"
         "latches (fst t) = (latches (fst S1))[d + 1 := q]"
         "smallest_unlk_idx (fst t) = smallest_unlk_idx (fst S1)" by auto
      have "latches (fst t) = latches (fst s) @ unnamed # q # rest"
        using t(2) lS1 d by (simp add: list_update_append)
      then show ?thesis using that [of t q] True chk t mS1 by simp
    next
      case False
      then show ?thesis using that [of "(fst S1, snd S1 @ [unlock q])" "SharedLatchPtr target"] lS1 mS1
        by simp
    qed
    have latu2: "Internal_Delete_latches L I sl i cd cu target d s3 =
                  (if \<not> merged \<or> \<not> und then
                    (case ReleaseLatch d EXCLUSIVE s2 of None \<Rightarrow> None
                     | Some s3 \<Rightarrow> ReleaseLatchFromParent d EXCLUSIVE s3)
                  else Some s2)"
      unfolding latu by (simp only: bal s2 option.case prod.case) simp
    have lenu: "length (sl'[bi := (fst (sl' ! (bi + 1)), left'), bi + 1 := (fst (sl' ! bi), right')])
                  = length sl'" by simp
    have fl: "deleted" "underflow = (merged \<and> und)" and n': "SharedLatchPtr n' = unnamed"
      using dat unfolding datu bal und_def
      by (auto simp: Internal_DeleteIndex_def split: if_splits prod.splits)
    show ?thesis
    proof (cases "\<not> merged \<or> \<not> und")
      case True
      from release_both [of s2 "latches (fst s)" unnamed "q' # rest"] l2 m2 le d
      obtain s' where s': "(case ReleaseLatch d EXCLUSIVE s2 of None \<Rightarrow> None
                | Some s3 \<Rightarrow> ReleaseLatchFromParent d EXCLUSIVE s3) = Some s'"
            "latches (fst s') = latches (fst s2)"
            "smallest_unlk_idx (fst s') = length (latches (fst s'))"
        by auto
      have "latched s unnamed True s'" using s'(2,3) l2 by (simp add: latched_def)
      moreover have "Internal_Delete_latches L I sl i cd cu target d s3 = Some s'"
        using latu2 True s'(1) by simp
      ultimately show ?thesis using fl True n' by auto
    next
      case False
      then have "und" by simp
      then have "\<not> (int (length sl) - 1 \<ge> int (UNDERFLOW_BOUND I))"
        using len by (auto simp: und_def Internal_DeleteIndex_def)
      then have "smallest_unlk_idx (fst s2) = smallest_unlk_idx (fst s)" using m2 m3' by simp
      then have "latched s unnamed False s2" using l2 by (simp add: latched_def)
      moreover have "Internal_Delete_latches L I sl i cd cu target d s3 = Some s2"
        using latu2 False by simp
      ultimately show ?thesis using fl False n' by auto
    qed
  qed
qed

lemma Delete_latches_ok:
  "1 \<le> I \<Longrightarrow> Delete L I key n = Some (deleted, underflow, n') \<Longrightarrow> ctx_ok s
     \<Longrightarrow> \<exists>s'. Delete_latches L I key n s = Some s'
            \<and> latched s (SharedLatchPtr n) (\<not> deleted \<or> \<not> underflow) s'
            \<and> SharedLatchPtr n' = SharedLatchPtr n"
proof (induction L I key n arbitrary: deleted underflow n' s rule: Delete.induct)
  case (1 L I key a es rs)
  then show ?case using Leaf_Delete_latches_ok [of L key a es rs deleted underflow n' s] by simp
next
  case (2 L I key sl)
  define i where "i = SearchChildIndex sl key"
  define c where "c = snd (sl ! i)"
  define d where "d = length (latches (fst s))"
  define safe where "safe = (int (length sl) - 1 \<ge> int (UNDERFLOW_BOUND I))"
  define S1 where "S1 = ((fst s)\<lparr>latches := latches (fst s) @ [unnamed]\<rparr>, snd s @ lock_as EXCLUSIVE unnamed)"
  have a: "SearchChildIndex sl key < length sl" using 2(3) by (auto split: if_splits)
  obtain cd cu target where ch: "Delete L I key c = Some (cd, cu, target)"
    and dat: "Internal_Delete_rebalance L I sl i cd cu target = Some (deleted, underflow, n')"
    using 2(3) a unfolding i_def c_def by (auto split: option.splits)
  from enter_node [OF 2(4), of EXCLUSIVE safe unnamed]
  obtain s2 where e: "(if safe then ReleaseLatch d EXCLUSIVE S1 else Some S1) = Some s2"
    and l2: "latches (fst s2) = latches (fst s) @ [unnamed]"
    and m2: "smallest_unlk_idx (fst s2) = (if safe then d else smallest_unlk_idx (fst s))"
    unfolding d_def S1_def by auto
  have ok2: "ctx_ok s2" using l2 m2 2(4) by (auto simp: ctx_ok_def d_def)
  from 2(1) [OF a, folded i_def, folded c_def, OF 2(2) ch ok2]
  obtain s3 where s3: "Delete_latches L I key c s2 = Some s3"
     and la: "latched s2 (SharedLatchPtr c) (\<not> cd \<or> \<not> cu) s3"
     and ptr: "SharedLatchPtr target = SharedLatchPtr c" by blast
  obtain rest where l3: "latches (fst s3) = latches (fst s) @ unnamed # SharedLatchPtr target # rest"
    using la l2 ptr by (auto simp: latched_def)
  have m3: "smallest_unlk_idx (fst s3) =
               (if \<not> cd \<or> \<not> cu then length (latches (fst s3))
                else if int (length sl) - 1 \<ge> int (UNDERFLOW_BOUND I) then d
                else smallest_unlk_idx (fst s))"
    using la m2 by (auto simp: latched_def safe_def)
  have u1: "Delete_latches L I key (InternalNode sl) s =
       (case (if safe then ReleaseLatch d EXCLUSIVE S1 else Some S1) of None \<Rightarrow> None
        | Some s2 \<Rightarrow>
           (case Delete_latches L I key c s2 of None \<Rightarrow> None
            | Some s3 \<Rightarrow>
               (case Delete L I key c of None \<Rightarrow> None
                | Some (deleted, underflow, target) \<Rightarrow>
                    Internal_Delete_latches L I sl i deleted underflow target d s3)))"
    unfolding i_def c_def d_def S1_def safe_def Delete_latches.simps AcquireLatch_eq SharedLatchPtr.simps
      prod.case
    using a by (simp only: if_True)
  have u2: "Delete_latches L I key (InternalNode sl) s = Internal_Delete_latches L I sl i cd cu target d s3"
    by (simp only: u1 e s3 ch option.case prod.case)
  from Internal_Delete_latches_ok [OF dat 2(2) 2(4) d_def l3 m3]
  show ?case unfolding u2 by simp
qed

subsection \<open>The latch calls of a delete that finds nothing\<close>

lemma Delete_absent:
  "populated n \<Longrightarrow> key \<notin> keys_of n \<Longrightarrow> Delete L I key n = Some (False, False, n)"
proof (induction L I key n rule: Delete.induct)
  case (1 L I key a es rs)
  obtain found p where sk: "SearchKeyIndex es key = (found, p)" by (cases "SearchKeyIndex es key")
  have "\<not> found"
  proof
    assume found
    then have "p < length es" "fst (es ! p) = key" using sk by (auto simp: SearchKeyIndex_def Let_def)
    then have "key \<in> fst ` set es" using nth_mem [of p es] by (metis imageI)
    then show False using 1 by simp
  qed
  then show ?case using sk by (simp add: Leaf_Delete_def)
next
  case (2 L I key sl)
  define i where "i = SearchChildIndex sl key"
  have ne: "sl \<noteq> []" using 2(2) by auto
  have i: "i < length sl" using SearchChildIndex_lt [OF ne] by (simp add: i_def)
  have m: "(fst (sl ! i), snd (sl ! i)) \<in> set sl" using nth_mem [OF i] by simp
  then have p: "populated (snd (sl ! i))" using 2(2) by auto
  have k: "key \<notin> keys_of (snd (sl ! i))" using keys_of_nth [OF i] 2(3) by auto
  have "Delete L I key (snd (sl ! i)) = Some (False, False, snd (sl ! i))"
    using 2(1) [OF i [unfolded i_def]] p k by (simp add: i_def)
  moreover have "sl[i := (fst (sl ! i), snd (sl ! i))] = sl" by simp
  ultimately show ?case using i
    by (simp add: i_def [symmetric] Internal_Delete_rebalance_def)
qed

text \<open>
  A delete that finds nothing goes through the latch calls whatever the context holds:
  every release it makes is within the latches pushed so far.
\<close>

lemma enter_any:
  assumes "lt \<noteq> NONE"
  shows "\<exists>s2. (if safe
               then ReleaseLatch (length (latches (fst s))) lt
                      ((fst s)\<lparr>latches := latches (fst s) @ [p]\<rparr>, snd s @ lock_as lt p)
               else Some ((fst s)\<lparr>latches := latches (fst s) @ [p]\<rparr>, snd s @ lock_as lt p)) = Some s2
           \<and> latches (fst s2) = latches (fst s) @ [p]"
proof (cases safe)
  case True
  from ReleaseLatch_ok [OF assms, of "length (latches (fst s))"
         "((fst s)\<lparr>latches := latches (fst s) @ [p]\<rparr>, snd s @ lock_as lt p)"]
  show ?thesis using True by auto
next
  case False
  then show ?thesis by simp
qed

lemma Delete_latches_absent:
  "populated n \<Longrightarrow> key \<notin> keys_of n
     \<Longrightarrow> \<exists>s'. Delete_latches L I key n s = Some s'
            \<and> length (latches (fst s)) < length (latches (fst s'))"
proof (induction L I key n s rule: Delete_latches.induct)
  case (1 L I key a es rs s)
  define d where "d = length (latches (fst s))"
  define safe where "safe = (int (length es) - 1 \<ge> int (UNDERFLOW_BOUND L))"
  define S1 where "S1 = ((fst s)\<lparr>latches := latches (fst s) @ [a]\<rparr>, snd s @ lock_as EXCLUSIVE a)"
  from enter_any [of EXCLUSIVE safe s a]
  obtain s2 where e: "(if safe then ReleaseLatch d EXCLUSIVE S1 else Some S1) = Some s2"
    and l2: "latches (fst s2) = latches (fst s) @ [a]"
    unfolding d_def S1_def by auto
  have dat: "Leaf_Delete L key a es rs = Some (False, False, LeafNode a es rs)"
    using Delete_absent [OF 1, of L I] by simp
  have unf: "Leaf_Delete_latches L key a es rs s = ReleaseLatch (d + 1) EXCLUSIVE s2"
    unfolding Leaf_Delete_latches_def AcquireLatch_eq prod.case d_def [symmetric] S1_def [symmetric]
      safe_def [symmetric]
    by (simp only: e dat option.case prod.case) simp
  from ReleaseLatch_ok [of EXCLUSIVE "d + 1" s2]
  obtain s' where "ReleaseLatch (d + 1) EXCLUSIVE s2 = Some s'" "latches (fst s') = latches (fst s2)"
    using l2 by (auto simp: d_def)
  then show ?case using unf l2 by simp
next
  case (2 L I key sl s)
  define i where "i = SearchChildIndex sl key"
  define c where "c = snd (sl ! i)"
  define d where "d = length (latches (fst s))"
  define safe where "safe = (int (length sl) - 1 \<ge> int (UNDERFLOW_BOUND I))"
  define S1 where "S1 = ((fst s)\<lparr>latches := latches (fst s) @ [unnamed]\<rparr>, snd s @ lock_as EXCLUSIVE unnamed)"
  have ne: "sl \<noteq> []" using 2(2) by auto
  have i: "i < length sl" using SearchChildIndex_lt [OF ne] by (simp add: i_def)
  have a: "SearchChildIndex sl key < length sl" using i by (simp add: i_def)
  have "(fst (sl ! i), snd (sl ! i)) \<in> set sl" using nth_mem [OF i] by simp
  then have pc: "populated c" using 2(2) by (auto simp: c_def)
  have kc: "key \<notin> keys_of c" using keys_of_nth [OF i] 2(3) by (auto simp: c_def)
  from enter_any [of EXCLUSIVE safe s unnamed]
  obtain s2 where e: "(if safe then ReleaseLatch d EXCLUSIVE S1 else Some S1) = Some s2"
    and l2: "latches (fst s2) = latches (fst s) @ [unnamed]"
    unfolding d_def S1_def by auto
  have acq: "AcquireLatch (SharedLatchPtr (InternalNode sl)) EXCLUSIVE s = (d, S1)"
    by (simp add: AcquireLatch_eq d_def S1_def)
  from 2(1) [OF a acq [symmetric] e [unfolded safe_def], folded i_def, folded c_def, OF pc kc]
  obtain s3 where s3: "Delete_latches L I key c s2 = Some s3"
    and l3: "length (latches (fst s2)) < length (latches (fst s3))" by blast
  have ch: "Delete L I key c = Some (False, False, c)" by (rule Delete_absent [OF pc kc])
  have u1: "Delete_latches L I key (InternalNode sl) s =
       (case (if safe then ReleaseLatch d EXCLUSIVE S1 else Some S1) of None \<Rightarrow> None
        | Some s2 \<Rightarrow>
           (case Delete_latches L I key c s2 of None \<Rightarrow> None
            | Some s3 \<Rightarrow>
               (case Delete L I key c of None \<Rightarrow> None
                | Some (deleted, underflow, target) \<Rightarrow>
                    Internal_Delete_latches L I sl i deleted underflow target d s3)))"
    unfolding i_def c_def d_def S1_def safe_def Delete_latches.simps AcquireLatch_eq SharedLatchPtr.simps
      prod.case
    using a by (simp only: if_True)
  have u2: "Delete_latches L I key (InternalNode sl) s = Internal_Delete_latches L I sl i False False c d s3"
    by (simp only: u1 e s3 ch option.case prod.case)
  have u3: "Internal_Delete_latches L I sl i False False c d s3 = ReleaseLatch (d + 1) EXCLUSIVE s3"
    by (simp add: Internal_Delete_latches_def)
  from ReleaseLatch_ok [of EXCLUSIVE "d + 1" s3]
  obtain s' where "ReleaseLatch (d + 1) EXCLUSIVE s3 = Some s'" "latches (fst s') = latches (fst s3)"
    using l2 l3 by (auto simp: d_def)
  then show ?case using u2 u3 l2 l3 by simp
qed

lemma MemoryBTree_Delete_absent:
  assumes "populated (root t)" and "key \<notin> keys_of (root t)"
  shows "\<exists>s'. MemoryBTree_Delete L I key t s = Some (False, t, s')"
proof -
  define S1 where "S1 = ((fst s)\<lparr>latches := latches (fst s) @ [unnamed]\<rparr>, snd s @ lock_as EXCLUSIVE unnamed)"
  from Delete_latches_absent [OF assms, of L I S1]
  obtain s' where s': "Delete_latches L I key (root t) S1 = Some s'" by blast
  have "MemoryBTree_Delete L I key t s = Some (False, t, s')"
    unfolding MemoryBTree_Delete_def AcquireLatch_eq prod.case S1_def [symmetric]
    by (simp add: Delete_absent [OF assms] s')
  then show ?thesis by simp
qed

section \<open>Ordering for every capacity\<close>

text \<open>
  What an insert, a rebalancing and a delete hand back when they return, from a subtree
  that is ordered and whose leaves are within their capacity.  Nothing is asked of the
  capacities: a call that fails an assertion or leaves an array returns nothing.
\<close>

lemma Leaf_Insert_sound:
  assumes o: "ord lo (LeafNode a es rs) hi" and lo: "above lo key" and hi: "below key hi"
    and len: "length es \<le> L" and r: "Leaf_Insert L I key val a es rs fresh = Some (res, fresh')"
  shows "ins_sound L lo hi res \<and> map_of (res_entries res) = (map_of es)(key \<mapsto> val)"
proof (cases "2 \<le> L")
  case True
  from Leaf_Insert_inv [OF o lo hi len True, of I val fresh] show ?thesis
  proof (elim disjE exE conjE)
    fix es'
    assume "Leaf_Insert L I key val a es rs fresh = Some (NoSplit (LeafNode a es' rs), fresh)"
      "ord lo (LeafNode a es' rs) hi" "map_of es' = (map_of es)(key \<mapsto> val)"
      "length es \<le> length es'" "length es' \<le> L"
    then show ?thesis using r by auto
  next
    fix les rres b
    assume "Leaf_Insert L I key val a es rs fresh =
              Some (DidSplit (Split (LeafNode a les (Some fresh)) (LeafNode fresh rres rs) b), fresh + 1)"
      "ord lo (LeafNode a les (Some fresh)) (Some b)" "ord (Some b) (LeafNode fresh rres rs) hi"
      "map_of (les @ rres) = (map_of es)(key \<mapsto> val)"
      "L div 2 \<le> length les" "length les \<le> L" "L div 2 \<le> length rres" "length rres \<le> L"
    then show ?thesis using r by auto
  qed
next
  case False
  have sorted: "sorted_wrt (<) (map fst es)" using o by simp
  obtain found p where sk: "SearchKeyIndex es key = (found, p)" by (cases "SearchKeyIndex es key")
  note s = SearchKeyIndex_sorted [OF sorted sk]
  have lohi: "case hi of None \<Rightarrow> True | Some h \<Rightarrow> above lo h" using o by simp
  show ?thesis
  proof (cases es)
    case Nil
    then have p: "p = 0" "\<not> found" using s by auto
    have L: "L = 1"
    proof (rule ccontr)
      assume "L \<noteq> 1"
      then have "L = 0" using False by simp
      then have "Leaf_Insert L I key val a es rs fresh = None"
        using Nil sk p by (simp add: Leaf_Insert_def Leaf_ShiftAndInsert_def UNDERFLOW_BOUND_def)
      then show False using r by simp
    qed
    have "Leaf_Insert L I key val a es rs fresh = Some (NoSplit (LeafNode a [(key, val)] rs), fresh)"
      using Nil sk p L by (simp add: Leaf_Insert_def Leaf_ShiftAndInsert_def)
    then have "res = NoSplit (LeafNode a [(key, val)] rs)" using r by simp
    then show ?thesis using Nil lo hi lohi L by auto
  next
    case (Cons e es0)
    have "Suc (length es0) \<le> L" using Cons len by simp
    then have "length es0 = 0" and L: "L = 1" using False by linarith+
    then have es: "es = [e]" using Cons by simp
    obtain k v where e: "e = (k, v)" by (cases e)
    have inb: "above lo k" "below k hi" using o es e by auto
    consider (f) "found" | (l) "\<not> found" "p = 0" | (g) "\<not> found" "p = 1"
      using s es by (cases p) auto
    then show ?thesis
    proof cases
      case f
      then have "p = 0" "k = key" using s es e by auto
      then have "Leaf_Insert L I key val a es rs fresh = Some (NoSplit (LeafNode a [(key, val)] rs), fresh)"
        using sk f es e by (simp add: Leaf_Insert_def)
      then have "res = NoSplit (LeafNode a [(key, val)] rs)" using r by simp
      then show ?thesis using es e lo hi lohi L \<open>k = key\<close> by auto
    next
      case l
      then have "Leaf_Insert L I key val a es rs fresh = None"
        using sk es e L by (simp add: Leaf_Insert_def Leaf_ShiftAndInsert_def UNDERFLOW_BOUND_def)
      then show ?thesis using r by simp
    next
      case g
      then have kk: "k < key" using s es e by auto
      have "Leaf_Insert L I key val a es rs fresh =
          Some (DidSplit (Split (LeafNode a [(k, v)] (Some fresh)) (LeafNode fresh [(key, val)] rs) k), fresh + 1)"
        using sk g es e L
        by (simp add: Leaf_Insert_def Leaf_ShiftAndInsert_def UNDERFLOW_BOUND_def RIGHTMOST_KEY_def GetKey_def)
      then have res: "res = DidSplit (Split (LeafNode a [(k, v)] (Some fresh)) (LeafNode fresh [(key, val)] rs) k)"
        using r by simp
      have "case hi of None \<Rightarrow> True | Some h \<Rightarrow> k < h"
        using kk hi by (auto split: option.splits)
      then have "ord (Some k) (LeafNode fresh [(key, val)] rs) hi"
        using kk hi by (auto split: option.splits)
      moreover have "ord lo (LeafNode a [(k, v)] (Some fresh)) (Some k)" using inb by simp
      moreover have "map_of ([(k, v)] @ [(key, val)]) = (map_of es)(key \<mapsto> val)"
        using kk es e by auto
      ultimately show ?thesis using res L by simp
    qed
  qed
qed

lemma kids_take: "\<forall>(k, c) \<in> set sl. P c \<Longrightarrow> \<forall>(k, c) \<in> set (take n sl). P c"
  by (auto dest: in_set_takeD)

lemma kids_drop: "\<forall>(k, c) \<in> set sl. P c \<Longrightarrow> \<forall>(k, c) \<in> set (drop n sl). P c"
  by (auto dest: in_set_dropD)

lemma Insert_sound:
  "ord lo n hi \<Longrightarrow> above lo key \<Longrightarrow> below key hi \<Longrightarrow> fits L n
     \<Longrightarrow> Insert L I key val n fresh = Some (res, fresh')
     \<Longrightarrow> ins_sound L lo hi res
         \<and> map_of (res_entries res) = (map_of (entries_of n))(key \<mapsto> val)"
proof (induction L I key val n fresh arbitrary: lo hi res fresh' rule: Insert.induct)
  case (1 L I key val a es rs fresh)
  have len: "length es \<le> L" using 1(4) by simp
  have r: "Leaf_Insert L I key val a es rs fresh = Some (res, fresh')" using 1(5) by simp
  from Leaf_Insert_sound [OF 1(1,2,3) len r] show ?case by simp
next
  case (2 L I key val sl fresh)
  define i where "i = SearchChildIndex sl key"
  have os: "ord_slots lo sl hi" and ne: "sl \<noteq> []" using 2(2) by auto
  have kids: "\<forall>(k, c) \<in> set sl. fits L c" using 2(5) by simp
  note route = SearchChildIndex_route [OF os ne 2(3,4), folded i_def]
  then have i: "i < length sl" by simp
  define lo' where "lo' = upto_key lo (take i sl)"
  define hi' where "hi' = (if Suc i < length sl then Some (fst (sl ! i)) else hi)"
  define c where "c = snd (sl ! i)"
  define ki where "ki = fst (sl ! i)"
  define A where "A = entries_of (InternalNode (take i sl))"
  define C where "C = entries_of (InternalNode (drop (Suc i) sl))"
  have oc: "ord lo' c hi'" using ord_slots_child [OF os i] by (simp add: lo'_def hi'_def c_def)
  have fc: "fits L c"
  proof -
    have "(fst (sl ! i), snd (sl ! i)) \<in> set sl" using nth_mem [OF i] by simp
    with kids show ?thesis unfolding c_def by blast
  qed
  have a: "SearchChildIndex sl key < length sl" using i by (simp add: i_def)
  obtain cres where ins: "Insert L I key val c fresh = Some (cres, fresh')"
    and ab: "Internal_Insert_absorb I sl i cres = Some res"
    using 2(6) i by (auto simp: i_def c_def split: option.splits)
  have b: "above lo' key" "below key hi'" using route by (simp_all add: lo'_def hi'_def)
  note IH = 2(1) [OF a, folded i_def, folded c_def, OF oc b fc ins]
  then have ok: "ins_sound L lo' hi' cres"
    and mp: "map_of (res_entries cres) = (map_of (entries_of c))(key \<mapsto> val)" by blast+
  have sl_eq: "sl = take i sl @ (ki, c) # drop (Suc i) sl"
    using slots_split_at [OF i] by (simp add: ki_def c_def)
  have ent: "entries_of (InternalNode sl) = A @ entries_of c @ C"
    by (subst sl_eq) (simp add: A_def C_def)
  have notA: "key \<notin> fst ` set A"
    using prefix_keys_below [OF os i] route by (simp add: A_def keys_of_def)
  show ?case
  proof (cases cres)
    case (NoSplit c')
    let ?sl' = "take i sl @ (ki, c') # drop (Suc i) sl"
    have oc': "ord lo' c' hi'" and fc': "fits L c'" using ok NoSplit by auto
    have "ord_slots lo ?sl' hi"
      using ord_slots_replace [OF os i, of c'] oc' by (simp add: lo'_def hi'_def ki_def)
    then have o': "ord lo (InternalNode ?sl') hi" by simp
    have f': "fits L (InternalNode ?sl')"
      using kids fc' by (auto dest: in_set_takeD in_set_dropD)
    have "map_of (entries_of (InternalNode ?sl')) = (map_of (entries_of (InternalNode sl)))(key \<mapsto> val)"
      using map_of_update_middle [OF notA, of "entries_of c'" "entries_of c" val C] mp NoSplit
      by (simp add: ent A_def C_def)
    moreover have "res = NoSplit (InternalNode ?sl')"
      using ab NoSplit absorb_NoSplit [OF i, of I c'] by (simp add: ki_def)
    ultimately show ?thesis using o' f' by simp
  next
    case (DidSplit sp)
    obtain l r b where sp: "sp = Split l r b" by (cases sp)
    define sl' where "sl' = take i sl @ (b, l) # (ki, r) # drop (Suc i) sl"
    have lenI: "length sl \<le> I" using ab DidSplit by (auto dest: absorb_Some_len)
    have ol: "ord lo' l (Some b)" and orr: "ord (Some b) r hi'"
      and fl: "fits L l" and fr: "fits L r"
      using ok DidSplit sp by auto
    have os': "ord_slots lo sl' hi"
      using ord_slots_replace2 [OF os i, of l b r] ol orr by (simp add: lo'_def hi'_def ki_def sl'_def)
    have kids': "\<forall>(k, c) \<in> set sl'. fits L c"
      using kids fl fr by (auto simp: sl'_def dest: in_set_takeD in_set_dropD)
    have len': "length sl' = length sl + 1" using i by (simp add: sl'_def)
    have ne': "sl' \<noteq> []" by (simp add: sl'_def)
    have ent': "map_of (entries_of (InternalNode sl')) = (map_of (entries_of (InternalNode sl)))(key \<mapsto> val)"
      using map_of_update_middle [OF notA, of "entries_of l @ entries_of r" "entries_of c" val C] mp DidSplit sp
      by (simp add: ent A_def C_def sl'_def)
    show ?thesis
    proof (cases "length sl < I")
      case True
      have "res = NoSplit (InternalNode sl')"
        using ab DidSplit sp absorb_DidSplit [OF i lenI, of l r b] True by (simp add: ki_def sl'_def)
      moreover have "ord lo (InternalNode sl') hi" using os' ne' by simp
      ultimately show ?thesis using ent' kids' by simp
    next
      case False
      then have lenI1: "length sl' = I + 1" using lenI len' by simp
      have Ipos: "1 \<le> I" using False lenI ne by (cases sl) auto
      define B' where "B' = UNDERFLOW_BOUND (I + 1)"
      define lsl where "lsl = take B' sl'"
      define rsl where "rsl = drop B' sl'"
      define b' where "b' = fst (sl' ! (B' - 1))"
      have B': "0 < B'" "B' \<le> I"
        using Ipos by (auto simp: B'_def UNDERFLOW_BOUND_def)
      have lens: "length lsl = B'" "length rsl = I + 1 - B'"
        using lenI1 B' by (simp_all add: lsl_def rsl_def)
      have nel: "lsl \<noteq> []" and ner: "rsl \<noteq> []" using lens B' by auto
      have app: "lsl @ rsl = sl'" by (simp only: lsl_def rsl_def append_take_drop_id)
      have lastl: "fst (last lsl) = b'"
        using lens B' lenI1 nel
        by (simp add: last_conv_nth lsl_def b'_def)
      have "ord_slots lo (lsl @ rsl) hi" using os' app by simp
      then have "ord_slots lo lsl (Some b')" "ord_slots (Some b') rsl hi"
        using nel lastl by (simp_all add: ord_slots_append [OF ner] upto_key_def)
      then have ol': "ord lo (InternalNode lsl) (Some b')" and or': "ord (Some b') (InternalNode rsl) hi"
        using nel ner by simp_all
      have fk: "fits L (InternalNode lsl)" "fits L (InternalNode rsl)"
        using kids_take [OF kids', of B'] kids_drop [OF kids', of B']
        by (simp_all add: lsl_def rsl_def)
      have "entries_of (InternalNode lsl) @ entries_of (InternalNode rsl) = entries_of (InternalNode sl')"
        using entries_of_append [of lsl rsl] app by simp
      then have ent'': "map_of (entries_of (InternalNode lsl) @ entries_of (InternalNode rsl))
          = (map_of (entries_of (InternalNode sl)))(key \<mapsto> val)"
        using ent' by simp
      have "res = DidSplit (Split (InternalNode lsl) (InternalNode rsl) b')"
        using ab DidSplit sp absorb_DidSplit [OF i lenI, of l r b] False
        by (simp add: ki_def lsl_def rsl_def b'_def B'_def sl'_def)
      then show ?thesis using ol' or' fk ent'' by simp
    qed
  qed
qed

lemma rightmost_sound:
  assumes "ord lo c (Some k0)" and "RIGHTMOST_KEY L I c = Some k"
  shows "k \<le> k0 \<and> ord lo c (Some k)"
proof (cases c)
  case (LeafNode a es rs)
  have ne: "es \<noteq> []" using assms(2) LeafNode by (auto simp: RIGHTMOST_KEY_def split: if_splits)
  then obtain xs x where es: "es = xs @ [x]" by (cases es rule: rev_cases) auto
  have "k = fst x"
    using assms(2) LeafNode es by (auto simp: RIGHTMOST_KEY_def GetKey_def nth_append split: if_splits)
  moreover have "fst x \<le> k0" using assms(1) LeafNode es by simp
  moreover have "ord lo c (Some (fst x))"
    using assms(1) LeafNode es by (auto simp: sorted_wrt_append)
  ultimately show ?thesis by blast
next
  case (InternalNode sl)
  have ne: "sl \<noteq> []" and os: "ord_slots lo sl (Some k0)" using assms(1) InternalNode by auto
  then obtain xs x where sl: "sl = xs @ [x]" by (cases sl rule: rev_cases) auto
  have "k = fst (last sl)"
    using assms(2) InternalNode sl by (auto simp: RIGHTMOST_KEY_def GetKey_def nth_append split: if_splits)
  then have "k = k0" using ord_slots_last_key [OF os ne] by simp
  then show ?thesis using assms(1) by simp
qed

lemma Leaf_Balance_sound:
  assumes ol: "ord lo (LeafNode a es rs) (Some b0)" and orr: "ord (Some b0) (LeafNode a2 es2 rs2) hi"
    and f1: "length es \<le> L" and f2: "length es2 \<le> L"
    and r: "Leaf_Balance L I a es rs a2 es2 rs2 b0 = Some res"
  shows "bal_sound L lo hi (LeafNode a es rs) (LeafNode a2 es2 rs2) res"
proof -
  consider (bright) "length es < UNDERFLOW_BOUND L" "UNDERFLOW_BOUND L < length es2"
    | (bleft) "UNDERFLOW_BOUND L < length es" "length es2 < UNDERFLOW_BOUND L"
    | (merge) "\<not> (length es < UNDERFLOW_BOUND L \<and> UNDERFLOW_BOUND L < length es2)"
              "\<not> (UNDERFLOW_BOUND L < length es \<and> length es2 < UNDERFLOW_BOUND L)"
    by blast
  then show ?thesis
  proof cases
    case bright
    obtain e0 e1 t where es2: "es2 = e0 # e1 # t"
      using bright by (cases es2; cases "tl es2") auto
    have res: "res = (False, LeafNode a (es @ [e0]) rs, LeafNode a2 (e1 # t) rs2, fst e0)"
      and lt: "length es < L"
      using r bright es2
      by (auto simp: Leaf_Balance_def LEFTMOST_KEY_def GetKey_def Leaf_ShiftAndInsert_def
            Leaf_DeleteIndex_def split: if_splits option.splits)
    have o1: "ord lo (LeafNode a (es @ [e0]) rs) (Some (fst e0))"
      using ol orr es2 by (auto simp: sorted_wrt_append above_def split: option.splits)
    have o2: "ord (Some (fst e0)) (LeafNode a2 (e1 # t) rs2) hi"
      using orr es2 by (auto simp: below_def split: option.splits)
    show ?thesis unfolding bal_sound_def res using o1 o2 lt f2 es2 by (simp del: ord.simps)
  next
    case bleft
    obtain xs y x where es: "es = (xs @ [y]) @ [x]"
      using bleft by (cases es rule: rev_cases; cases "butlast es" rule: rev_cases) auto
    have res: "res = (False, LeafNode a (xs @ [y]) rs, LeafNode a2 (x # es2) rs2, fst y)"
      and lt: "length es2 < L"
      using r bleft es
      by (auto simp: Leaf_Balance_def RIGHTMOST_KEY_def GetKey_def Leaf_ShiftAndInsert_def
            Leaf_DeleteIndex_def nth_append split: if_splits option.splits)
    have o1: "ord lo (LeafNode a (xs @ [y]) rs) (Some (fst y))"
      using ol es by (auto simp: sorted_wrt_append)
    have o2: "ord (Some (fst y)) (LeafNode a2 (x # es2) rs2) hi"
      using ol orr es by (auto simp: sorted_wrt_append below_def split: option.splits)
    show ?thesis unfolding bal_sound_def res using o1 o2 lt f1 es by (simp del: ord.simps)
  next
    case merge
    obtain b where res: "res = (True, LeafNode a (es @ es2) rs2, LeafNode a2 es2 rs2, b)"
      and sum: "length es + length es2 \<le> L"
      using r merge by (auto simp: Leaf_Balance_def split: if_splits option.splits)
    have cross: "\<forall>x \<in> set es. \<forall>y \<in> set es2. fst x < fst y"
    proof (intro ballI)
      fix x y assume "x \<in> set es" "y \<in> set es2"
      then have "fst x \<le> b0" "b0 < fst y" using ol orr by auto
      then show "fst x < fst y" by simp
    qed
    have up: "\<forall>x \<in> set es. below (fst x) hi"
    proof
      fix x assume "x \<in> set es"
      then have "fst x \<le> b0" using ol by auto
      moreover have "case hi of None \<Rightarrow> True | Some h \<Rightarrow> b0 < h" using orr by (auto split: option.splits)
      ultimately show "below (fst x) hi" by (auto simp: below_def split: option.splits)
    qed
    have dn: "\<forall>y \<in> set es2. above lo (fst y)"
    proof
      fix y assume "y \<in> set es2"
      then have "b0 < fst y" using orr by auto
      moreover have "above lo b0" using ol by simp
      ultimately show "above lo (fst y)" by (auto simp: above_def split: option.splits)
    qed
    have hh: "case hi of None \<Rightarrow> True | Some h \<Rightarrow> above lo h"
    proof (cases hi)
      case None then show ?thesis by simp
    next
      case (Some h)
      then have "b0 < h" using orr by simp
      moreover have "above lo b0" using ol by simp
      ultimately show ?thesis using Some by (auto simp: above_def split: option.splits)
    qed
    have o: "ord lo (LeafNode a (es @ es2) rs2) hi"
      using ol orr cross up dn hh by (auto simp: sorted_wrt_append)
    have "merge_step ([] @ (a, (), rs) # (a2, (), rs2) # []) ([] @ (a, (), rs2) # [])"
      unfolding merge_step_def by blast
    then have "merge_step\<^sup>*\<^sup>* [(a, (), rs), (a2, (), rs2)] [(a, (), rs2)]" by simp
    then show ?thesis unfolding bal_sound_def res using o sum by (simp del: ord.simps)
  qed
qed

lemma Internal_Balance_sound:
  assumes ol: "ord lo (InternalNode sl) (Some b0)" and orr: "ord (Some b0) (InternalNode sl2) hi"
    and k1: "\<forall>(k, c) \<in> set sl. fits L c" and k2: "\<forall>(k, c) \<in> set sl2. fits L c"
    and r: "Internal_Balance L I sl sl2 b0 = Some res"
  shows "bal_sound L lo hi (InternalNode sl) (InternalNode sl2) res"
proof -
  have ne: "sl \<noteq> []" "sl2 \<noteq> []" using ol orr by auto
  have os: "ord_slots lo sl (Some b0)" and os2: "ord_slots (Some b0) sl2 hi" using ol orr by auto
  have lastk: "fst (last sl) = b0" using ord_slots_last_key [OF os ne(1)] .
  have up: "upto_key x sl = Some b0" for x using ne(1) lastk by (simp add: upto_key_def)
  consider (bright) "length sl < UNDERFLOW_BOUND I" "UNDERFLOW_BOUND I < length sl2"
    | (bleft) "UNDERFLOW_BOUND I < length sl" "length sl2 < UNDERFLOW_BOUND I"
    | (merge) "\<not> (length sl < UNDERFLOW_BOUND I \<and> UNDERFLOW_BOUND I < length sl2)"
              "\<not> (UNDERFLOW_BOUND I < length sl \<and> length sl2 < UNDERFLOW_BOUND I)"
    by blast
  then show ?thesis
  proof cases
    case bright
    obtain k0 c0 s1 rest where sl2: "sl2 = (k0, c0) # s1 # rest"
      using bright ne by (cases sl2; cases "tl sl2") auto
    obtain k where k: "RIGHTMOST_KEY L I c0 = Some k"
      and res: "res = (False, InternalNode (sl @ [(k, c0)]), InternalNode (s1 # rest), k)"
      using r bright sl2
      by (auto simp: Internal_Balance_def Internal_DeleteIndex_def split: if_splits option.splits)
    have oc0: "ord (Some b0) c0 (Some k0)" and orest: "ord_slots (Some k0) (s1 # rest) hi"
      using os2 sl2 by (auto simp del: ord.simps)
    from rightmost_sound [OF oc0 k] have kk: "k \<le> k0" "ord (Some b0) c0 (Some k)" by simp_all
    have o1: "ord lo (InternalNode (sl @ [(k, c0)])) (Some k)"
    proof -
      have "ord_slots lo sl (upto_key None sl)" using os up by simp
      moreover have "ord_slots (upto_key lo sl) [(k, c0)] (Some k)" using kk(2) up by (simp del: ord.simps)
      ultimately have "ord_slots lo (sl @ [(k, c0)]) (Some k)"
        by (simp add: ord_slots_append del: ord_slots.simps)
      then show ?thesis by simp
    qed
    have o2: "ord (Some k) (InternalNode (s1 # rest)) hi"
      using ord_slots_lower [OF orest kk(1)] by simp
    have f: "fits L (InternalNode (sl @ [(k, c0)]))" "fits L (InternalNode (s1 # rest))"
      using k1 k2 sl2 by auto
    show ?thesis unfolding bal_sound_def res using o1 o2 f sl2 by (simp del: ord.simps fits.simps)
  next
    case bleft
    obtain pre kl cl where sl: "sl = pre @ [(kl, cl)]"
      using ne(1) by (cases sl rule: rev_cases) auto
    have kl: "kl = b0" using lastk sl by simp
    obtain b where b: "RIGHTMOST_KEY L I (InternalNode pre) = Some b"
      and res: "res = (False, InternalNode pre, InternalNode ((b0, cl) # sl2), b)"
      using r bleft sl
      by (auto simp: Internal_Balance_def Internal_ShiftAndInsert_def OVERFLOW_SIZE_def
            split: if_splits option.splits)
    have pre: "pre \<noteq> []" using b by (auto simp: RIGHTMOST_KEY_def split: if_splits)
    then obtain ps p where pp: "pre = ps @ [p]" by (cases pre rule: rev_cases) auto
    have bl: "b = fst (last pre)"
      using b pp by (auto simp: RIGHTMOST_KEY_def GetKey_def nth_append split: if_splits)
    have "ord_slots lo (pre @ [(kl, cl)]) (Some b0)" using os sl by simp
    then have a: "ord_slots lo pre (upto_key None pre)" "ord (upto_key lo pre) cl (Some b0)"
      by (simp_all add: ord_slots_append del: ord.simps)
    have upre: "upto_key x pre = Some (fst (last pre))" for x using pre by (simp add: upto_key_def)
    have o1: "ord lo (InternalNode pre) (Some b)"
      using a(1) pre upre bl by simp
    have o2: "ord (Some b) (InternalNode ((b0, cl) # sl2)) hi"
      using a(2) os2 ne(2) upre bl by (simp del: ord.simps) simp
    have f: "fits L (InternalNode pre)" "fits L (InternalNode ((b0, cl) # sl2))"
      using k1 k2 sl by auto
    show ?thesis unfolding bal_sound_def res using o1 o2 f sl kl by (simp del: ord.simps fits.simps)
  next
    case merge
    have res: "res = (True, InternalNode (sl @ sl2), InternalNode sl2, b0)"
      using r merge by (auto simp: Internal_Balance_def split: if_splits)
    have "ord_slots lo sl (upto_key None sl)" using os up by simp
    moreover have "ord_slots (upto_key lo sl) sl2 hi" using os2 up by simp
    ultimately have "ord_slots lo (sl @ sl2) hi"
      using ne(2) by (simp add: ord_slots_append del: ord_slots.simps)
    then have o: "ord lo (InternalNode (sl @ sl2)) hi" using ne by simp
    have f: "fits L (InternalNode (sl @ sl2))" using k1 k2 by auto
    show ?thesis unfolding bal_sound_def res using o f by (simp del: ord.simps fits.simps)
  qed
qed

lemma Balance_sound:
  assumes "ord lo l (Some b0)" and "ord (Some b0) r hi" and "fits L l" and "fits L r"
    and "Balance L I l r b0 = Some res"
  shows "bal_sound L lo hi l r res"
proof (cases l)
  case l: (LeafNode a es rs)
  then obtain a2 es2 rs2 where r: "r = LeafNode a2 es2 rs2" using assms(5) by (cases r) auto
  show ?thesis
    using Leaf_Balance_sound [OF assms(1) [unfolded l] assms(2) [unfolded r], of L I res] assms(3,4,5) l r
    by simp
next
  case l: (InternalNode sl1)
  then obtain sl2 where r: "r = InternalNode sl2" using assms(5) by (cases r) auto
  show ?thesis
    using Internal_Balance_sound [OF assms(1) [unfolded l] assms(2) [unfolded r], of L I res] assms(3,4,5) l r
    by simp
qed

lemma Leaf_Delete_sound:
  assumes o: "ord lo (LeafNode a es rs) hi" and len: "length es \<le> L"
    and r: "Leaf_Delete L key a es rs = Some res"
  shows "del_sound L lo hi key (LeafNode a es rs) res"
proof -
  have sorted: "sorted_wrt (<) (map fst es)" using o by simp
  obtain found p where sk: "SearchKeyIndex es key = (found, p)" by (cases "SearchKeyIndex es key")
  note s = SearchKeyIndex_sorted [OF sorted sk]
  show ?thesis
  proof (cases found)
    case False
    have "key \<notin> fst ` set es"
    proof
      assume "key \<in> fst ` set es"
      moreover have "set es = set (take p es) \<union> set (drop p es)"
        by (metis append_take_drop_id set_append)
      ultimately show False using s False by auto
    qed
    moreover have "res = (False, False, LeafNode a es rs)"
      using r sk False by (simp add: Leaf_Delete_def)
    ultimately show ?thesis
      unfolding del_sound_def using o len by (simp add: filter_absent del: ord.simps)
  next
    case True
    then have p: "p < length es" "fst (es ! p) = key"
      and lo': "\<forall>x \<in> set (take p es). fst x < key" and hi': "\<forall>y \<in> set (drop (Suc p) es). key < fst y"
      using s by auto
    define es' where "es' = take p es @ drop (Suc p) es"
    define u where "u = (length es - 1 < UNDERFLOW_BOUND L)"
    have es: "es = take p es @ es ! p # drop (Suc p) es" using id_take_nth_drop [OF p(1)] .
    have res: "res = (True, u, LeafNode a es' rs)"
      using r sk True p by (simp add: Leaf_Delete_def Leaf_DeleteIndex_def es'_def u_def)
    have len': "length es' = length es - 1" using p by (simp add: es'_def)
    have "filter (\<lambda>e. fst e \<noteq> key) es
        = filter (\<lambda>e. fst e \<noteq> key) (take p es) @ filter (\<lambda>e. fst e \<noteq> key) [es ! p]
          @ filter (\<lambda>e. fst e \<noteq> key) (drop (Suc p) es)"
      by (subst es) simp
    moreover have "filter (\<lambda>e. fst e \<noteq> key) (take p es) = take p es"
      using lo' by (intro filter_absent) auto
    moreover have "filter (\<lambda>e. fst e \<noteq> key) (drop (Suc p) es) = drop (Suc p) es"
      using hi' by (intro filter_absent) auto
    ultimately have f: "filter (\<lambda>e. fst e \<noteq> key) es = es'" using p(2) by (simp add: es'_def)
    have "sorted_wrt (<) (map fst (take p es @ es ! p # drop (Suc p) es))" using sorted es by simp
    then have so': "sorted_wrt (<) (map fst es')" by (auto simp: es'_def sorted_wrt_append)
    have "set es' \<subseteq> set es" by (auto simp: es'_def dest: in_set_takeD in_set_dropD)
    then have o': "ord lo (LeafNode a es' rs) hi" using o so' by auto
    have mem: "key \<in> fst ` set es" using p nth_mem [OF p(1)] by (metis imageI)
    show ?thesis
      unfolding del_sound_def res using o' f mem len len'
      by (auto simp del: ord.simps)
  qed
qed

lemma Delete_sound:
  "ord lo n hi \<Longrightarrow> above lo key \<Longrightarrow> below key hi \<Longrightarrow> fits L n
     \<Longrightarrow> Delete L I key n = Some res \<Longrightarrow> del_sound L lo hi key n res"
proof (induction L I key n arbitrary: lo hi res rule: Delete.induct)
  case (1 L I key a es rs)
  have len: "length es \<le> L" using 1(4) by simp
  have r: "Leaf_Delete L key a es rs = Some res" using 1(5) by simp
  from Leaf_Delete_sound [OF 1(1) len r] show ?case .
next
  case (2 L I key sl0)
  define i where "i = SearchChildIndex sl0 key"
  define c where "c = snd (sl0 ! i)"
  define ki where "ki = fst (sl0 ! i)"
  define lo' where "lo' = upto_key lo (take i sl0)"
  define hi' where "hi' = (if Suc i < length sl0 then Some (fst (sl0 ! i)) else hi)"
  define f where "f = (\<lambda>e::'a \<times> 'b. fst e \<noteq> key)"
  have os: "ord_slots lo sl0 hi" and ne: "sl0 \<noteq> []" using 2(2) by auto
  have kids: "\<forall>(k, c) \<in> set sl0. fits L c" using 2(5) by simp
  note route = SearchChildIndex_route [OF os ne 2(3,4), folded i_def]
  then have i: "i < length sl0" by simp
  have a: "SearchChildIndex sl0 key < length sl0" using i by (simp add: i_def)
  have oc: "ord lo' c hi'" using ord_slots_child [OF os i] by (simp add: lo'_def hi'_def c_def)
  have b: "above lo' key" "below key hi'" using route by (simp_all add: lo'_def hi'_def)
  have mem: "(ki, c) \<in> set sl0" using nth_mem [OF i] by (simp add: ki_def c_def)
  have fc: "fits L c" using kid_shape [OF kids mem] .
  have unfold: "Delete L I key (InternalNode sl0) =
      (case Delete L I key c of None \<Rightarrow> None
       | Some (deleted, underflow, target) \<Rightarrow> Internal_Delete_rebalance L I sl0 i deleted underflow target)"
    unfolding i_def c_def using a by simp
  obtain deleted underflow c' where ch: "Delete L I key c = Some (deleted, underflow, c')"
    and rb: "Internal_Delete_rebalance L I sl0 i deleted underflow c' = Some res"
    using 2(6) unfold by (auto split: option.splits)
  note IH = 2(1) [OF a, folded i_def, folded c_def, OF oc b fc ch]
  then have oc': "ord lo' c' hi'" and fc': "fits L c'"
    and ec': "entries_of c' = filter f (entries_of c)"
    and dl: "deleted = (key \<in> keys_of c)"
    and lk: "merge_step\<^sup>*\<^sup>* (links c) (links c')"
    unfolding del_sound_def f_def by simp_all
  define sl where "sl = take i sl0 @ (ki, c') # drop (Suc i) sl0"
  have sl_upd: "sl0[i := (fst (sl0 ! i), c')] = sl"
    using i by (simp add: sl_def ki_def upd_conv_take_nth_drop)
  have len_sl: "length sl = length sl0" using i by (simp add: sl_def)
  have osl: "ord_slots lo sl hi"
    using ord_slots_replace [OF os i, of c'] oc' by (simp add: lo'_def hi'_def ki_def sl_def)
  have notA: "key \<notin> keys_of (InternalNode (take i sl0))"
    and notC: "key \<notin> keys_of (InternalNode (drop (Suc i) sl0))"
    using route_entries [OF os ne 2(3,4)] by (simp_all add: i_def)
  have ent0: "entries_of (InternalNode sl0)
      = entries_of (InternalNode (take i sl0)) @ entries_of c @ entries_of (InternalNode (drop (Suc i) sl0))"
    using entries_split_at [OF i] by (simp add: c_def)
  have ent_sl: "entries_of (InternalNode sl) = filter f (entries_of (InternalNode sl0))"
  proof -
    have "filter f (entries_of (InternalNode (take i sl0))) = entries_of (InternalNode (take i sl0))"
      "filter f (entries_of (InternalNode (drop (Suc i) sl0))) = entries_of (InternalNode (drop (Suc i) sl0))"
      unfolding f_def using notA notC by (simp_all add: filter_absent keys_of_def)
    then show ?thesis using ec' by (simp add: ent0 sl_def)
  qed
  have keys0: "(key \<in> keys_of (InternalNode sl0)) = deleted"
    using notA notC dl by (auto simp: ent0 keys_of_def)
  have ln0: "links (InternalNode sl0)
      = links (InternalNode (take i sl0)) @ links c @ links (InternalNode (drop (Suc i) sl0))"
    using links_split_at [OF i] by (simp add: c_def)
  have lk_sl: "merge_step\<^sup>*\<^sup>* (links (InternalNode sl0)) (links (InternalNode sl))"
    using merge_steps_ctx [OF lk] by (simp add: ln0 sl_def)
  have kids_rest: "\<forall>(k, x) \<in> set (take i sl0) \<union> set (drop (Suc i) sl0). fits L x"
    using kids by (auto dest: in_set_takeD in_set_dropD)
  have fsl: "fits L (InternalNode sl)" using kids_rest fc' by (auto simp: sl_def)
  show ?case
  proof (cases "deleted \<and> underflow \<and> \<not> length sl0 \<le> 1")
    case False
    then have "\<exists>u. res = (deleted, u, InternalNode sl)"
      using rb sl_upd len_sl by (auto simp: Internal_Delete_rebalance_def split: if_splits)
    then obtain u where res: "res = (deleted, u, InternalNode sl)" by blast
    show ?thesis
      unfolding del_sound_def res using osl fsl ent_sl keys0 lk_sl
      by (simp add: f_def sl_def del: fits.simps)
  next
    case True
    then have del: "deleted" and und: "underflow" and len2: "2 \<le> length sl0" by simp_all
    have dec: "\<exists>P k1 x1 k2 x2 Q. sl = P @ (k1, x1) # (k2, x2) # Q
        \<and> ((i = 0 \<and> P = [] \<and> x1 = c') \<or> (i = length P + 1 \<and> x2 = c'))"
    proof (cases "i = 0")
      case True
      obtain k2 c2 Q where d: "drop (Suc 0) sl0 = (k2, c2) # Q"
        using len2 by (cases "drop (Suc 0) sl0") auto
      have "sl = [] @ (ki, c') # (k2, c2) # Q" using True d by (simp add: sl_def)
      then show ?thesis using True by blast
    next
      case False
      then have "take i sl0 \<noteq> []" using i by auto
      then obtain P k1 c1 where t: "take i sl0 = P @ [(k1, c1)]"
        by (cases "take i sl0" rule: rev_cases) auto
      have lp: "i = length P + 1" using arg_cong [OF t, of length] i by simp
      have "sl = P @ (k1, c1) # (ki, c') # drop (Suc i) sl0" using t by (simp add: sl_def)
      then show ?thesis using lp by blast
    qed
    then obtain P k1 x1 k2 x2 Q where sl_dec: "sl = P @ (k1, x1) # (k2, x2) # Q"
      and pos: "(i = 0 \<and> P = [] \<and> x1 = c') \<or> (i = length P + 1 \<and> x2 = c')"
      by blast
    have fx: "fits L x1" "fits L x2" and kPQ: "\<forall>(k, x) \<in> set P \<union> set Q. fits L x"
      using fsl by (auto simp: sl_dec)
    define lo1 where "lo1 = upto_key lo P"
    define hi2 where "hi2 = (if Q = [] then hi else Some k2)"
    have around: "ord_slots lo P (upto_key None P)" "ord lo1 x1 (Some k1)" "ord (Some k1) x2 hi2"
      "Q = [] \<longrightarrow> (case hi of None \<Rightarrow> True | Some h \<Rightarrow> k2 = h)" "Q \<noteq> [] \<longrightarrow> ord_slots (Some k2) Q hi"
      using osl unfolding sl_dec ord_slots_around2 lo1_def hi2_def by blast+
    have ev: "Some res =
       (case Balance L I x1 x2 k1 of
          None \<Rightarrow> None
        | Some (merged, l', r', b') \<Rightarrow>
            if \<not> merged then Some (True, False, InternalNode (P @ (b', l') # (k2, r') # Q))
            else Some (True, length sl0 - 1 < UNDERFLOW_BOUND I, InternalNode (P @ (k2, l') # Q)))"
      using rb del und rebalance_eval [OF sl_upd [unfolded sl_dec] pos, of L I] by simp
    then obtain merged l' r' b' where bal: "Balance L I x1 x2 k1 = Some (merged, l', r', b')"
      by (cases "Balance L I x1 x2 k1") auto
    note bok = Balance_sound [OF around(2,3) fx bal]
    have ent_dec: "entries_of (InternalNode sl)
        = entries_of (InternalNode P) @ (entries_of x1 @ entries_of x2) @ entries_of (InternalNode Q)"
      by (simp add: sl_dec)
    have ln_dec: "links (InternalNode sl)
        = links (InternalNode P) @ (links x1 @ links x2) @ links (InternalNode Q)"
      by (simp add: sl_dec)
    show ?thesis
    proof (cases merged)
      case False
      define sl' where "sl' = P @ (b', l') # (k2, r') # Q"
      have bo: "ord lo1 l' (Some b')" "ord (Some b') r' hi2" "fits L l'" "fits L r'"
        "entries_of l' @ entries_of r' = entries_of x1 @ entries_of x2"
        "links l' @ links r' = links x1 @ links x2"
        using bok False unfolding bal_sound_def by simp_all
      have res: "res = (True, False, InternalNode sl')"
        using ev bal False by (simp add: sl'_def)
      have "ord_slots lo sl' hi"
        unfolding sl'_def ord_slots_around2 using around bo(1,2) by (simp add: lo1_def hi2_def)
      then have o': "ord lo (InternalNode sl') hi" by (simp add: sl'_def)
      have f': "fits L (InternalNode sl')" using kPQ bo(3,4) by (auto simp: sl'_def)
      have "entries_of (InternalNode sl')
          = entries_of (InternalNode P) @ (entries_of l' @ entries_of r') @ entries_of (InternalNode Q)"
        by (simp add: sl'_def)
      then have "entries_of (InternalNode sl') = entries_of (InternalNode sl)"
        by (simp only: bo(5) ent_dec)
      then have e': "entries_of (InternalNode sl') = filter f (entries_of (InternalNode sl0))"
        using ent_sl by simp
      have "links (InternalNode sl')
          = links (InternalNode P) @ (links l' @ links r') @ links (InternalNode Q)"
        by (simp add: sl'_def)
      then have "links (InternalNode sl') = links (InternalNode sl)"
        by (simp only: bo(6) ln_dec)
      then have l': "merge_step\<^sup>*\<^sup>* (links (InternalNode sl0)) (links (InternalNode sl'))"
        using lk_sl by simp
      show ?thesis
        unfolding del_sound_def res using o' f' e' keys0 del l'
        by (simp add: f_def del: fits.simps ord.simps)
    next
      case True
      define sl' where "sl' = P @ (k2, l') # Q"
      define u where "u = (length sl0 - 1 < UNDERFLOW_BOUND I)"
      have bo: "ord lo1 l' hi2" "fits L l'"
        "entries_of l' = entries_of x1 @ entries_of x2"
        "merge_step\<^sup>*\<^sup>* (links x1 @ links x2) (links l')"
        using bok True unfolding bal_sound_def by simp_all
      have res: "res = (True, u, InternalNode sl')"
        using ev bal True by (simp add: sl'_def u_def)
      have "ord_slots lo sl' hi"
        unfolding sl'_def ord_slots_around using around bo(1) by (simp add: lo1_def hi2_def)
      then have o': "ord lo (InternalNode sl') hi" by (simp add: sl'_def)
      have f': "fits L (InternalNode sl')" using kPQ bo(2) by (auto simp: sl'_def)
      have "entries_of (InternalNode sl')
          = entries_of (InternalNode P) @ entries_of l' @ entries_of (InternalNode Q)"
        by (simp add: sl'_def)
      then have "entries_of (InternalNode sl') = entries_of (InternalNode sl)"
        by (simp only: bo(3) ent_dec)
      then have e': "entries_of (InternalNode sl') = filter f (entries_of (InternalNode sl0))"
        using ent_sl by simp
      have "links (InternalNode sl')
          = links (InternalNode P) @ links l' @ links (InternalNode Q)"
        by (simp add: sl'_def)
      then have "merge_step\<^sup>*\<^sup>* (links (InternalNode sl)) (links (InternalNode sl'))"
        using merge_steps_ctx [OF bo(4), of "links (InternalNode P)" "links (InternalNode Q)"]
        by (simp only: ln_dec)
      then have l': "merge_step\<^sup>*\<^sup>* (links (InternalNode sl0)) (links (InternalNode sl'))"
        using lk_sl by simp
      show ?thesis
        unfolding del_sound_def res using o' f' e' keys0 del l'
        by (simp add: f_def del: fits.simps ord.simps)
    qed
  qed
qed

section \<open>The operations of the tree\<close>

lemma chain_append:
  "chain (xs @ ys) nxt = (chain xs (case ys of [] \<Rightarrow> nxt | (a', x) # y \<Rightarrow> Some a') \<and> chain ys nxt)"
proof (induction xs)
  case Nil
  then show ?case by simp
next
  case (Cons p xs)
  obtain a e rs where p: "p = (a, e, rs)" by (cases p)
  show ?case using Cons p by (cases xs; cases ys) auto
qed

lemma merge_step_chain: "merge_step X Y \<Longrightarrow> chain X nxt \<Longrightarrow> chain Y nxt"
  unfolding merge_step_def by (auto simp: chain_append)

lemma merge_step_addrs:
  "merge_step X Y \<Longrightarrow> set (map fst Y) \<subseteq> set (map fst X) \<and> (distinct (map fst X) \<longrightarrow> distinct (map fst Y))"
proof -
  assume "merge_step X Y"
  then obtain xs a rs a2 rs2 ys
    where X: "X = xs @ (a, (), rs) # (a2, (), rs2) # ys" and Y: "Y = xs @ (a, (), rs2) # ys"
    unfolding merge_step_def by blast
  have "map fst X = map fst xs @ a # a2 # map fst ys" "map fst Y = map fst xs @ a # map fst ys"
    using X Y by simp_all
  then show ?thesis by auto
qed

lemma merge_steps_chain: "merge_step\<^sup>*\<^sup>* X Y \<Longrightarrow> chain X nxt \<Longrightarrow> chain Y nxt"
  by (induction rule: rtranclp_induct) (auto intro: merge_step_chain)

lemma merge_steps_addrs:
  "merge_step\<^sup>*\<^sup>* X Y \<Longrightarrow> set (map fst Y) \<subseteq> set (map fst X) \<and> (distinct (map fst X) \<longrightarrow> distinct (map fst Y))"
proof (induction rule: rtranclp_induct)
  case base
  then show ?case by simp
next
  case (step y z)
  then show ?case using merge_step_addrs [of y z] by blast
qed

lemma links_inv_merge: "merge_step\<^sup>*\<^sup>* X Y \<Longrightarrow> links_inv X fresh \<Longrightarrow> links_inv Y fresh"
  unfolding links_inv_def using merge_steps_chain [of X Y None] merge_steps_addrs [of X Y] by blast

lemma links_inv_split:
  assumes "links_inv (xs @ (a, (), rs) # ys) fresh"
  shows "links_inv (xs @ (a, (), Some fresh) # (fresh, (), rs) # ys) (fresh + 1)"
proof -
  let ?X = "xs @ (a, (), rs) # ys"
  let ?Y = "xs @ (a, (), Some fresh) # (fresh, (), rs) # ys"
  have c: "chain ?X None" and d: "distinct (map fst ?X)" and b: "\<forall>a \<in> set (map fst ?X). a < fresh"
    using assms unfolding links_inv_def by blast+
  have mx: "map fst ?X = map fst xs @ a # map fst ys"
    and my: "map fst ?Y = map fst xs @ a # fresh # map fst ys" by simp_all
  have "chain ?Y None" using c by (auto simp: chain_append)
  moreover have "fresh \<notin> set (map fst ?X)" using b by blast
  then have "distinct (map fst ?Y)" using d unfolding mx my by auto
  moreover have "set (map fst ?Y) = insert fresh (set (map fst ?X))" unfolding mx my by auto
  then have "\<forall>a \<in> set (map fst ?Y). a < fresh + 1" using b by (simp add: less_Suc_eq)
  ultimately show ?thesis unfolding links_inv_def by blast
qed

lemma map_of_filter_key: "map_of (filter (\<lambda>e. fst e \<noteq> key) xs) = (map_of xs)(key := None)"
  by (induction xs) (auto simp: fun_eq_iff)

lemma Clear_new [simp]: "Clear ctx = QueryContext_new"
  by (simp add: Clear_def QueryContext_new_def)

lemma sound_new: "sound L MemoryBTree_new"
  by (simp add: sound_def MemoryBTree_new_def links_inv_def)

lemma MemoryBTree_Insert_data:
  assumes "MemoryBTree_Insert L I key val t s = Some (t', s')"
  shows "\<exists>res. Insert L I key val (root t) (next_addr t) = Some (res, next_addr t')
           \<and> (case res of NoSplit r \<Rightarrow> root t' = r
               | DidSplit sp \<Rightarrow> InternalNode_of_split L I sp = Some (root t'))
           \<and> fst s' = QueryContext_new"
  using assms unfolding MemoryBTree_Insert_def AcquireLatch_eq
  by (auto split: option.splits prod.splits insert_result.splits)

lemma MemoryBTree_Insert_sound:
  assumes inv: "sound L t" and r: "MemoryBTree_Insert L I key val t s = Some (t', s')"
  shows "sound L t' \<and> map_of (entries_of (root t')) = (map_of (entries_of (root t)))(key \<mapsto> val)
         \<and> fst s' = QueryContext_new"
proof -
  have f: "fits L (root t)" and o: "ord None (root t) None"
    and li: "links_inv (links (root t)) (next_addr t)"
    using inv by (simp_all add: sound_def)
  from MemoryBTree_Insert_data [OF r]
  obtain res where ins: "Insert L I key val (root t) (next_addr t) = Some (res, next_addr t')"
    and rt: "case res of NoSplit r \<Rightarrow> root t' = r
               | DidSplit sp \<Rightarrow> InternalNode_of_split L I sp = Some (root t')"
    and cl: "fst s' = QueryContext_new" by blast
  from Insert_sound [OF o _ _ f ins]
  have ok: "ins_sound L None None res"
    and mp: "map_of (res_entries res) = (map_of (entries_of (root t)))(key \<mapsto> val)" by simp_all
  have li': "links_inv (res_links res) (next_addr t')"
    using Insert_links [OF ins]
  proof (elim disjE exE conjE)
    assume "res_links res = links (root t)" "next_addr t' = next_addr t"
    then show ?thesis using li by simp
  next
    fix xs a rs ys
    assume "links (root t) = xs @ (a, (), rs) # ys"
      "res_links res = xs @ (a, (), Some (next_addr t)) # (next_addr t, (), rs) # ys"
      "next_addr t' = next_addr t + 1"
    then show ?thesis using links_inv_split [of xs a rs ys "next_addr t"] li by simp
  qed
  show ?thesis
  proof (cases res)
    case (NoSplit n)
    then have "root t' = n" using rt by simp
    then show ?thesis using ok mp li' NoSplit cl by (simp add: sound_def)
  next
    case (DidSplit sp)
    obtain l rr b where sp: "sp = Split l rr b" by (cases sp)
    have "\<exists>rk. root t' = InternalNode [(b, l), (rk, rr)]"
      using rt DidSplit sp
      by (auto simp: InternalNode_of_split_def split: option.splits intro: sym)
    then obtain rk where nr: "root t' = InternalNode [(b, l), (rk, rr)]" by blast
    have g: "ord None l (Some b)" "ord (Some b) rr None" "fits L l" "fits L rr"
      using ok DidSplit sp by simp_all
    have "ord None (root t') None" using g(1,2) by (simp add: nr)
    moreover have "fits L (root t')" using g(3,4) by (simp add: nr)
    moreover have "links (root t') = res_links res" using DidSplit sp by (simp add: nr)
    moreover have "entries_of (root t') = res_entries res" using DidSplit sp by (simp add: nr)
    ultimately show ?thesis using li' mp cl by (simp add: sound_def)
  qed
qed

lemma MemoryBTree_Delete_data:
  assumes "MemoryBTree_Delete L I key t s = Some (b, t', s')"
  shows "\<exists>underflow r. Delete L I key (root t) = Some (b, underflow, r) \<and> next_addr t' = next_addr t
           \<and> (root t' = r \<or> (\<exists>k. r = InternalNode [(k, root t')]))
           \<and> (b \<longrightarrow> fst s' = QueryContext_new)"
proof -
  obtain ret underflow r where d: "Delete L I key (root t) = Some (ret, underflow, r)"
    using assms unfolding MemoryBTree_Delete_def AcquireLatch_eq
    by (auto split: option.splits prod.splits)
  show ?thesis
  proof (cases "ret \<and> Type r = INTERNAL \<and> Size r = 1")
    case False
    then have "b = ret \<and> t' = t\<lparr>root := r\<rparr> \<and> (b \<longrightarrow> fst s' = QueryContext_new)"
      using assms d unfolding MemoryBTree_Delete_def AcquireLatch_eq
      by (auto split: option.splits prod.splits if_splits)
    then show ?thesis using d by auto
  next
    case True
    then obtain k c where r: "r = InternalNode [(k, c)]"
      by (cases r) (auto simp: length_Suc_conv)
    have "b = ret \<and> t' = t\<lparr>root := c\<rparr> \<and> fst s' = QueryContext_new"
      using assms d True r unfolding MemoryBTree_Delete_def AcquireLatch_eq
      by (auto simp: GetChild_def split: option.splits prod.splits if_splits)
    then show ?thesis using d r by auto
  qed
qed

lemma MemoryBTree_Delete_sound:
  assumes inv: "sound L t" and r: "MemoryBTree_Delete L I key t s = Some (b, t', s')"
  shows "sound L t' \<and> entries_of (root t') = filter (\<lambda>e. fst e \<noteq> key) (entries_of (root t))
         \<and> b = (key \<in> keys_of (root t))"
proof -
  have f: "fits L (root t)" and o: "ord None (root t) None"
    and li: "links_inv (links (root t)) (next_addr t)"
    using inv by (simp_all add: sound_def)
  from MemoryBTree_Delete_data [OF r]
  obtain underflow n where d: "Delete L I key (root t) = Some (b, underflow, n)"
    and na: "next_addr t' = next_addr t"
    and rt: "root t' = n \<or> (\<exists>k. n = InternalNode [(k, root t')])" by blast
  from Delete_sound [OF o _ _ f d]
  have ds: "ord None n None" "fits L n"
    "entries_of n = filter (\<lambda>e. fst e \<noteq> key) (entries_of (root t))"
    "b = (key \<in> keys_of (root t))" "merge_step\<^sup>*\<^sup>* (links (root t)) (links n)"
    unfolding del_sound_def by simp_all
  have lr: "links_inv (links n) (next_addr t)" using links_inv_merge [OF ds(5) li] .
  from rt show ?thesis
  proof
    assume "root t' = n"
    then show ?thesis using ds lr na by (simp add: sound_def)
  next
    assume "\<exists>k. n = InternalNode [(k, root t')]"
    then obtain k where n: "n = InternalNode [(k, root t')]" by blast
    have "ord None (root t') None" using ds(1) n by simp
    moreover have "fits L (root t')" using ds(2) n by simp
    moreover have "links (root t') = links n" using n by simp
    moreover have "entries_of (root t') = entries_of n" using n by simp
    ultimately show ?thesis using ds(3,4) lr na by (simp add: sound_def)
  qed
qed

lemma run_sound:
  "sound L t \<Longrightarrow> run L I ops t s = Some (t', s')
     \<Longrightarrow> sound L t' \<and> map_of (entries_of (root t')) = model ops (map_of (entries_of (root t)))"
proof (induction ops arbitrary: t s)
  case Nil
  then show ?case by simp
next
  case (Cons op ops)
  show ?case
  proof (cases op)
    case (Ins k v)
    then obtain t1 s1 where t1: "MemoryBTree_Insert L I k v t s = Some (t1, s1)"
      "run L I ops t1 s1 = Some (t', s')"
      using Cons.prems(2) by (auto split: option.splits)
    from MemoryBTree_Insert_sound [OF Cons.prems(1) t1(1)]
    have inv1: "sound L t1"
      and e: "map_of (entries_of (root t1)) = (map_of (entries_of (root t)))(k \<mapsto> v)" by simp_all
    from Cons.IH [OF inv1 t1(2)] show ?thesis by (simp only: e Ins model.simps)
  next
    case (Del k)
    then obtain b t1 s1 where t1: "MemoryBTree_Delete L I k t s = Some (b, t1, s1)"
      "run L I ops t1 s1 = Some (t', s')"
      using Cons.prems(2) by (auto split: option.splits)
    from MemoryBTree_Delete_sound [OF Cons.prems(1) t1(1)]
    have inv1: "sound L t1"
      and e: "entries_of (root t1) = filter (\<lambda>e. fst e \<noteq> k) (entries_of (root t))" by simp_all
    from Cons.IH [OF inv1 t1(2)] show ?thesis
      by (simp only: e Del map_of_filter_key model.simps)
  qed
qed

lemma run_reaches_sound:
  assumes "run L I ops MemoryBTree_new s = Some (t, s')"
  shows "sound L t \<and> map_of (entries_of (root t)) = model ops Map.empty"
  using run_sound [OF sound_new assms] by (simp add: MemoryBTree_new_def)

subsection \<open>The scan\<close>

lemma yields_no_current:
  "yields r \<lparr>offset = off, key_high = kh, upper_bound = ub, current = None\<rparr> kv = Some []"
  by (subst yields.simps, subst Next.simps) simp

lemma yields_end_of_leaf:
  assumes "leaf_at r a = Some (es, rs)"
  shows "yields r \<lparr>offset = length es, key_high = kh, upper_bound = ub, current = Some a\<rparr> kv
       = yields r \<lparr>offset = 0, key_high = kh, upper_bound = ub, current = rs\<rparr> kv"
proof -
  have "Next r \<lparr>offset = length es, key_high = kh, upper_bound = ub, current = Some a\<rparr> kv
      = Next r \<lparr>offset = 0, key_high = kh, upper_bound = ub, current = rs\<rparr> kv"
    using assms by (subst Next.simps) (simp add: GetEntry_def)
  then show ?thesis by (subst yields.simps, subst (2) yields.simps) simp
qed

lemma yields_in_leaf:
  assumes "leaf_at r a = Some (es, rs)"
    and "\<And>kv. yields r \<lparr>offset = length es, key_high = kh, upper_bound = False, current = Some a\<rparr> kv = Some R"
  shows "n = length es - off \<Longrightarrow> off \<le> length es \<Longrightarrow>
     yields r \<lparr>offset = off, key_high = kh, upper_bound = False, current = Some a\<rparr> kv = Some (drop off es @ R)"
proof (induction n arbitrary: off kv)
  case 0
  then have "off = length es" by simp
  then show ?case using assms(2) by simp
next
  case (Suc n)
  then have off: "off < length es" by simp
  have nx: "Next r \<lparr>offset = off, key_high = kh, upper_bound = False, current = Some a\<rparr> kv
      = Some (True, es ! off, \<lparr>offset = off + 1, key_high = kh, upper_bound = False, current = Some a\<rparr>)"
    using assms(1) off by (subst Next.simps) (simp add: GetEntry_def)
  have "yields r \<lparr>offset = off + 1, key_high = kh, upper_bound = False, current = Some a\<rparr> (es ! off)
      = Some (drop (off + 1) es @ R)"
    using Suc.IH [of "off + 1" "es ! off"] Suc.prems by simp
  then have "yields r \<lparr>offset = off, key_high = kh, upper_bound = False, current = Some a\<rparr> kv
      = Some (es ! off # drop (off + 1) es @ R)"
    using nx by (subst yields.simps) simp
  then show ?case using off by (simp add: Cons_nth_drop_Suc)
qed

lemma yields_from:
  "distinct (map fst (leaves r)) \<Longrightarrow> chain (leaves r) None \<Longrightarrow> leaves r = pre @ post \<Longrightarrow>
     yields r \<lparr>offset = 0, key_high = kh, upper_bound = False,
                current = (case post of [] \<Rightarrow> None | (a', x) # y \<Rightarrow> Some a')\<rparr> kv
       = Some (concat (map (\<lambda>(a, es, rs). es) post))"
proof (induction post arbitrary: pre kv)
  case Nil
  then show ?case by (simp add: yields_no_current)
next
  case (Cons p post)
  obtain a es rs where p: "p = (a, es, rs)" by (cases p)
  have "(a, es, rs) \<in> set (leaves r)" using Cons.prems(3) p by simp
  then have la: "leaf_at r a = Some (es, rs)"
    using Cons.prems(1) by (simp add: leaf_at_def)
  have rs: "rs = (case post of [] \<Rightarrow> None | (a', x) # y \<Rightarrow> Some a')"
    using Cons.prems(2,3) p by (simp add: chain_append)
  have "leaves r = (pre @ [p]) @ post" using Cons.prems(3) by simp
  from Cons.IH [OF Cons.prems(1,2) this]
  have "\<And>kv. yields r \<lparr>offset = 0, key_high = kh, upper_bound = False, current = rs\<rparr> kv
      = Some (concat (map (\<lambda>(a, es, rs). es) post))"
    using rs by simp
  then have "\<And>kv. yields r \<lparr>offset = length es, key_high = kh, upper_bound = False, current = Some a\<rparr> kv
      = Some (concat (map (\<lambda>(a, es, rs). es) post))"
    using yields_end_of_leaf [OF la] by simp
  from yields_in_leaf [OF la this, of "length es" 0 kv] show ?case using p by simp
qed

lemma TreeScan_leaf_first:
  "ord lo n hi \<Longrightarrow> \<exists>a x y. leaves n = (a, x) # y \<and> TreeScan_leaf n = Some a"
proof (induction n arbitrary: lo hi)
  case (LeafNode a es rs)
  then show ?case by simp
next
  case (InternalNode sl)
  then obtain k c rest where sl: "sl = (k, c) # rest" by (cases sl) auto
  have "ord lo c (if rest = [] then hi else Some k)"
    using InternalNode.prems sl by (simp only: ord.simps ord_slots_Cons)
  moreover have "c \<in> Basic_BNFs.snds (k, c)" by simp
  ultimately obtain a x y where "leaves c = (a, x) # y" "TreeScan_leaf c = Some a"
    using InternalNode.IH [of "(k, c)" c] sl by fastforce
  then show ?case using sl by simp
qed

lemma TreeScan_yields:
  assumes "sound L t"
  shows "\<exists>it. TreeScan t = Some it \<and> yields (root t) it kv = Some (entries_of (root t))"
proof -
  have off: "ord None (root t) None" and d: "distinct (map fst (leaves (root t)))"
    and c: "chain (leaves (root t)) None"
    using assms by (simp_all add: sound_def links_inv_def chain_links addrs_links)
  from TreeScan_leaf_first [OF off] obtain a x y
    where l: "leaves (root t) = (a, x) # y" "TreeScan_leaf (root t) = Some a" by blast
  have "TreeScan t = Some \<lparr>offset = 0, key_high = None, upper_bound = False, current = Some a\<rparr>"
    using l(2) by (simp add: TreeScan_def)
  moreover have "yields (root t) \<lparr>offset = 0, key_high = None, upper_bound = False, current = Some a\<rparr> kv
      = Some (entries_of (root t))"
    using yields_from [OF d c, of "[]" "leaves (root t)" None kv] l(1) by (simp add: entries_of_def)
  ultimately show ?thesis by simp
qed

lemma ord_separators_bound: "ord lo n hi \<Longrightarrow> separators_bound n"
proof (induction n arbitrary: lo hi)
  case (LeafNode a es rs)
  then show ?case by simp
next
  case (InternalNode sl)
  have os: "ord_slots lo sl hi" using InternalNode.prems by simp
  have "(idx + 1 < length sl \<longrightarrow> (\<forall>x \<in> keys_of (snd (sl ! idx)). x \<le> fst (sl ! idx)))
        \<and> (0 < idx \<longrightarrow> (\<forall>x \<in> keys_of (snd (sl ! idx)). fst (sl ! (idx - 1)) < x))
        \<and> separators_bound (snd (sl ! idx))" if i: "idx < length sl" for idx
  proof -
    define lo' where "lo' = upto_key lo (take idx sl)"
    define hi' where "hi' = (if Suc idx < length sl then Some (fst (sl ! idx)) else hi)"
    have oc: "ord lo' (snd (sl ! idx)) hi'"
      using ord_slots_child [OF os i] by (simp add: lo'_def hi'_def)
    have m: "sl ! idx \<in> set sl" using i by simp
    have "snd (sl ! idx) \<in> Basic_BNFs.snds (sl ! idx)" by (cases "sl ! idx") simp
    from InternalNode.IH [OF m this oc] have sb: "separators_bound (snd (sl ! idx))" .
    have k: "above lo' x \<and> below x hi'" if "x \<in> keys_of (snd (sl ! idx))" for x
      using ord_keys(1) [OF oc that] .
    have up: "idx + 1 < length sl \<Longrightarrow> hi' = Some (fst (sl ! idx))" by (simp add: hi'_def)
    have dn: "lo' = Some (fst (sl ! (idx - 1)))" if "0 < idx"
    proof -
      have "take idx sl \<noteq> []" using that i by auto
      moreover have "last (take idx sl) = sl ! (idx - 1)"
        using that i by (subst last_conv_nth) (auto simp: min_def)
      ultimately show ?thesis by (simp add: lo'_def upto_key_def)
    qed
    show ?thesis using k up dn sb by auto
  qed
  then show ?case by simp
qed

lemma ord_populated: "ord lo n hi \<Longrightarrow> populated n"
proof (induction n arbitrary: lo hi)
  case (LeafNode a es rs)
  then show ?case by simp
next
  case (InternalNode sl)
  have os: "ord_slots lo sl hi" and ne: "sl \<noteq> []" using InternalNode.prems by auto
  have "populated c" if kc: "(k, c) \<in> set sl" for k c
  proof -
    obtain idx where i: "idx < length sl" "sl ! idx = (k, c)" using kc by (auto simp: in_set_conv_nth)
    have "ord (upto_key lo (take idx sl)) c (if Suc idx < length sl then Some (fst (sl ! idx)) else hi)"
      using ord_slots_child [OF os i(1)] i(2) by simp
    moreover have "c \<in> Basic_BNFs.snds (k, c)" by simp
    ultimately show ?thesis using InternalNode.IH [OF kc] by blast
  qed
  then show ?case using ne by (cases sl) auto
qed

lemma sorted_keys_card:
  "sorted_wrt (<) (map fst (xs :: ('k::linorder \<times> 'v) list)) \<Longrightarrow> length xs = card (dom (map_of xs))"
proof -
  assume "sorted_wrt (<) (map fst xs)"
  then have "distinct (map fst xs)" by (simp add: strict_sorted_iff)
  then have "card (set (map fst xs)) = length (map fst xs)" by (rule distinct_card)
  then show ?thesis by (simp add: dom_map_of_conv_image_fst)
qed

lemma ctx_ok_new [simp]: "fst s = QueryContext_new \<Longrightarrow> ctx_ok s"
  by (simp add: ctx_ok_def QueryContext_new_def)

lemma ctx_ok_push:
  "ctx_ok s \<Longrightarrow> ctx_ok ((fst s)\<lparr>latches := latches (fst s) @ [p]\<rparr>, snd s @ cs)"
  by (simp add: ctx_ok_def)

lemma MemoryBTree_Search_ok:
  assumes "ord None (root t) None" and "ctx_ok s"
  shows "\<exists>s'. MemoryBTree_Search key v0 t s
           = Some (case map_of (entries_of (root t)) key of None \<Rightarrow> (False, v0) | Some v \<Rightarrow> (True, v), s')"
proof -
  define S1 where "S1 = ((fst s)\<lparr>latches := latches (fst s) @ [unnamed]\<rparr>, snd s @ lock_as SHARE unnamed)"
  have ok1: "ctx_ok S1" unfolding S1_def using assms(2) by (rule ctx_ok_push)
  from Search_latches_ok [OF ord_populated [OF assms(1)] ok1, of key]
  obtain s2 where s2: "Search_latches key (root t) S1 = Some s2" by blast
  show ?thesis
    unfolding MemoryBTree_Search_def AcquireLatch_eq prod.case S1_def [symmetric]
    using Search_correct [OF assms(1), of key v0] s2 by simp
qed

lemma Insert_present:
  "ord lo n hi \<Longrightarrow> above lo key \<Longrightarrow> below key hi \<Longrightarrow> key \<in> keys_of n
     \<Longrightarrow> \<exists>n'. Insert L I key val n fresh = Some (NoSplit n', fresh)"
proof (induction L I key val n fresh arbitrary: lo hi rule: Insert.induct)
  case (1 L I key val a es rs fresh)
  have sorted: "sorted_wrt (<) (map fst es)" using 1(1) by simp
  obtain found p where sk: "SearchKeyIndex es key = (found, p)" by (cases "SearchKeyIndex es key")
  note s = SearchKeyIndex_sorted [OF sorted sk]
  have found
  proof (rule ccontr)
    assume "\<not> found"
    moreover have "set es = set (take p es) \<union> set (drop p es)"
      by (metis append_take_drop_id set_append)
    ultimately show False using s 1(4) by auto
  qed
  then show ?case using sk by (simp add: Leaf_Insert_def)
next
  case (2 L I key val sl fresh)
  define i where "i = SearchChildIndex sl key"
  define c where "c = snd (sl ! i)"
  have os: "ord_slots lo sl hi" and ne: "sl \<noteq> []" using 2(2) by auto
  note route = SearchChildIndex_route [OF os ne 2(3,4), folded i_def]
  then have i: "i < length sl" by simp
  have a: "SearchChildIndex sl key < length sl" using i by (simp add: i_def)
  have oc: "ord (upto_key lo (take i sl)) c (if Suc i < length sl then Some (fst (sl ! i)) else hi)"
    using ord_slots_child [OF os i] by (simp add: c_def)
  have kc: "key \<in> keys_of c"
    using route_entries [OF os ne 2(3,4)] 2(5) entries_split_at [OF i]
    by (auto simp: i_def c_def keys_of_def)
  from 2(1) [OF a, folded i_def, folded c_def, OF oc _ _ kc] route
  obtain c' where "Insert L I key val c fresh = Some (NoSplit c', fresh)" by auto
  then show ?case using a absorb_NoSplit [OF i, of I c'] by (simp add: i_def [symmetric] c_def [symmetric])
qed

lemma MemoryBTree_Insert_NoSplit:
  assumes "Insert L I key val (root t) (next_addr t) = Some (NoSplit n', fresh')" and "ctx_ok s"
  shows "\<exists>s'. MemoryBTree_Insert L I key val t s = Some (\<lparr>root = n', next_addr = fresh'\<rparr>, s')"
proof -
  define S1 where "S1 = ((fst s)\<lparr>latches := latches (fst s) @ [unnamed]\<rparr>, snd s @ lock_as EXCLUSIVE unnamed)"
  have ok1: "ctx_ok S1" unfolding S1_def using assms(2) by (rule ctx_ok_push)
  from Insert_latches_ok [OF assms(1) ok1]
  obtain s2 where s2: "Insert_latches L I key val (root t) (next_addr t) S1 = Some s2" by blast
  show ?thesis
    unfolding MemoryBTree_Insert_def AcquireLatch_eq prod.case S1_def [symmetric]
    using assms(1) s2 by simp
qed

section \<open>Insert and Search\<close>

text \<open>
  C1.  On a tree reached by any workload, once \<open>Insert(k, v1)\<close> has returned,
  \<open>Search(k)\<close> returns \<^verbatim>\<open>true\<close> and \<open>v1\<close>; a following \<open>Insert(k, v2)\<close> returns,
  after it \<open>Search(k)\<close> returns \<^verbatim>\<open>true\<close> and \<open>v2\<close>, and the tree holds every key once
  and as many entries as before: the second insert has overwritten the value.  This
  holds for every leaf and internal capacity and whatever context the first insert is
  given.
\<close>

theorem Insert_then_Search:
  assumes "run L I ops MemoryBTree_new (QueryContext_new, []) = Some (t, s)"
    and "MemoryBTree_Insert L I k v1 t s0 = Some (t1, s1)"
  shows "\<exists>r1 t2 s2 r2. MemoryBTree_Search k v0 t1 s1 = Some ((True, v1), r1)
           \<and> MemoryBTree_Insert L I k v2 t1 s1 = Some (t2, s2)
           \<and> MemoryBTree_Search k v0 t2 s2 = Some ((True, v2), r2)
           \<and> distinct (map fst (entries_of (root t2)))
           \<and> length (entries_of (root t2)) = length (entries_of (root t1))"
proof -
  have inv: "sound L t" using run_reaches_sound [OF assms(1)] by simp
  from MemoryBTree_Insert_sound [OF inv assms(2)]
  have inv1: "sound L t1"
    and e1: "map_of (entries_of (root t1)) = (map_of (entries_of (root t)))(k \<mapsto> v1)"
    and c1: "fst s1 = QueryContext_new" by simp_all
  have o1: "ord None (root t1) None" using inv1 by (simp add: sound_def)
  from MemoryBTree_Search_ok [OF o1 ctx_ok_new [OF c1], of k v0]
  obtain r1 where r1: "MemoryBTree_Search k v0 t1 s1 = Some ((True, v1), r1)" using e1 by auto
  have "k \<in> keys_of (root t1)"
    using e1 by (metis domI dom_map_of_conv_image_fst fun_upd_same keys_of_def)
  from Insert_present [OF o1 _ _ this, of L I v2 "next_addr t1"]
  obtain n' where n': "Insert L I k v2 (root t1) (next_addr t1) = Some (NoSplit n', next_addr t1)"
    by auto
  from MemoryBTree_Insert_NoSplit [OF n' ctx_ok_new [OF c1]]
  obtain t2 s2 where t2: "MemoryBTree_Insert L I k v2 t1 s1 = Some (t2, s2)" by blast
  from MemoryBTree_Insert_sound [OF inv1 t2]
  have inv2: "sound L t2"
    and e2: "map_of (entries_of (root t2)) = (map_of (entries_of (root t1)))(k \<mapsto> v2)"
    and c2: "fst s2 = QueryContext_new" by simp_all
  have o2: "ord None (root t2) None" using inv2 by (simp add: sound_def)
  from MemoryBTree_Search_ok [OF o2 ctx_ok_new [OF c2], of k v0]
  obtain r2 where r2: "MemoryBTree_Search k v0 t2 s2 = Some ((True, v2), r2)" using e2 by auto
  have so1: "sorted_wrt (<) (map fst (entries_of (root t1)))"
    and so2: "sorted_wrt (<) (map fst (entries_of (root t2)))"
    using ord_entries_sorted(1) [OF o1] ord_entries_sorted(1) [OF o2] .
  have d: "distinct (map fst (entries_of (root t2)))" using so2 by (simp add: strict_sorted_iff)
  have "dom (map_of (entries_of (root t2))) = dom (map_of (entries_of (root t1)))"
    unfolding e2 e1 by auto
  then have "length (entries_of (root t2)) = length (entries_of (root t1))"
    using sorted_keys_card [OF so1] sorted_keys_card [OF so2] by simp
  then show ?thesis using r1 t2 r2 d by blast
qed

theorem Insert_then_Search_witness:
  "map_option fst (run 4 4 [Ins 1 1, Ins 2 2, Ins 3 3, Ins 4 4, Ins 5 5, Ins 6 6] MemoryBTree_new
                     (QueryContext_new, []))
     = Some \<lparr>root = InternalNode [(2::int, LeafNode 0 [(1, 1::int), (2, 2)] (Some 1)),
                                   (5, LeafNode 1 [(3, 3), (4, 4), (5, 5), (6, 6)] None)],
             next_addr = 2\<rparr>
   \<and> (\<exists>t1 s1 r1 t2 s2 r2.
        MemoryBTree_Insert 4 4 3 30
            \<lparr>root = InternalNode [(2::int, LeafNode 0 [(1, 1::int), (2, 2)] (Some 1)),
                                  (5, LeafNode 1 [(3, 3), (4, 4), (5, 5), (6, 6)] None)],
             next_addr = 2\<rparr> (QueryContext_new, []) = Some (t1, s1)
        \<and> MemoryBTree_Search 3 0 t1 s1 = Some ((True, 30), r1)
        \<and> MemoryBTree_Insert 4 4 3 31 t1 s1 = Some (t2, s2)
        \<and> MemoryBTree_Search 3 0 t2 s2 = Some ((True, 31), r2)
        \<and> distinct (map fst (entries_of (root t2)))
        \<and> length (entries_of (root t2)) = length (entries_of (root t1)))"
proof -
  let ?ops = "[Ins (1::int) (1::int), Ins 2 2, Ins 3 3, Ins 4 4, Ins 5 5, Ins 6 6]"
  let ?T = "\<lparr>root = InternalNode [(2::int, LeafNode 0 [(1, 1::int), (2, 2)] (Some 1)),
                                   (5, LeafNode 1 [(3, 3), (4, 4), (5, 5), (6, 6)] None)],
             next_addr = 2::nat\<rparr>"
  have h: "map_option fst (run 4 4 ?ops MemoryBTree_new (QueryContext_new, [])) = Some ?T"
    by code_simp
  then obtain s where r: "run 4 4 ?ops MemoryBTree_new (QueryContext_new, []) = Some (?T, s)"
    by (cases "run 4 4 ?ops MemoryBTree_new (QueryContext_new, [])") auto
  have "MemoryBTree_Insert 4 4 3 30 ?T (QueryContext_new, []) \<noteq> None" by code_simp
  then obtain t1 s1 where i: "MemoryBTree_Insert 4 4 3 30 ?T (QueryContext_new, []) = Some (t1, s1)"
    by (cases "MemoryBTree_Insert 4 4 3 30 ?T (QueryContext_new, [])") auto
  from Insert_then_Search [OF r i, of 0 31] i h show ?thesis by blast
qed

section \<open>The full scan\<close>

text \<open>
  C2.  After every workload of inserts and deletes that has run through, a full
  \<^verbatim>\<open>TreeScan\<close> hands out the entries in strictly ascending key order, and they are
  exactly the keys the workload has left in the tree, each with the value written
  last.  This holds for every leaf and internal capacity.
\<close>

theorem TreeScan_yields_model:
  assumes "run L I ops MemoryBTree_new (QueryContext_new, []) = Some (t, s)"
  shows "\<exists>it xs. TreeScan t = Some it \<and> yields (root t) it kv = Some xs
           \<and> sorted_wrt (<) (map fst xs) \<and> map_of xs = model ops Map.empty"
proof -
  have inv: "sound L t" and m: "map_of (entries_of (root t)) = model ops Map.empty"
    using run_reaches_sound [OF assms] by simp_all
  from TreeScan_yields [OF inv, of kv]
  obtain it where it: "TreeScan t = Some it" "yields (root t) it kv = Some (entries_of (root t))"
    by blast
  have "ord None (root t) None" using inv by (simp add: sound_def)
  then have "sorted_wrt (<) (map fst (entries_of (root t)))" by (rule ord_entries_sorted(1))
  then show ?thesis using it m by blast
qed

theorem TreeScan_yields_model_witness:
  "map_option fst (run 4 4 [Ins 1 1, Ins 2 2, Ins 3 3, Ins 4 4, Ins 5 5, Ins 6 6, Del 4, Del 3]
                     MemoryBTree_new (QueryContext_new, []))
     = Some \<lparr>root = InternalNode [(2::int, LeafNode 0 [(1, 1::int), (2, 2)] (Some 1)),
                                   (5, LeafNode 1 [(5, 5), (6, 6)] None)],
             next_addr = 2\<rparr>
   \<and> (\<exists>it xs.
        TreeScan \<lparr>root = InternalNode [(2::int, LeafNode 0 [(1, 1::int), (2, 2)] (Some 1)),
                                      (5, LeafNode 1 [(5, 5), (6, 6)] None)],
                  next_addr = 2\<rparr> = Some it
        \<and> yields (root \<lparr>root = InternalNode [(2::int, LeafNode 0 [(1, 1::int), (2, 2)] (Some 1)),
                                      (5, LeafNode 1 [(5, 5), (6, 6)] None)],
                  next_addr = 2\<rparr>) it (0, 0) = Some xs
        \<and> sorted_wrt (<) (map fst xs)
        \<and> map_of xs = model [Ins 1 1, Ins 2 2, Ins 3 3, Ins 4 4, Ins 5 5, Ins 6 6, Del 4, Del 3] Map.empty)"
proof -
  let ?ops = "[Ins (1::int) (1::int), Ins 2 2, Ins 3 3, Ins 4 4, Ins 5 5, Ins 6 6, Del 4, Del 3]"
  let ?T = "\<lparr>root = InternalNode [(2::int, LeafNode 0 [(1, 1::int), (2, 2)] (Some 1)),
                                   (5, LeafNode 1 [(5, 5), (6, 6)] None)],
             next_addr = 2::nat\<rparr>"
  have h: "map_option fst (run 4 4 ?ops MemoryBTree_new (QueryContext_new, [])) = Some ?T"
    by code_simp
  then obtain s where r: "run 4 4 ?ops MemoryBTree_new (QueryContext_new, []) = Some (?T, s)"
    by (cases "run 4 4 ?ops MemoryBTree_new (QueryContext_new, [])") auto
  from TreeScan_yields_model [OF r, of "(0, 0)"] h show ?thesis by blast
qed

section \<open>Separators\<close>

text \<open>
  C4.  After every workload that has run through, in every internal node every key
  below child \<open>i\<close> is at most separator \<open>i\<close> and above separator \<open>i - 1\<close>.  A separator
  need not be the rightmost key below its child: a delete removes the key from the
  leaf and leaves the separator as it was.  After the inserts of 1 to 8 with capacity 4,
  deleting 4 merges the leaf that held 3 and 4 into its left neighbour, which keeps the
  separator 4 over the keys 1, 2, 3.
\<close>

theorem separators_bound_reachable:
  assumes "run L I ops MemoryBTree_new (QueryContext_new, []) = Some (t, s)"
  shows "separators_bound (root t)"
proof -
  have "sound L t" using run_reaches_sound [OF assms] by simp
  then have "ord None (root t) None" by (simp add: sound_def)
  then show ?thesis by (rule ord_separators_bound)
qed

theorem separators_bound_reachable_witness:
  "map_option fst (run 4 4 [Ins 1 1, Ins 2 2, Ins 3 3, Ins 4 4, Ins 5 5, Ins 6 6, Ins 7 7, Ins 8 8, Del 4]
                     MemoryBTree_new (QueryContext_new, []))
     = Some \<lparr>root = InternalNode [(4::int, LeafNode 0 [(1, 1::int), (2, 2), (3, 3)] (Some 2)),
                                   (5, LeafNode 2 [(5, 5), (6, 6), (7, 7), (8, 8)] None)],
             next_addr = 3\<rparr>
   \<and> separators_bound
        (root \<lparr>root = InternalNode [(4::int, LeafNode 0 [(1, 1::int), (2, 2), (3, 3)] (Some 2)),
                       (5, LeafNode 2 [(5, 5), (6, 6), (7, 7), (8, 8)] None)], next_addr = 3\<rparr>)"
proof -
  let ?ops = "[Ins (1::int) (1::int), Ins 2 2, Ins 3 3, Ins 4 4, Ins 5 5, Ins 6 6, Ins 7 7, Ins 8 8, Del 4]"
  let ?T = "\<lparr>root = InternalNode [(4::int, LeafNode 0 [(1, 1::int), (2, 2), (3, 3)] (Some 2)),
                                   (5, LeafNode 2 [(5, 5), (6, 6), (7, 7), (8, 8)] None)],
             next_addr = 3::nat\<rparr>"
  have h: "map_option fst (run 4 4 ?ops MemoryBTree_new (QueryContext_new, [])) = Some ?T"
    by code_simp
  then obtain s where r: "run 4 4 ?ops MemoryBTree_new (QueryContext_new, []) = Some (?T, s)"
    by (cases "run 4 4 ?ops MemoryBTree_new (QueryContext_new, [])") auto
  from separators_bound_reachable [OF r] h show ?thesis by blast
qed

theorem separators_exact_fails_after_Delete:
  "map_option fst (run 4 4 [Ins 1 1, Ins 2 2, Ins 3 3, Ins 4 4, Ins 5 5, Ins 6 6, Ins 7 7, Ins 8 8, Del 4]
                     MemoryBTree_new (QueryContext_new, []))
     = Some \<lparr>root = InternalNode [(4::int, LeafNode 0 [(1, 1::int), (2, 2), (3, 3)] (Some 2)),
                                   (5, LeafNode 2 [(5, 5), (6, 6), (7, 7), (8, 8)] None)],
             next_addr = 3\<rparr>
   \<and> \<not> separators_exact
        (InternalNode [(4::int, LeafNode 0 [(1, 1::int), (2, 2), (3, 3)] (Some 2)),
                       (5, LeafNode 2 [(5, 5), (6, 6), (7, 7), (8, 8)] None)])
   \<and> MemoryBTree_String show_int show_int
        \<lparr>root = InternalNode [(4::int, LeafNode 0 [(1, 1::int), (2, 2), (3, 3)] (Some 2)),
                                   (5, LeafNode 2 [(5, 5), (6, 6), (7, 7), (8, 8)] None)],
             next_addr = 3\<rparr>
     = ''[INTERNAL: [LEAF: (1,1) (2,2) (3,3)] | 4 | [LEAF: (5,5) (6,6) (7,7) (8,8)]]''"
  by code_simp

section \<open>The shape of the tree\<close>

lemma links_inv_tree:
  "tree_inv L I t = (shape_top L I 0 2 (height (root t)) (root t) \<and> ord None (root t) None
      \<and> links_inv (links (root t)) (next_addr t))"
  by (auto simp: tree_inv_def links_inv_def chain_links addrs_links)



lemma RIGHTMOST_KEY_shape:
  assumes "shape L I h n" and "2 \<le> L" and "3 \<le> I"
  shows "\<exists>k. RIGHTMOST_KEY L I n = Some k"
proof (cases n)
  case (LeafNode a es rs)
  then have "es \<noteq> []" "length es \<le> L" using assms UB_facts(5) [OF assms(2)] by auto
  then show ?thesis using RIGHTMOST_KEY_Leaf [of es L I a rs] LeafNode by simp
next
  case (InternalNode sl)
  have "2 \<le> UNDERFLOW_BOUND I" using assms(3) by (simp add: UNDERFLOW_BOUND_def)
  then have "sl \<noteq> []" "length sl \<le> I" using assms InternalNode by auto
  then show ?thesis using RIGHTMOST_KEY_Internal [of sl I L] InternalNode by simp
qed








section \<open>Node sizes\<close>

text \<open>
  With leaf capacity at least 2 and internal capacity at least 3, an insert into a tree
  that satisfies the invariants returns when the context it is given holds no latch that
  has not been released, and so does a delete when the leaf capacity is even.  With an
  odd leaf capacity a split leaves \<open>L div 2\<close> entries in the new leaf, one less than
  \<^verbatim>\<open>UNDERFLOW_BOUND\<close>, and a later delete from that leaf can fail the size assertion
  of \<^verbatim>\<open>LeafNode::Balance\<close>.
\<close>

lemma MemoryBTree_Insert_returns:
  assumes L: "2 \<le> L" and I: "3 \<le> I" and inv: "tree_inv L I t"
    and ok: "ctx_ok s" and z: "smallest_unlk_idx (fst s) = 0"
  shows "\<exists>t' s'. MemoryBTree_Insert L I key val t s = Some (t', s')"
proof -
  define h where "h = height (root t)"
  define S1 where "S1 = ((fst s)\<lparr>latches := latches (fst s) @ [unnamed]\<rparr>, snd s @ lock_as EXCLUSIVE unnamed)"
  have ok1: "ctx_ok S1" unfolding S1_def using ok by (rule ctx_ok_push)
  have z1: "smallest_unlk_idx (fst S1) = 0" using z by (simp add: S1_def)
  have sh: "shape_top L I 0 2 h (root t)" and o: "ord None (root t) None"
    using inv by (simp_all add: links_inv_tree h_def)
  from Insert_inv [OF L I o _ _ sh, of key val "next_addr t"]
  obtain res fresh' where ins: "Insert L I key val (root t) (next_addr t) = Some (res, fresh')"
    and iok: "ins_ok L I None None 0 2 h res" by auto
  from Insert_latches_ok [OF ins ok1]
  obtain s2 where s2: "Insert_latches L I key val (root t) (next_addr t) S1 = Some s2"
    and la: "latched S1 (SharedLatchPtr (root t)) (\<exists>c. res = NoSplit c) s2" by blast
  show ?thesis
  proof (cases res)
    case (NoSplit n)
    then show ?thesis
      unfolding MemoryBTree_Insert_def AcquireLatch_eq prod.case S1_def [symmetric]
      using ins s2 by simp
  next
    case (DidSplit sp)
    obtain l rr b where sp: "sp = Split l rr b" by (cases sp)
    have "shape L I h rr" using iok DidSplit sp by simp
    from RIGHTMOST_KEY_shape [OF this L I]
    obtain nr where nr: "InternalNode_of_split L I sp = Some nr"
      using sp by (auto simp: InternalNode_of_split_def)
    have "smallest_unlk_idx (fst s2) = 0" using la DidSplit z1 by (simp add: latched_def)
    from ReleaseLatchFromParent_ok [OF _ this, of EXCLUSIVE]
    obtain s3 where s3: "ReleaseLatchFromParent 0 EXCLUSIVE s2 = Some s3" by auto
    show ?thesis
      unfolding MemoryBTree_Insert_def AcquireLatch_eq prod.case S1_def [symmetric]
      using ins s2 DidSplit nr s3 by simp
  qed
qed

lemma MemoryBTree_Delete_returns:
  assumes L: "2 \<le> L" and e: "even L" and I: "3 \<le> I" and inv: "tree_inv L I t"
    and ok: "ctx_ok s" and z: "smallest_unlk_idx (fst s) = 0"
  shows "\<exists>b t' s'. MemoryBTree_Delete L I key t s = Some (b, t', s')"
proof -
  define h where "h = height (root t)"
  define S1 where "S1 = ((fst s)\<lparr>latches := latches (fst s) @ [unnamed]\<rparr>, snd s @ lock_as EXCLUSIVE unnamed)"
  have ok1: "ctx_ok S1" unfolding S1_def using ok by (rule ctx_ok_push)
  have z1: "smallest_unlk_idx (fst S1) = 0" using z by (simp add: S1_def)
  have ub: "1 \<le> UNDERFLOW_BOUND I" "2 \<le> UNDERFLOW_BOUND I" using I by (auto simp: UNDERFLOW_BOUND_def)
  have I1: "1 \<le> I" using I by simp
  have sh: "shape_top L I 0 2 h (root t)" and o: "ord None (root t) None"
    using inv by (simp_all add: links_inv_tree h_def)
  note D = Delete_inv [OF L I o _ _ sh _ ub(2), of key]
  then obtain ret underflow n where d: "Delete L I key (root t) = Some (ret, underflow, n)"
    using e by (cases "Delete L I key (root t)") auto
  have "del_ok L I None None 0 2 h key (root t) (ret, underflow, n)" using D d by simp
  then have dk: "\<not> underflow \<Longrightarrow> shape_top L I 0 2 h n"
    unfolding del_ok_def by simp
  from Delete_latches_ok [OF I1 d ok1]
  obtain s2 where s2: "Delete_latches L I key (root t) S1 = Some s2"
    and la: "latched S1 (SharedLatchPtr (root t)) (\<not> ret \<or> \<not> underflow) s2" by blast
  show ?thesis
  proof (cases ret)
    case False
    then show ?thesis
      unfolding MemoryBTree_Delete_def AcquireLatch_eq prod.case S1_def [symmetric]
      using d s2 by auto
  next
    case True
    have r': "\<exists>r'. (if Type n = INTERNAL \<and> Size n = 1
                     then (if \<not> underflow then None else GetChild n 0) else Some n) = Some r'"
    proof (cases "Type n = INTERNAL \<and> Size n = 1")
      case False
      then show ?thesis by auto
    next
      case one: True
      then obtain k c where n: "n = InternalNode [(k, c)]"
        by (cases n) (auto simp: length_Suc_conv)
      have underflow using dk n by auto
      then show ?thesis using n by (simp add: GetChild_def)
    qed
    have s3: "\<exists>s3. (if underflow then ReleaseLatchFromParent 0 EXCLUSIVE s2 else Some s2) = Some s3"
    proof (cases underflow)
      case False
      then show ?thesis by simp
    next
      case u: True
      have "smallest_unlk_idx (fst s2) = 0" using la True u z1 by (simp add: latched_def)
      from ReleaseLatchFromParent_ok [OF _ this, of EXCLUSIVE] show ?thesis using u by auto
    qed
    from r' obtain rr where rr: "(if Type n = INTERNAL \<and> Size n = 1
                     then (if \<not> underflow then None else GetChild n 0) else Some n) = Some rr"
      by blast
    from s3 obtain s3' where s3': "(if underflow then ReleaseLatchFromParent 0 EXCLUSIVE s2
                                    else Some s2) = Some s3'"
      by blast
    have nt: "(\<not> ret) = False" using True by simp
    have "MemoryBTree_Delete L I key t s = Some (True, t\<lparr>root := rr\<rparr>, Clear (fst s3'), snd s3')"
      unfolding MemoryBTree_Delete_def AcquireLatch_eq prod.case S1_def [symmetric]
      by (simp only: d s2 option.case prod.case nt if_False rr s3')
    then show ?thesis by blast
  qed
qed

lemma odd_capacity_split:
  "map_option fst (run 3 4 [Ins 3 3, Ins 4 4, Ins 5 5, Ins 1 1] MemoryBTree_new (QueryContext_new, []))
     = Some \<lparr>root = InternalNode [(4::int, LeafNode 0 [(1, 1::int), (3, 3), (4, 4)] (Some 1)),
                                   (5, LeafNode 1 [(5, 5)] None)], next_addr = 2\<rparr>
   \<and> UNDERFLOW_BOUND 3 = 2
   \<and> run 3 4 [Ins 3 3, Ins 4 4, Ins 5 5, Ins 1 1, Del (5::int)] MemoryBTree_new (QueryContext_new, [])
     = (None :: ((int, int) MemoryBTree \<times> QueryContext \<times> mutex_call list) option)"
  by code_simp




section \<open>A delete that finds nothing\<close>

text \<open>
  C6.  On a tree reached by any workload, deleting a key that the tree does not hold
  returns \<^verbatim>\<open>false\<close> and leaves the tree as it was: the root, with every entry,
  separator, size and sibling pointer below it, and the allocator are unchanged.  This
  holds for every capacity and from every state of the context the delete is given.
\<close>

theorem Delete_absent_key:
  assumes "run L I ops MemoryBTree_new (QueryContext_new, []) = Some (t, s)"
    and "key \<notin> keys_of (root t)"
  shows "\<exists>s'. MemoryBTree_Delete L I key t s0 = Some (False, t, s')"
proof -
  have "sound L t" using run_reaches_sound [OF assms(1)] by simp
  then have "populated (root t)" using ord_populated by (auto simp: sound_def)
  from MemoryBTree_Delete_absent [OF this assms(2), of L I s0] show ?thesis by blast
qed

theorem Delete_absent_key_witness:
  "map_option fst (run 4 4 [Ins 1 1, Ins 2 2, Ins 3 3, Ins 4 4, Ins 5 5, Ins 6 6, Ins 7 7, Ins 8 8, Del 4]
                     MemoryBTree_new (QueryContext_new, []))
     = Some \<lparr>root = InternalNode [(4::int, LeafNode 0 [(1, 1::int), (2, 2), (3, 3)] (Some 2)),
                                   (5, LeafNode 2 [(5, 5), (6, 6), (7, 7), (8, 8)] None)],
             next_addr = 3\<rparr>
   \<and> 4 \<notin> keys_of (root \<lparr>root = InternalNode [(4::int, LeafNode 0 [(1, 1::int), (2, 2), (3, 3)] (Some 2)),
                                   (5, LeafNode 2 [(5, 5), (6, 6), (7, 7), (8, 8)] None)],
             next_addr = 3\<rparr>)
   \<and> (\<exists>s'. MemoryBTree_Delete 4 4 4
        \<lparr>root = InternalNode [(4::int, LeafNode 0 [(1, 1::int), (2, 2), (3, 3)] (Some 2)),
                                   (5, LeafNode 2 [(5, 5), (6, 6), (7, 7), (8, 8)] None)],
             next_addr = 3\<rparr> (QueryContext_new, [])
      = Some (False, \<lparr>root = InternalNode [(4::int, LeafNode 0 [(1, 1::int), (2, 2), (3, 3)] (Some 2)),
                                   (5, LeafNode 2 [(5, 5), (6, 6), (7, 7), (8, 8)] None)],
             next_addr = 3\<rparr>, s'))"
proof -
  let ?ops = "[Ins (1::int) (1::int), Ins 2 2, Ins 3 3, Ins 4 4, Ins 5 5, Ins 6 6, Ins 7 7, Ins 8 8, Del 4]"
  let ?T = "\<lparr>root = InternalNode [(4::int, LeafNode 0 [(1, 1::int), (2, 2), (3, 3)] (Some 2)),
                                   (5, LeafNode 2 [(5, 5), (6, 6), (7, 7), (8, 8)] None)],
             next_addr = 3::nat\<rparr>"
  have h: "map_option fst (run 4 4 ?ops MemoryBTree_new (QueryContext_new, [])) = Some ?T"
    by code_simp
  then obtain s where r: "run 4 4 ?ops MemoryBTree_new (QueryContext_new, []) = Some (?T, s)"
    by (cases "run 4 4 ?ops MemoryBTree_new (QueryContext_new, [])") auto
  have k: "4 \<notin> keys_of (root ?T)" by (simp add: keys_of_def entries_of_def)
  from Delete_absent_key [OF r k, of "(QueryContext_new, [])"] h k show ?thesis by blast
qed

section \<open>Replacing the root\<close>

text \<open>
  C7.  When a delete leaves an internal root with one child, the tree makes that child
  the root.  With internal capacity 2 it does not get there: \<^verbatim>\<open>UNDERFLOW_BOUND(2)\<close>
  is 1, so a root left with one child after a merge does not report an underflow, and
  \<^verbatim>\<open>MemoryBTree::Delete\<close> fails its assertion \<^verbatim>\<open>underflow == true\<close>.  After the
  inserts of 1, 2, 3 and the delete of 1, the delete of 2 merges the two leaves, the
  root keeps one child and reports no underflow, and the operation of the tree stops.
  With capacity 4 the same merge reports the underflow and the child becomes the root.
\<close>

theorem root_collapse_capacity_two:
  "map_option fst (run 2 2 [Ins 1 1, Ins 2 2, Ins 3 3, Del 1] MemoryBTree_new (QueryContext_new, []))
     = Some \<lparr>root = InternalNode [(2::int, LeafNode 0 [(2, 2::int)] (Some 1)),
                                   (3, LeafNode 1 [(3, 3)] None)], next_addr = 2\<rparr>
   \<and> Delete 2 2 2 (InternalNode [(2::int, LeafNode 0 [(2, 2::int)] (Some 1)),
                                  (3, LeafNode 1 [(3, 3)] None)])
       = Some (True, False, InternalNode [(3, LeafNode 0 [(3, 3)] None)])
   \<and> MemoryBTree_Delete 2 2 2
        \<lparr>root = InternalNode [(2::int, LeafNode 0 [(2, 2::int)] (Some 1)),
                              (3, LeafNode 1 [(3, 3)] None)], next_addr = 2\<rparr>
        (QueryContext_new, []) = None
   \<and> map_option (\<lambda>(b, t, s). (b, t, fst s))
       (MemoryBTree_Delete 4 4 2
          \<lparr>root = InternalNode [(2::int, LeafNode 0 [(1, 1::int), (2, 2)] (Some 1)),
                                (5, LeafNode 1 [(3, 3), (4, 4)] None)], next_addr = 2\<rparr>
          (QueryContext_new, []))
       = Some (True, \<lparr>root = LeafNode 0 [(1, 1), (3, 3), (4, 4)] None, next_addr = 2\<rparr>, QueryContext_new)"
  by code_simp

end
